(* ===== verification/Prelude.thy ===== *)
theory Prelude
  imports Main "HOL-Library.Word" "HOL-Library.Char_ord" "HOL-Library.List_Lexorder"
    "HOL-Library.Product_Lexorder"
begin

text \<open>
  What every theory of the development shares: the names of the machine types of the Rust
  sources, the saturating, checked and wrapping arithmetic of the Rust standard library on
  them, and the collections of simplification rules the component theories feed.

  \<^item> \<open>u8\<close>, \<open>u32\<close>, \<open>u64\<close> are machine words of that width, so an unchecked addition wraps, as
    it does in the release profile of the workspace (which leaves overflow checks off).
  \<^item> \<open>usize\<close> is a natural number: it counts elements of lists that are in memory. Where the
    source saturates at \<open>usize::MAX\<close> the model writes the bound out.
  \<^item> a \<open>String\<close> is a list of bytes (\<open>string\<close>), ordered lexicographically by byte value, which
    is what \<open>Ord\<close> on Rust strings does; pairs compare lexicographically, as Rust tuples do.
\<close>

section \<open>Machine types\<close>

type_synonym u8 = "8 word"
type_synonym u32 = "32 word"
type_synonym u64 = "64 word"
type_synonym usize = nat
type_synonym bytes = "u8 list"

named_theorems model_defs \<open>definitions of a component that its proofs unfold\<close>
named_theorems arith_simps \<open>reading saturating and checked arithmetic through unat\<close>

section \<open>Rust integer arithmetic\<close>

text \<open>An unsigned sum overflows exactly when it is smaller than a summand.\<close>

definition sat_add :: "'a::len word \<Rightarrow> 'a word \<Rightarrow> 'a word" where
  "sat_add a b = (if a \<le> a + b then a + b else - 1)"

definition sat_sub :: "'a::len word \<Rightarrow> 'a word \<Rightarrow> 'a word" where
  "sat_sub a b = (if b \<le> a then a - b else 0)"

definition checked_add :: "'a::len word \<Rightarrow> 'a word \<Rightarrow> 'a word option" where
  "checked_add a b = (if a \<le> a + b then Some (a + b) else None)"

definition checked_mul :: "'a::len word \<Rightarrow> 'a word \<Rightarrow> 'a word option" where
  "checked_mul a b = (if uint a * uint b < 2 ^ LENGTH('a) then Some (a * b) else None)"

definition sat_mul :: "'a::len word \<Rightarrow> 'a word \<Rightarrow> 'a word" where
  "sat_mul a b = (if uint a * uint b < 2 ^ LENGTH('a) then a * b else - 1)"

definition usize_max :: usize where
  "usize_max = 2 ^ 64 - 1"

definition usize_sat_add :: "usize \<Rightarrow> usize \<Rightarrow> usize" where
  "usize_sat_add a b = min (a + b) usize_max"

lemma unat_max_word [simp, arith_simps]: "unat (- 1 :: 'a::len word) = 2 ^ LENGTH('a) - 1"
  by (simp only: unsigned_minus_1_eq_mask mask_eq_exp_minus_1)

lemma unat_bound: "unat (a :: 'a::len word) < 2 ^ LENGTH('a)"
  by (rule unsigned_less)

lemma unat_le_max: "unat (a :: 'a::len word) \<le> 2 ^ LENGTH('a) - Suc 0"
  using unat_bound [of a] by linarith

lemma word_ne_max_less: "(a :: 'a::len word) \<noteq> - 1 \<longleftrightarrow> a < - 1"
  by (simp add: less_le)

lemma le_add_iff: "a \<le> a + b \<longleftrightarrow> unat a + unat b < 2 ^ LENGTH('a)" for a b :: "'a::len word"
  by (rule no_olen_add_nat)

lemma unat_sat_add [arith_simps]:
  "unat (sat_add a b) = min (unat a + unat b) (2 ^ LENGTH('a) - 1)" for a b :: "'a::len word"
  by (auto simp: sat_add_def le_add_iff unat_word_ariths min_def)

lemma sat_add_ge [simp]: "a \<le> sat_add a b"
  using unat_le_max [of a] by (auto simp: word_le_nat_alt unat_sat_add)

lemma sat_add_mono: "a \<le> a' \<Longrightarrow> sat_add a b \<le> sat_add a' b"
  by (auto simp: word_le_nat_alt unat_sat_add min_def)

lemma sat_add_one_gt: "a \<noteq> - 1 \<Longrightarrow> a < sat_add a 1" for a :: "'a::len word"
proof -
  assume "a \<noteq> - 1"
  then have "unat a \<noteq> 2 ^ LENGTH('a) - 1"
    by (metis unat_max_word unsigned_word_eqI)
  with unat_bound [of a] have "unat a + 1 < 2 ^ LENGTH('a)" by linarith
  moreover have "unat (1 :: 'a word) = 1" by simp
  ultimately show ?thesis by (simp add: word_less_nat_alt unat_sat_add)
qed

lemma sat_add_one_eq_max_iff: "sat_add a 1 = a \<longleftrightarrow> a = - 1" for a :: "'a::len word"
  using sat_add_one_gt [of a] by (auto simp: sat_add_def)

lemma unat_sat_sub [arith_simps]: "unat (sat_sub a b) = unat a - unat b"
  by (auto simp: sat_sub_def word_le_nat_alt unat_sub)

lemma checked_add_Some [arith_simps]:
  "checked_add a b = Some c \<longleftrightarrow> unat a + unat b < 2 ^ LENGTH('a) \<and> unat c = unat a + unat b"
  for a b :: "'a::len word"
  by (auto simp: checked_add_def le_add_iff unat_word_ariths intro!: unsigned_word_eqI [where ?'a = nat])

lemma checked_add_one: "checked_add a 1 = (if a = - 1 then None else Some (a + 1))"
  for a :: "'a::len word"
proof (cases "a = - 1")
  case False
  then have "unat a \<noteq> 2 ^ LENGTH('a) - 1"
    by (metis unat_max_word unsigned_word_eqI)
  with unat_bound [of a] have "unat a + 1 < 2 ^ LENGTH('a)" by linarith
  with False show ?thesis by (simp add: checked_add_def le_add_iff)
qed (simp add: checked_add_def)

lemma usize_sat_add_gt [arith_simps]:
  "n \<le> usize_max \<Longrightarrow> n < usize_sat_add a b \<longleftrightarrow> n < a + b \<and> n < usize_max"
  by (auto simp: usize_sat_add_def)

section \<open>Iterator helpers\<close>

text \<open>
  \<open>Iterator::min_by_key\<close> returns the first of several least elements and \<open>max_by_key\<close> the last of
  several greatest; both return nothing on an empty iterator.
\<close>

fun min_by_key :: "('a \<Rightarrow> 'b::linorder) \<Rightarrow> 'a list \<Rightarrow> 'a option" where
  "min_by_key f [] = None"
| "min_by_key f (x # xs) =
    (case min_by_key f xs of None \<Rightarrow> Some x | Some y \<Rightarrow> Some (if f y < f x then y else x))"

fun max_by_key :: "('a \<Rightarrow> 'b::linorder) \<Rightarrow> 'a list \<Rightarrow> 'a option" where
  "max_by_key f [] = None"
| "max_by_key f (x # xs) =
    (case max_by_key f xs of None \<Rightarrow> Some x | Some y \<Rightarrow> Some (if f y < f x then x else y))"

lemma min_by_key_None [simp]: "min_by_key f xs = None \<longleftrightarrow> xs = []"
  by (cases xs) (auto split: option.splits)

lemma max_by_key_None [simp]: "max_by_key f xs = None \<longleftrightarrow> xs = []"
  by (cases xs) (auto split: option.splits)

lemma min_by_key_SomeD:
  "min_by_key f xs = Some x \<Longrightarrow> x \<in> set xs \<and> (\<forall>y \<in> set xs. f x \<le> f y)"
  by (induction xs arbitrary: x) (fastforce split: option.splits if_splits)+

lemma max_by_key_SomeD:
  "max_by_key f xs = Some x \<Longrightarrow> x \<in> set xs \<and> (\<forall>y \<in> set xs. f y \<le> f x)"
  by (induction xs arbitrary: x) (fastforce split: option.splits if_splits)+

text \<open>
  \<open>Vec::dedup_by\<close> drops an element that matches its retained predecessor. A filter through
  \<open>seen.insert\<close> keeps the first occurrence of every element.
\<close>

fun dedup_by :: "('a \<Rightarrow> 'a \<Rightarrow> bool) \<Rightarrow> 'a list \<Rightarrow> 'a list" where
  "dedup_by same [] = []"
| "dedup_by same [x] = [x]"
| "dedup_by same (x # y # xs) = (if same y x then dedup_by same (x # xs) else x # dedup_by same (y # xs))"

fun first_seen :: "'a set \<Rightarrow> 'a list \<Rightarrow> 'a list" where
  "first_seen seen [] = []"
| "first_seen seen (x # xs) = (if x \<in> seen then first_seen seen xs else x # first_seen (insert x seen) xs)"

text \<open>\<open>Iterator::position\<close>, and \<open>Vec::remove\<close> at an index.\<close>

fun position :: "('a \<Rightarrow> bool) \<Rightarrow> 'a list \<Rightarrow> nat option" where
  "position P [] = None"
| "position P (x # xs) = (if P x then Some 0 else map_option Suc (position P xs))"

definition vec_remove :: "nat \<Rightarrow> 'a list \<Rightarrow> 'a list" where
  "vec_remove i xs = take i xs @ drop (Suc i) xs"

lemma position_None [simp]: "position P xs = None \<longleftrightarrow> (\<forall>x \<in> set xs. \<not> P x)"
  by (induction xs) auto

lemma position_SomeD: "position P xs = Some i \<Longrightarrow> i < length xs \<and> P (xs ! i) \<and> (\<forall>j < i. \<not> P (xs ! j))"
  by (induction xs arbitrary: i) (auto simp: less_Suc_eq_0_disj split: if_splits)

lemma length_vec_remove [simp]: "i < length xs \<Longrightarrow> length (vec_remove i xs) = length xs - 1"
  by (simp add: vec_remove_def)

lemma set_vec_remove_subset: "set (vec_remove i xs) \<subseteq> set xs"
  by (auto simp: vec_remove_def dest: in_set_takeD in_set_dropD)

lemma in_set_vec_remove: "i < length xs \<Longrightarrow> x \<in> set xs \<Longrightarrow> x \<noteq> xs ! i \<Longrightarrow> x \<in> set (vec_remove i xs)"
  by (metis Un_iff id_take_nth_drop set_ConsD set_append vec_remove_def)

lemma dedup_by_subset: "set (dedup_by same xs) \<subseteq> set xs"
  by (induction same xs rule: dedup_by.induct) auto

lemma dedup_by_eq: "dedup_by (=) xs = remdups_adj xs"
  by (induction "(=) :: 'a \<Rightarrow> 'a \<Rightarrow> bool" xs rule: dedup_by.induct) auto

lemma set_first_seen [simp]: "set (first_seen seen xs) = set xs - seen"
  by (induction seen xs rule: first_seen.induct) auto

lemma distinct_first_seen [simp]: "distinct (first_seen seen xs)"
  by (induction seen xs rule: first_seen.induct) auto

lemma first_seen_distinct: "distinct xs \<Longrightarrow> set xs \<inter> seen = {} \<Longrightarrow> first_seen seen xs = xs"
  by (induction seen xs rule: first_seen.induct) auto

text \<open>Lists sorted by an injective key, with adjacent duplicates removed, are determined by their sets.\<close>

lemma sorted_remdups_adj_strict:
  "sorted (map f xs) \<Longrightarrow> inj_on f (set xs) \<Longrightarrow> sorted_wrt (\<lambda>x y. f x < f y) (remdups_adj xs)"
proof (induction xs rule: remdups_adj.induct)
  case (3 x y xs)
  show ?case
  proof (cases "x = y")
    case True
    with 3 show ?thesis by (auto simp: insert_commute)
  next
    case False
    with "3.prems" have "f x < f z" if "z \<in> set (y # xs)" for z
      using that by (auto simp: less_le inj_on_def)
    moreover have "sorted_wrt (\<lambda>x y. f x < f y) (remdups_adj (y # xs))"
      using 3 False by (auto simp: inj_on_def)
    ultimately show ?thesis using False by auto
  qed
qed auto

lemma sorted_key_unique:
  fixes f :: "'a \<Rightarrow> 'b::linorder"
  assumes "sorted_wrt (\<lambda>x y. f x < f y) xs" "sorted_wrt (\<lambda>x y. f x < f y) ys" "set xs = set ys" "inj_on f (set xs)"
  shows "xs = ys"
proof -
  have sorted: "sorted_wrt (<) (map f xs)" "sorted_wrt (<) (map f ys)"
    using assms(1,2) by (simp_all add: sorted_wrt_map)
  have "map f xs = map f ys"
    by (rule sorted_distinct_set_unique) (use sorted assms(3) in \<open>simp_all add: strict_sorted_iff\<close>)
  then show ?thesis using assms(3,4) inj_on_map_eq_map [of f xs ys] by simp
qed

lemma distinct_sorted_key: "sorted_wrt (\<lambda>x y. f x < (f y :: 'b::linorder)) xs \<Longrightarrow> distinct xs"
proof (induction xs)
  case (Cons x xs)
  then have "f x < f x" if "x \<in> set xs" using that by auto
  with Cons show ?case by auto
qed simp

section \<open>Results\<close>

text \<open>
  A \<open>Result<T, E>\<close> is a value of \<open>'e + 'a\<close>, \<open>Inl\<close> the error; \<open>result_bind\<close> is the question-mark
  operator, \<open>ok_or\<close> turns an option into a result.
\<close>

fun result_bind :: "'e + 'a \<Rightarrow> ('a \<Rightarrow> 'e + 'b) \<Rightarrow> 'e + 'b" where
  "result_bind (Inl e) f = Inl e"
| "result_bind (Inr a) f = f a"

definition ok_or :: "'e \<Rightarrow> 'a option \<Rightarrow> 'e + 'a" where
  "ok_or e r = (case r of None \<Rightarrow> Inl e | Some a \<Rightarrow> Inr a)"

fun is_ok :: "'e + 'a \<Rightarrow> bool" where
  "is_ok (Inl e) = False"
| "is_ok (Inr a) = True"

fun try_fold :: "('s \<Rightarrow> 'a \<Rightarrow> 'e + 's) \<Rightarrow> 's \<Rightarrow> 'a list \<Rightarrow> 'e + 's" where
  "try_fold f s [] = Inr s"
| "try_fold f s (x # xs) = result_bind (f s x) (\<lambda>s'. try_fold f s' xs)"

lemma result_bind_Inr_iff: "result_bind r f = Inr b \<longleftrightarrow> (\<exists>a. r = Inr a \<and> f a = Inr b)"
  by (cases r) auto

lemma ok_or_Inr_iff [simp]: "ok_or e r = Inr a \<longleftrightarrow> r = Some a"
  by (auto simp: ok_or_def split: option.splits)

section \<open>Printing\<close>

text \<open>The decimal digits \<open>format!\<close> writes for an unsigned number.\<close>

fun decimal :: "nat \<Rightarrow> string" where
  "decimal n = (if n < 10 then [char_of (48 + n)] else decimal (n div 10) @ [char_of (48 + n mod 10)])"

declare decimal.simps [simp del]

lemma decimal_digits: "c \<in> set (decimal n) \<Longrightarrow> \<exists>d < 10. c = char_of (48 + d :: nat)"
proof (induction n rule: decimal.induct)
  case (1 n)
  show ?case
  proof (cases "n < 10")
    case True
    with 1 show ?thesis by (auto simp: decimal.simps [of n])
  next
    case False
    with 1(2) consider "c \<in> set (decimal (n div 10))" | "c = char_of (48 + n mod 10)"
      by (auto simp: decimal.simps [of n])
    then show ?thesis
    proof cases
      case 1
      with False "1.IH" show ?thesis by blast
    next
      case 2
      then show ?thesis by (intro exI [of _ "n mod 10"]) simp
    qed
  qed
qed

lemma decimal_value: "foldl (\<lambda>v c. 10 * v + (of_char c - 48)) 0 (decimal n) = (n :: nat)"
proof (induction n rule: decimal.induct)
  case (1 n)
  show ?case
  proof (cases "n < 10")
    case True
    then show ?thesis by (simp add: decimal.simps [of n] of_char_of)
  next
    case False
    then have "foldl (\<lambda>v c. 10 * v + (of_char c - 48)) 0 (decimal n) = 10 * (n div 10) + n mod 10"
      using 1 by (simp add: decimal.simps [of n] of_char_of)
    then show ?thesis by simp
  qed
qed

lemma decimal_inject [simp]: "decimal m = decimal n \<longleftrightarrow> m = n"
  by (metis decimal_value)

lemma decimal_no_colon [simp]: "CHR '':'' \<notin> set (decimal n)"
proof
  assume "CHR '':'' \<in> set (decimal n)"
  then obtain d :: nat where "d < 10" "CHR '':'' = char_of (48 + d)" by (auto dest: decimal_digits)
  then have "(of_char CHR '':'' :: nat) = 48 + d" by (simp add: of_char_of)
  with \<open>d < 10\<close> show False by simp
qed

text \<open>Joining strings with a separator, as \<open>[String]::join\<close> does.\<close>

fun join :: "string \<Rightarrow> string list \<Rightarrow> string" where
  "join sep [] = []"
| "join sep [x] = x"
| "join sep (x # y # xs) = x @ sep @ join sep (y # xs)"

section \<open>Time\<close>

text \<open>
  \<open>Instant\<close> and \<open>Duration\<close> in nanoseconds. A \<open>Duration\<close> holds a 64-bit number of seconds and a
  nanosecond part, and saturates at its maximum; adding one to an \<open>Instant\<close> fails beyond the largest
  representable instant (a signed 64-bit number of seconds).
\<close>

type_synonym duration = nat
type_synonym instant = nat

definition DURATION_MAX :: duration where
  "DURATION_MAX = (2 ^ 64 - 1) * 1000000000 + 999999999"

definition INSTANT_MAX :: instant where
  "INSTANT_MAX = (2 ^ 63 - 1) * 1000000000 + 999999999"

definition instant_checked_add :: "instant \<Rightarrow> duration \<Rightarrow> instant option" where
  "instant_checked_add t d = (if t + d \<le> INSTANT_MAX then Some (t + d) else None)"

definition duration_sat_mul :: "duration \<Rightarrow> nat \<Rightarrow> duration" where
  "duration_sat_mul d n = min (d * n) DURATION_MAX"

end
