(* ===== verification/Cache_Key.thy ===== *)
theory Cache_Key
  imports Prelude
begin

text \<open>
  \<open>hydracache-core/src/key.rs\<close>: cache keys built from escaped, colon-separated segments. A string
  is its list of bytes; the two characters that are escaped are ASCII and no byte of a multi-byte
  UTF-8 sequence is ASCII, so escaping by character and by byte agree. The theory proves which
  builders produce the same key: the escaping is injective, and so is the whole builder except
  that no segment at all and one empty segment share the empty key.
\<close>

section \<open>Model\<close>

record cache_key_builder =
  segments :: "string list"

definition builder_new :: cache_key_builder where
  "builder_new = \<lparr>segments = []\<rparr>"

fun escape_segment :: "string \<Rightarrow> string" where
  "escape_segment [] = []"
| "escape_segment (ch # cs) =
    (if ch = CHR ''%'' then ''%25'' else if ch = CHR '':'' then ''%3A'' else [ch]) @ escape_segment cs"

definition builder_segment :: "string \<Rightarrow> cache_key_builder \<Rightarrow> cache_key_builder" where
  "builder_segment seg b = b\<lparr>segments := segments b @ [escape_segment seg]\<rparr>"

definition from_segment :: "string \<Rightarrow> cache_key_builder" where
  "from_segment seg = builder_segment seg builder_new"

definition builder_segments :: "string list \<Rightarrow> cache_key_builder \<Rightarrow> cache_key_builder" where
  "builder_segments segs b = b\<lparr>segments := segments b @ map escape_segment segs\<rparr>"

definition builder_entity :: "string \<Rightarrow> string \<Rightarrow> cache_key_builder \<Rightarrow> cache_key_builder" where
  "builder_entity kind ident b = builder_segment ident (builder_segment kind b)"

definition builder_tenant :: "string \<Rightarrow> cache_key_builder \<Rightarrow> cache_key_builder" where
  "builder_tenant ident b = builder_segment ident (builder_segment ''tenant'' b)"

definition builder_is_empty :: "cache_key_builder \<Rightarrow> bool" where
  "builder_is_empty b = (segments b = [])"

definition build_string :: "cache_key_builder \<Rightarrow> string" where
  "build_string b = join '':'' (segments b)"

section \<open>Reading a key back\<close>

text \<open>The inverse the escaping is designed for; no code of the repository parses keys.\<close>

fun unescape :: "string \<Rightarrow> string" where
  "unescape [] = []"
| "unescape [c] = [c]"
| "unescape [c, d] = [c, d]"
| "unescape (c # d # e # cs) =
    (if c = CHR ''%'' \<and> d = CHR ''2'' \<and> e = CHR ''5'' then CHR ''%'' # unescape cs
     else if c = CHR ''%'' \<and> d = CHR ''3'' \<and> e = CHR ''A'' then CHR '':'' # unescape cs
     else c # unescape (d # e # cs))"

fun split_colon :: "string \<Rightarrow> string list" where
  "split_colon [] = [[]]"
| "split_colon (c # cs) =
    (if c = CHR '':'' then [] # split_colon cs
     else (case split_colon cs of [] \<Rightarrow> [[c]] | p # ps \<Rightarrow> (c # p) # ps))"

lemma unescape_plain: "c \<noteq> CHR ''%'' \<Longrightarrow> unescape (c # cs) = c # unescape cs"
  by (cases "(c # cs)" rule: unescape.cases) auto

lemma unescape_escape [simp]: "unescape (escape_segment s) = s"
  by (induction s) (auto simp: unescape_plain)

lemma escape_segment_inject [simp]: "escape_segment a = escape_segment b \<longleftrightarrow> a = b"
  by (metis unescape_escape)

lemma escape_segment_no_colon [simp]: "CHR '':'' \<notin> set (escape_segment s)"
  by (induction s) auto

lemma escape_segment_eq_Nil [simp]: "escape_segment s = [] \<longleftrightarrow> s = []"
  by (cases s) auto

lemma split_colon_not_Nil [simp]: "split_colon s \<noteq> []"
  by (induction s) (auto split: list.splits)

lemma split_colon_plain: "CHR '':'' \<notin> set s \<Longrightarrow> split_colon s = [s]"
  by (induction s) auto

lemma split_colon_append:
  "CHR '':'' \<notin> set s \<Longrightarrow> split_colon (s @ CHR '':'' # t) = s # split_colon t"
  by (induction s) auto

lemma split_colon_join:
  "xs \<noteq> [] \<Longrightarrow> \<forall>x \<in> set xs. CHR '':'' \<notin> set x \<Longrightarrow> split_colon (join '':'' xs) = xs"
  by (induction "'':''" xs rule: join.induct) (auto simp: split_colon_plain split_colon_append)

lemma split_colon_build:
  "xs \<noteq> [] \<Longrightarrow> map unescape (split_colon (join '':'' (map escape_segment xs))) = xs"
  by (subst split_colon_join) (auto simp: comp_def)

lemma join_eq_Nil: "join '':'' xs = [] \<longleftrightarrow> xs = [] \<or> xs = [[]]"
  by (induction "'':''" xs rule: join.induct) auto

text \<open>
  Two key builders filled with the segments \<open>xs\<close> and \<open>ys\<close> produce the same cache key exactly
  when the segments are the same, whatever characters they contain, with one exception: a builder
  with no segment and a builder with one empty segment both produce the empty key. So a key never
  confuses one segment containing a colon or a percent sign with several segments.
\<close>
lemma build_string_collision_iff:
  "build_string (builder_segments xs builder_new) = build_string (builder_segments ys builder_new)
    \<longleftrightarrow> xs = ys \<or> (xs = [] \<and> ys = [[]]) \<or> (xs = [[]] \<and> ys = [])"
proof -
  have nil: "join '':'' (map escape_segment zs) = [] \<longleftrightarrow> zs = [] \<or> zs = [[]]" for zs
    by (auto simp: join_eq_Nil map_eq_Cons_conv)
  have "join '':'' (map escape_segment xs) = join '':'' (map escape_segment ys) \<Longrightarrow> xs \<noteq> [] \<Longrightarrow>
      ys \<noteq> [] \<Longrightarrow> xs = ys"
    by (metis split_colon_build)
  then show ?thesis
    using nil [of xs] nil [of ys]
    by (cases "xs = []"; cases "ys = []") (auto simp: build_string_def builder_segments_def builder_new_def)
qed

end
