(* ===== verification/Ordered_Map.thy ===== *)
theory Ordered_Map
  imports Prelude "HOL-Library.Multiset"
begin

text \<open>
  The ordered maps of the sources (\<open>std::collections::BTreeMap\<close>, and \<open>HashMap\<close>, \<open>DashMap\<close>
  where the code never depends on their iteration order) as association lists sorted strictly
  by key. Every operation is executable, iteration is list order, and two well formed maps with
  the same bindings are equal. The contract the components use is the locale \<open>keyed_map\<close>,
  interpreted below on these operations; the weight of a map (the sum of a size over its
  values) is what the byte budgets of the components are stated with.
\<close>

type_synonym ('k, 'v) btmap = "('k \<times> 'v) list"

section \<open>Operations\<close>

definition bt_empty :: "('k, 'v) btmap" where
  "bt_empty = []"

abbreviation bt_get :: "('k, 'v) btmap \<Rightarrow> 'k \<Rightarrow> 'v option" where
  "bt_get \<equiv> map_of"

fun bt_insert :: "'k::linorder \<Rightarrow> 'v \<Rightarrow> ('k, 'v) btmap \<Rightarrow> ('k, 'v) btmap" where
  "bt_insert k v [] = [(k, v)]"
| "bt_insert k v ((a, b) # m) =
    (if k < a then (k, v) # (a, b) # m else if k = a then (k, v) # m else (a, b) # bt_insert k v m)"

definition bt_remove :: "'k \<Rightarrow> ('k, 'v) btmap \<Rightarrow> ('k, 'v) btmap" where
  "bt_remove k m = filter (\<lambda>(a, _). a \<noteq> k) m"

definition bt_retain :: "('k \<Rightarrow> 'v \<Rightarrow> bool) \<Rightarrow> ('k, 'v) btmap \<Rightarrow> ('k, 'v) btmap" where
  "bt_retain P m = filter (\<lambda>(k, v). P k v) m"

definition bt_keys :: "('k, 'v) btmap \<Rightarrow> 'k list" where
  "bt_keys m = map fst m"

definition bt_values :: "('k, 'v) btmap \<Rightarrow> 'v list" where
  "bt_values m = map snd m"

definition bt_extend :: "('k::linorder \<times> 'v) list \<Rightarrow> ('k, 'v) btmap \<Rightarrow> ('k, 'v) btmap" where
  "bt_extend kvs m = fold (\<lambda>(k, v). bt_insert k v) kvs m"

definition bt_ok :: "('k::linorder, 'v) btmap \<Rightarrow> bool" where
  "bt_ok m \<longleftrightarrow> sorted_wrt (<) (map fst m)"

definition bt_weight :: "('v \<Rightarrow> nat) \<Rightarrow> ('k, 'v) btmap \<Rightarrow> nat" where
  "bt_weight f m = sum_list (map (f \<circ> snd) m)"

section \<open>Lookup\<close>

lemma bt_get_empty [simp]: "bt_get bt_empty = Map.empty"
  by (simp add: bt_empty_def)

lemma bt_get_insert [simp]: "bt_get (bt_insert k v m) = (bt_get m)(k \<mapsto> v)"
  by (induction k v m rule: bt_insert.induct) auto

lemma bt_get_remove [simp]: "bt_get (bt_remove k m) = (bt_get m)(k := None)"
  by (induction m) (auto simp: bt_remove_def)

lemma bt_get_in_set: "bt_get m k = Some v \<Longrightarrow> (k, v) \<in> set m"
  by (rule map_of_SomeD)

lemma bt_get_retain:
  "bt_ok m \<Longrightarrow> bt_get (bt_retain P m) k =
    (case bt_get m k of Some v \<Rightarrow> if P k v then Some v else None | None \<Rightarrow> None)"
  unfolding bt_ok_def bt_retain_def
  by (induction m) (auto split: option.splits dest!: map_of_SomeD)

lemma dom_bt_get: "dom (bt_get m) = set (bt_keys m)"
  by (simp add: bt_keys_def dom_map_of_conv_image_fst)

lemma bt_get_None_iff: "bt_get m k = None \<longleftrightarrow> k \<notin> set (bt_keys m)"
  by (simp add: bt_keys_def map_of_eq_None_iff)

lemma set_bt_keys_insert [simp]: "set (bt_keys (bt_insert k v m)) = insert k (set (bt_keys m))"
  by (simp flip: dom_bt_get)

lemma set_bt_keys_remove [simp]: "set (bt_keys (bt_remove k m)) = set (bt_keys m) - {k}"
  by (simp flip: dom_bt_get)

section \<open>Well-formedness\<close>

lemma bt_ok_empty [simp, intro]: "bt_ok bt_empty" "bt_ok []"
  by (simp_all add: bt_ok_def bt_empty_def)

lemma bt_ok_single [simp]: "bt_ok [p]"
  by (simp add: bt_ok_def)

lemma set_fst_bt_insert [simp]: "fst ` set (bt_insert k v m) = insert k (fst ` set m)"
  by (induction k v m rule: bt_insert.induct) auto

lemma bt_ok_Cons: "bt_ok ((k, v) # m) \<longleftrightarrow> (\<forall>k' \<in> fst ` set m. k < k') \<and> bt_ok m"
  by (auto simp: bt_ok_def)

lemma bt_ok_insert [simp, intro]: "bt_ok m \<Longrightarrow> bt_ok (bt_insert k v m)"
  by (induction k v m rule: bt_insert.induct) (auto simp: bt_ok_Cons dest: less_trans)

lemma bt_ok_filter [simp, intro]: "bt_ok m \<Longrightarrow> bt_ok (filter P m)"
  by (induction m) (auto simp: bt_ok_Cons)

lemma bt_ok_remove [simp, intro]: "bt_ok m \<Longrightarrow> bt_ok (bt_remove k m)"
  by (simp add: bt_remove_def)

lemma bt_ok_retain [simp, intro]: "bt_ok m \<Longrightarrow> bt_ok (bt_retain P m)"
  by (simp add: bt_retain_def)

lemma bt_ok_map_values: "bt_ok (map (\<lambda>(k, v). (k, f k v)) m) \<longleftrightarrow> bt_ok m"
  by (simp add: bt_ok_def comp_def split_def)

lemma bt_ok_distinct: "bt_ok m \<Longrightarrow> distinct (map fst m)"
  unfolding bt_ok_def by (simp add: strict_sorted_iff)

lemma bt_get_iff: "bt_ok m \<Longrightarrow> bt_get m k = Some v \<longleftrightarrow> (k, v) \<in> set m"
  by (simp add: bt_ok_distinct)

lemma bt_eqI: "bt_ok m \<Longrightarrow> bt_ok m' \<Longrightarrow> bt_get m = bt_get m' \<Longrightarrow> m = m'"
proof -
  assume ok: "bt_ok m" "bt_ok m'" and eq: "bt_get m = bt_get m'"
  then have "set m = set m'" by (auto simp: bt_get_iff [symmetric])
  moreover have "sorted (map fst m)" "sorted (map fst m')"
    using ok by (auto simp: bt_ok_def strict_sorted_imp_sorted)
  ultimately show ?thesis
    using ok [THEN bt_ok_distinct]
    by (intro map_sorted_distinct_set_unique [where f = fst]) (auto simp: distinct_map)
qed

lemma bt_insert_not_Nil [simp]: "bt_insert k v m \<noteq> []"
  by (induction k v m rule: bt_insert.induct) auto

lemma length_bt_insert:
  "bt_ok m \<Longrightarrow> length (bt_insert k v m) = (if bt_get m k = None then Suc (length m) else length m)"
  by (induction k v m rule: bt_insert.induct)
    (auto simp: bt_ok_Cons map_of_eq_None_iff split: if_splits dest: less_trans)

lemma length_bt_insert_le: "length (bt_insert k v m) \<le> Suc (length m)"
  by (induction k v m rule: bt_insert.induct) auto

lemma length_bt_remove_le [simp]: "length (bt_remove k m) \<le> length m"
  by (simp add: bt_remove_def)

lemma length_bt_remove:
  "bt_ok m \<Longrightarrow> length (bt_remove k m) = (if bt_get m k = None then length m else length m - 1)"
proof (induction m)
  case (Cons p m)
  show ?case
  proof (cases "fst p = k")
    case True
    with Cons.prems have "bt_remove k m = m"
      by (cases p) (force simp: bt_remove_def bt_ok_Cons filter_id_conv)
    with True show ?thesis by (cases p) (simp add: bt_remove_def)
  next
    case False
    with Cons show ?thesis
      by (cases p; cases m) (auto simp: bt_remove_def bt_ok_Cons)
  qed
qed (simp add: bt_remove_def)

section \<open>Bulk insertion\<close>

lemma bt_extend_simps [simp]:
  "bt_extend [] m = m" "bt_extend ((k, v) # kvs) m = bt_extend kvs (bt_insert k v m)"
  by (simp_all add: bt_extend_def)

section \<open>Weight\<close>

lemma bt_weight_Nil [simp]: "bt_weight f [] = 0"
  by (simp add: bt_weight_def)

lemma bt_weight_Cons [simp]: "bt_weight f ((k, v) # m) = f v + bt_weight f m"
  by (simp add: bt_weight_def)

lemma bt_weight_insert:
  "bt_ok m \<Longrightarrow> bt_weight f (bt_insert k v m) + (case bt_get m k of Some w \<Rightarrow> f w | None \<Rightarrow> 0)
    = bt_weight f m + f v"
  by (induction k v m rule: bt_insert.induct)
    (auto simp: bt_ok_Cons split: option.splits dest!: map_of_SomeD)

lemma bt_weight_remove:
  "bt_ok m \<Longrightarrow> bt_weight f (bt_remove k m) + (case bt_get m k of Some w \<Rightarrow> f w | None \<Rightarrow> 0)
    = bt_weight f m"
proof (induction m)
  case (Cons p m)
  obtain a b where p: "p = (a, b)" by (cases p)
  show ?case
  proof (cases "a = k")
    case True
    with Cons.prems have "bt_remove k m = m"
      by (force simp: p bt_remove_def bt_ok_Cons filter_id_conv)
    with True show ?thesis by (simp add: p bt_remove_def)
  next
    case False
    with Cons show ?thesis by (auto simp: p bt_ok_Cons bt_remove_def)
  qed
qed (simp add: bt_remove_def)

lemma bt_weight_get_le: "bt_ok m \<Longrightarrow> bt_get m k = Some v \<Longrightarrow> f v \<le> bt_weight f m"
  using bt_weight_remove [of m f k] by simp

lemma bt_weight_insert_le: "bt_weight f (bt_insert k v m) \<le> bt_weight f m + f v"
  by (induction k v m rule: bt_insert.induct) auto

section \<open>The contract of a keyed map\<close>

text \<open>
  What the clients of a map rely on: the lookup laws and that the operations keep the map well
  formed. The derived facts are the ones the cache and the stores use: the last binding of a key
  wins, and reinserting after a removal is an insertion.
\<close>

locale keyed_map =
  fixes empty :: "'m" and get :: "'m \<Rightarrow> 'k \<Rightarrow> 'v option"
    and put :: "'k \<Rightarrow> 'v \<Rightarrow> 'm \<Rightarrow> 'm" and remove :: "'k \<Rightarrow> 'm \<Rightarrow> 'm" and ok :: "'m \<Rightarrow> bool"
  assumes get_empty: "get empty k = None"
    and get_put: "get (put k v m) k' = (if k' = k then Some v else get m k')"
    and get_remove: "get (remove k m) k' = (if k' = k then None else get m k')"
    and ok_empty: "ok empty"
    and ok_put: "ok m \<Longrightarrow> ok (put k v m)"
    and ok_remove: "ok m \<Longrightarrow> ok (remove k m)"
    and ext: "ok m \<Longrightarrow> ok m' \<Longrightarrow> get m = get m' \<Longrightarrow> m = m'"
begin

lemma put_put: "ok m \<Longrightarrow> put k v (put k w m) = put k v m"
  by (intro ext ok_put) (auto simp: get_put fun_eq_iff)

lemma put_commute: "ok m \<Longrightarrow> k \<noteq> k' \<Longrightarrow> put k v (put k' w m) = put k' w (put k v m)"
  by (intro ext ok_put) (auto simp: get_put fun_eq_iff)

lemma put_remove: "ok m \<Longrightarrow> put k v (remove k m) = put k v m"
  by (intro ext ok_put ok_remove) (auto simp: get_put get_remove fun_eq_iff)

lemma remove_put: "ok m \<Longrightarrow> remove k (put k v m) = remove k m"
  by (intro ext ok_put ok_remove) (auto simp: get_put get_remove fun_eq_iff)

lemma put_same: "ok m \<Longrightarrow> get m k = Some v \<Longrightarrow> put k v m = m"
  by (intro ext ok_put) (auto simp: get_put fun_eq_iff)

lemma remove_absent: "ok m \<Longrightarrow> get m k = None \<Longrightarrow> remove k m = m"
  by (intro ext ok_remove) (auto simp: get_remove fun_eq_iff)

lemma ok_put_list: "ok m \<Longrightarrow> ok (fold (\<lambda>(k, v). put k v) kvs m)"
  by (induction kvs arbitrary: m) (auto simp: ok_put)

lemma get_put_list:
  "get (fold (\<lambda>(k, v). put k v) kvs m) k =
    (case map_of (rev kvs) k of Some v \<Rightarrow> Some v | None \<Rightarrow> get m k)"
  by (induction kvs arbitrary: m) (auto simp: get_put map_add_def split: option.splits)

end

interpretation bt: keyed_map "bt_empty :: ('k::linorder, 'v) btmap" bt_get bt_insert bt_remove bt_ok
  by unfold_locales (auto intro: bt_eqI)

lemma bt_ok_extend [simp, intro]: "bt_ok m \<Longrightarrow> bt_ok (bt_extend kvs m)"
  unfolding bt_extend_def by (rule bt.ok_put_list)

lemma bt_get_extend:
  "bt_get (bt_extend kvs m) k = (case map_of (rev kvs) k of Some v \<Rightarrow> Some v | None \<Rightarrow> bt_get m k)"
  unfolding bt_extend_def by (rule bt.get_put_list)

end
