(* ===== verification/Tag_Index.thy ===== *)
theory Tag_Index
  imports Ordered_Map
begin

text \<open>
  \<open>hydracache/src/tag_index.rs\<close>: the index from invalidation tags to the keys carrying them, and
  the generation counters that fence loads. A loader takes a snapshot of the generations of its
  key and tags before it runs; an invalidation of the key, of one of the tags or of everything
  advances a generation, and the loader's result is dropped when its snapshot is no longer
  current. The number of retained generations is bounded: at the limit the maps are cleared and the
  global generation advances.

  Every operation runs under one write lock and ends by publishing the map sizes and a version,
  whose overflow panics; a panic is the result \<open>None\<close>. The hash maps are ordered maps here; the
  only place where their order shows is the order of the keys \<open>take_tag\<close> returns, which no theorem
  reads. Shown: the invariant of the index, that the memberships refine a plain function from tags
  and keys to versions, and that the generations fence (the locale \<open>load_fence\<close>).
\<close>

section \<open>State\<close>

definition MAX_GENERATION_TOMBSTONES :: usize where
  "MAX_GENERATION_TOMBSTONES = 4096"

record load_generation_snapshot =
  snap_global :: u64
  snap_key :: string
  snap_key_generation :: u64
  snap_tags :: "(string \<times> u64) list"

record tag_index_state =
  keys_by_tag :: "(string, (string, u64) btmap) btmap"
  generations :: "(string, u64) btmap"
  key_generations :: "(string, u64) btmap"
  global_generation :: u64

record tag_index =
  ti_state :: tag_index_state
  ti_version :: u64
  tag_generation_records :: u64
  key_generation_records :: u64

record tag_index_memory_state =
  mem_version :: u64
  mem_tag_generation_records :: u64
  mem_key_generation_records :: u64

definition tag_index_default :: tag_index where
  "tag_index_default = \<lparr>ti_state = \<lparr>keys_by_tag = [], generations = [], key_generations = [],
     global_generation = 0\<rparr>, ti_version = 0, tag_generation_records = 0, key_generation_records = 0\<rparr>"

section \<open>Operations\<close>

definition publish_generation_state :: "tag_index_state \<Rightarrow> tag_index \<Rightarrow> tag_index option" where
  "publish_generation_state st ix =
    (case checked_add (ti_version ix) 1 of
       None \<Rightarrow> None
     | Some v \<Rightarrow> Some \<lparr>ti_state = st, ti_version = v,
         tag_generation_records = of_nat (length (generations st)),
         key_generation_records = of_nat (length (key_generations st))\<rparr>)"

definition insert_membership ::
  "string \<Rightarrow> string \<Rightarrow> u64 \<Rightarrow> tag_index_state \<Rightarrow> tag_index_state" where
  "insert_membership key tag version st = st\<lparr>keys_by_tag :=
     (let keys = (case bt_get (keys_by_tag st) tag of Some keys \<Rightarrow> keys | None \<Rightarrow> bt_empty)
      in bt_insert tag (bt_insert key version keys) (keys_by_tag st))\<rparr>"

definition register :: "string \<Rightarrow> string list \<Rightarrow> u64 \<Rightarrow> tag_index \<Rightarrow> tag_index option" where
  "register key tags version ix =
    (if tags = [] then Some ix
     else publish_generation_state
       (fold (\<lambda>tag. insert_membership key tag version) tags (ti_state ix)) ix)"

definition drop_membership :: "string \<Rightarrow> string \<Rightarrow> tag_index_state \<Rightarrow> tag_index_state" where
  "drop_membership key tag st =
    (case bt_get (keys_by_tag st) tag of
       None \<Rightarrow> st
     | Some keys \<Rightarrow>
         (let keys' = bt_remove key keys in
          if keys' = [] then st\<lparr>keys_by_tag := bt_remove tag (keys_by_tag st)\<rparr>
          else st\<lparr>keys_by_tag := bt_insert tag keys' (keys_by_tag st)\<rparr>))"

definition unregister :: "string \<Rightarrow> string list \<Rightarrow> tag_index \<Rightarrow> tag_index option" where
  "unregister key tags ix =
    (if tags = [] then Some ix
     else publish_generation_state (fold (drop_membership key) tags (ti_state ix)) ix)"

definition drop_membership_if_version ::
  "string \<Rightarrow> u64 \<Rightarrow> string \<Rightarrow> tag_index_state \<Rightarrow> tag_index_state" where
  "drop_membership_if_version key version tag st =
    (case bt_get (keys_by_tag st) tag of
       None \<Rightarrow> st
     | Some keys \<Rightarrow>
         (let keys' = (if bt_get keys key = Some version then bt_remove key keys else keys) in
          if keys' = [] then st\<lparr>keys_by_tag := bt_remove tag (keys_by_tag st)\<rparr>
          else st\<lparr>keys_by_tag := bt_insert tag keys' (keys_by_tag st)\<rparr>))"

definition unregister_if_version ::
  "string \<Rightarrow> string list \<Rightarrow> u64 \<Rightarrow> tag_index \<Rightarrow> tag_index option" where
  "unregister_if_version key tags version ix =
    (if tags = [] then Some ix
     else publish_generation_state
       (fold (drop_membership_if_version key version) tags (ti_state ix)) ix)"

definition rotate_generation_epoch :: "tag_index_state \<Rightarrow> tag_index_state" where
  "rotate_generation_epoch st = st\<lparr>generations := [], key_generations := [],
     global_generation := global_generation st + 1\<rparr>"

definition gen_of :: "(string, u64) btmap \<Rightarrow> string \<Rightarrow> u64" where
  "gen_of gens k = (case bt_get gens k of Some g \<Rightarrow> g | None \<Rightarrow> 0)"

definition take_tag :: "string \<Rightarrow> tag_index \<Rightarrow> (string list \<times> tag_index) option" where
  "take_tag tag ix =
    (let st = ti_state ix;
         st = (if bt_get (generations st) tag = None
                  \<and> MAX_GENERATION_TOMBSTONES \<le> length (generations st)
               then rotate_generation_epoch st else st);
         st = st\<lparr>generations := bt_insert tag (gen_of (generations st) tag + 1) (generations st)\<rparr>;
         keys = (case bt_get (keys_by_tag st) tag of Some keys \<Rightarrow> bt_keys keys | None \<Rightarrow> []);
         st = st\<lparr>keys_by_tag := bt_remove tag (keys_by_tag st)\<rparr>
     in map_option (Pair keys) (publish_generation_state st ix))"

definition snapshot :: "string \<Rightarrow> string list \<Rightarrow> tag_index \<Rightarrow> load_generation_snapshot" where
  "snapshot key tags ix = \<lparr>snap_global = global_generation (ti_state ix), snap_key = key,
     snap_key_generation = gen_of (key_generations (ti_state ix)) key,
     snap_tags = map (\<lambda>tag. (tag, gen_of (generations (ti_state ix)) tag)) tags\<rparr>"

definition is_current :: "load_generation_snapshot \<Rightarrow> tag_index \<Rightarrow> bool" where
  "is_current snap ix \<longleftrightarrow>
    global_generation (ti_state ix) = snap_global snap
    \<and> gen_of (key_generations (ti_state ix)) (snap_key snap) = snap_key_generation snap
    \<and> list_all (\<lambda>(tag, generation). gen_of (generations (ti_state ix)) tag = generation) (snap_tags snap)"

definition advance_key :: "string \<Rightarrow> tag_index \<Rightarrow> tag_index option" where
  "advance_key key ix =
    (let st = ti_state ix;
         st = (if bt_get (key_generations st) key = None
                  \<and> MAX_GENERATION_TOMBSTONES \<le> length (key_generations st)
               then rotate_generation_epoch st else st);
         st = st\<lparr>key_generations := bt_insert key (gen_of (key_generations st) key + 1) (key_generations st)\<rparr>
     in publish_generation_state st ix)"

definition clear :: "tag_index \<Rightarrow> tag_index option" where
  "clear ix = publish_generation_state
     ((ti_state ix)\<lparr>keys_by_tag := [], generations := [], key_generations := [],
        global_generation := global_generation (ti_state ix) + 1\<rparr>) ix"

definition reconcile_memberships :: "(string \<times> u64 \<times> string list) list \<Rightarrow> tag_index \<Rightarrow> tag_index option" where
  "reconcile_memberships entries ix = publish_generation_state
     (fold (\<lambda>(key, version, tags) st. fold (\<lambda>tag. insert_membership key tag version) tags st)
        entries ((ti_state ix)\<lparr>keys_by_tag := []\<rparr>)) ix"

definition memory_state :: "tag_index \<Rightarrow> tag_index_memory_state" where
  "memory_state ix = \<lparr>mem_version = ti_version ix,
     mem_tag_generation_records = tag_generation_records ix,
     mem_key_generation_records = key_generation_records ix\<rparr>"

section \<open>Sequences of operations\<close>

text \<open>Operations take the write lock in some order; a history of the index is the list of them.\<close>

datatype tag_op =
    Register string "string list" u64
  | Unregister string "string list"
  | UnregisterIfVersion string "string list" u64
  | TakeTag string
  | AdvanceKey string
  | Clear
  | ReconcileMemberships "(string \<times> u64 \<times> string list) list"

fun apply_op :: "tag_op \<Rightarrow> tag_index \<Rightarrow> tag_index option" where
  "apply_op (Register key tags version) ix = register key tags version ix"
| "apply_op (Unregister key tags) ix = unregister key tags ix"
| "apply_op (UnregisterIfVersion key tags version) ix = unregister_if_version key tags version ix"
| "apply_op (TakeTag tag) ix = map_option snd (take_tag tag ix)"
| "apply_op (AdvanceKey key) ix = advance_key key ix"
| "apply_op Clear ix = clear ix"
| "apply_op (ReconcileMemberships entries) ix = reconcile_memberships entries ix"

fun run_ops :: "tag_op list \<Rightarrow> tag_index \<Rightarrow> tag_index option" where
  "run_ops [] ix = Some ix"
| "run_ops (op # ops) ix = (case apply_op op ix of None \<Rightarrow> None | Some ix' \<Rightarrow> run_ops ops ix')"

lemmas tag_op_defs = register_def unregister_def unregister_if_version_def take_tag_def
  advance_key_def clear_def reconcile_memberships_def

subsection \<open>Operations and the four parts of the state\<close>

lemma publish_eq_Some:
  "publish_generation_state st ix = Some ix' \<longleftrightarrow> ti_version ix \<noteq> - 1 \<and>
    ix' = \<lparr>ti_state = st, ti_version = ti_version ix + 1,
      tag_generation_records = of_nat (length (generations st)),
      key_generation_records = of_nat (length (key_generations st))\<rparr>"
  by (auto simp: publish_generation_state_def checked_add_one)

lemma insert_membership_sel [simp]:
  "generations (insert_membership k t v st) = generations st"
  "key_generations (insert_membership k t v st) = key_generations st"
  "global_generation (insert_membership k t v st) = global_generation st"
  by (simp_all add: insert_membership_def)

lemma drop_membership_sel [simp]:
  "generations (drop_membership k t st) = generations st"
  "key_generations (drop_membership k t st) = key_generations st"
  "global_generation (drop_membership k t st) = global_generation st"
  by (simp_all add: drop_membership_def Let_def split: option.splits)

lemma drop_membership_if_version_sel [simp]:
  "generations (drop_membership_if_version k v t st) = generations st"
  "key_generations (drop_membership_if_version k v t st) = key_generations st"
  "global_generation (drop_membership_if_version k v t st) = global_generation st"
  by (simp_all add: drop_membership_if_version_def Let_def split: option.splits)

lemma fold_sel:
  assumes "\<And>x st. f (g x st) = f st"
  shows "f (fold g xs st) = f st"
  using assms by (induction xs arbitrary: st) auto

lemmas fold_membership_sel [simp] =
  fold_sel [where f = generations and g = "\<lambda>t. insert_membership k t v" for k v, simplified]
  fold_sel [where f = key_generations and g = "\<lambda>t. insert_membership k t v" for k v, simplified]
  fold_sel [where f = global_generation and g = "\<lambda>t. insert_membership k t v" for k v, simplified]
  fold_sel [where f = generations and g = "drop_membership k" for k, simplified]
  fold_sel [where f = key_generations and g = "drop_membership k" for k, simplified]
  fold_sel [where f = global_generation and g = "drop_membership k" for k, simplified]
  fold_sel [where f = generations and g = "drop_membership_if_version k v" for k v, simplified]
  fold_sel [where f = key_generations and g = "drop_membership_if_version k v" for k v, simplified]
  fold_sel [where f = global_generation and g = "drop_membership_if_version k v" for k v, simplified]

lemma fold_reconcile_sel [simp]:
  "generations (fold (\<lambda>(k, v, tags) st. fold (\<lambda>t. insert_membership k t v) tags st) es st) = generations st"
  "key_generations (fold (\<lambda>(k, v, tags) st. fold (\<lambda>t. insert_membership k t v) tags st) es st) = key_generations st"
  "global_generation (fold (\<lambda>(k, v, tags) st. fold (\<lambda>t. insert_membership k t v) tags st) es st) = global_generation st"
  by (intro fold_sel; auto split: prod.splits)+

subsection \<open>Invariant\<close>

definition memberships_ok :: "(string, (string, u64) btmap) btmap \<Rightarrow> bool" where
  "memberships_ok m \<longleftrightarrow> bt_ok m \<and> (\<forall>tag keys. bt_get m tag = Some keys \<longrightarrow> bt_ok keys \<and> keys \<noteq> [])"

definition tag_index_ok :: "tag_index \<Rightarrow> bool" where
  "tag_index_ok ix \<longleftrightarrow>
    memberships_ok (keys_by_tag (ti_state ix))
    \<and> bt_ok (generations (ti_state ix)) \<and> bt_ok (key_generations (ti_state ix))
    \<and> length (generations (ti_state ix)) \<le> MAX_GENERATION_TOMBSTONES
    \<and> length (key_generations (ti_state ix)) \<le> MAX_GENERATION_TOMBSTONES
    \<and> tag_generation_records ix = of_nat (length (generations (ti_state ix)))
    \<and> key_generation_records ix = of_nat (length (key_generations (ti_state ix)))"

lemma memberships_ok_Nil [simp]: "memberships_ok []"
  by (simp add: memberships_ok_def)

lemma memberships_ok_insert:
  "memberships_ok (keys_by_tag st) \<Longrightarrow> memberships_ok (keys_by_tag (insert_membership k t v st))"
  by (auto simp: memberships_ok_def insert_membership_def Let_def split: option.splits)

lemma memberships_ok_drop:
  "memberships_ok (keys_by_tag st) \<Longrightarrow> memberships_ok (keys_by_tag (drop_membership k t st))"
  by (auto simp: memberships_ok_def drop_membership_def Let_def split: option.splits)

lemma memberships_ok_drop_if_version:
  "memberships_ok (keys_by_tag st) \<Longrightarrow> memberships_ok (keys_by_tag (drop_membership_if_version k v t st))"
  by (auto simp: memberships_ok_def drop_membership_if_version_def Let_def split: option.splits)

lemma memberships_ok_fold:
  assumes "\<And>x st. memberships_ok (keys_by_tag st) \<Longrightarrow> memberships_ok (keys_by_tag (g x st))"
    and "memberships_ok (keys_by_tag st)"
  shows "memberships_ok (keys_by_tag (fold g xs st))"
  using assms by (induction xs arbitrary: st) auto

lemma memberships_ok_remove: "memberships_ok m \<Longrightarrow> memberships_ok (bt_remove t m)"
  by (auto simp: memberships_ok_def split: if_splits)

lemma bounded_insert:
  "bt_ok m \<Longrightarrow> length m \<le> MAX_GENERATION_TOMBSTONES \<Longrightarrow>
    \<not> (bt_get m t = None \<and> MAX_GENERATION_TOMBSTONES \<le> length m) \<Longrightarrow>
    length (bt_insert t g m) \<le> MAX_GENERATION_TOMBSTONES"
  by (auto simp: length_bt_insert)

lemma one_le_max_tombstones: "Suc 0 \<le> MAX_GENERATION_TOMBSTONES"
  by (simp add: MAX_GENERATION_TOMBSTONES_def)

lemmas membership_ok_rules = memberships_ok_insert memberships_ok_drop
  memberships_ok_drop_if_version memberships_ok_remove

lemma tag_index_ok_apply_op: "tag_index_ok ix \<Longrightarrow> apply_op op ix = Some ix' \<Longrightarrow> tag_index_ok ix'"
proof (cases op)
  case (TakeTag t)
  assume "tag_index_ok ix" "apply_op op ix = Some ix'"
  with TakeTag show ?thesis
    by (auto simp: take_tag_def tag_index_ok_def Let_def rotate_generation_epoch_def
        memberships_ok_remove bounded_insert one_le_max_tombstones
        publish_eq_Some split: if_splits)
next
  case (AdvanceKey k)
  assume "tag_index_ok ix" "apply_op op ix = Some ix'"
  with AdvanceKey show ?thesis
    by (auto simp: advance_key_def tag_index_ok_def Let_def rotate_generation_epoch_def
        bounded_insert one_le_max_tombstones publish_eq_Some split: if_splits)
next
  case (ReconcileMemberships es)
  assume "tag_index_ok ix" "apply_op op ix = Some ix'"
  moreover have "memberships_ok (keys_by_tag (fold (\<lambda>(k, v, tags) st.
      fold (\<lambda>t. insert_membership k t v) tags st) es ((ti_state ix)\<lparr>keys_by_tag := []\<rparr>)))"
    by (rule memberships_ok_fold)
      (auto intro!: memberships_ok_fold memberships_ok_insert)
  ultimately show ?thesis
    using ReconcileMemberships
    by (auto simp: reconcile_memberships_def tag_index_ok_def publish_eq_Some)
qed (auto simp: tag_op_defs tag_index_ok_def publish_eq_Some
    split: if_splits intro!: memberships_ok_fold membership_ok_rules)

lemma tag_index_ok_run: "tag_index_ok ix \<Longrightarrow> run_ops ops ix = Some ix' \<Longrightarrow> tag_index_ok ix'"
  by (induction ops arbitrary: ix) (auto split: option.splits dest: tag_index_ok_apply_op)

lemma tag_index_ok_default: "tag_index_ok tag_index_default"
  by (simp add: tag_index_ok_def tag_index_default_def)

subsection \<open>Refinement of the memberships\<close>

text \<open>
  The abstract state of the index: which version, if any, a tag holds for a key. The
  specification of every operation is one function update on it.
\<close>

type_synonym memberships = "string \<Rightarrow> string \<Rightarrow> u64 option"

definition version_of_map :: "(string, (string, u64) btmap) btmap \<Rightarrow> memberships" where
  "version_of_map m tag key = (case bt_get m tag of None \<Rightarrow> None | Some keys \<Rightarrow> bt_get keys key)"

definition version_of :: "tag_index \<Rightarrow> memberships" where
  "version_of ix = version_of_map (keys_by_tag (ti_state ix))"

fun spec_op :: "tag_op \<Rightarrow> memberships \<Rightarrow> memberships" where
  "spec_op (Register key tags version) M = (\<lambda>t k. if k = key \<and> t \<in> set tags then Some version else M t k)"
| "spec_op (Unregister key tags) M = (\<lambda>t k. if k = key \<and> t \<in> set tags then None else M t k)"
| "spec_op (UnregisterIfVersion key tags version) M =
    (\<lambda>t k. if k = key \<and> t \<in> set tags \<and> M t k = Some version then None else M t k)"
| "spec_op (TakeTag tag) M = (\<lambda>t k. if t = tag then None else M t k)"
| "spec_op (AdvanceKey key) M = M"
| "spec_op Clear M = (\<lambda>t k. None)"
| "spec_op (ReconcileMemberships entries) M =
    (\<lambda>t k. map_of (rev [(key, version). (key, version, tags) \<leftarrow> entries, t \<in> set tags]) k)"

lemma version_of_insert:
  "version_of_map (keys_by_tag (insert_membership key tag v st)) t k =
    (if k = key \<and> t = tag then Some v else version_of_map (keys_by_tag st) t k)"
  by (auto simp: version_of_map_def insert_membership_def Let_def split: option.splits)

lemma version_of_fold_insert:
  "version_of_map (keys_by_tag (fold (\<lambda>tag. insert_membership key tag v) tags st)) t k =
    (if k = key \<and> t \<in> set tags then Some v else version_of_map (keys_by_tag st) t k)"
  by (induction tags arbitrary: st) (auto simp: version_of_insert)

lemma bt_remove_Nil_get: "bt_remove k m = [] \<Longrightarrow> k' \<noteq> k \<Longrightarrow> bt_get m k' = None"
  by (metis bt_get_remove fun_upd_apply map_of.simps(1))

lemma version_of_drop:
  "version_of_map (keys_by_tag (drop_membership key tag st)) t k =
    (if k = key \<and> t = tag then None else version_of_map (keys_by_tag st) t k)"
  by (auto simp: version_of_map_def drop_membership_def Let_def bt_remove_Nil_get split: option.splits)

lemma version_of_fold_drop:
  "version_of_map (keys_by_tag (fold (drop_membership key) tags st)) t k =
    (if k = key \<and> t \<in> set tags then None else version_of_map (keys_by_tag st) t k)"
  by (induction tags arbitrary: st) (auto simp: version_of_drop)

lemma version_of_drop_if_version:
  "version_of_map (keys_by_tag (drop_membership_if_version key v tag st)) t k =
    (if k = key \<and> t = tag \<and> version_of_map (keys_by_tag st) t k = Some v then None
     else version_of_map (keys_by_tag st) t k)"
  by (auto simp: version_of_map_def drop_membership_if_version_def Let_def bt_remove_Nil_get
      split: option.splits)

lemma version_of_fold_drop_if_version:
  "version_of_map (keys_by_tag (fold (drop_membership_if_version key v) tags st)) t k =
    (if k = key \<and> t \<in> set tags \<and> version_of_map (keys_by_tag st) t k = Some v then None
     else version_of_map (keys_by_tag st) t k)"
  by (induction tags arbitrary: st) (auto simp: version_of_drop_if_version)

lemma version_of_reconcile:
  "version_of_map (keys_by_tag (fold (\<lambda>(key, v, tags) st. fold (\<lambda>tag. insert_membership key tag v) tags st)
      entries st)) t k =
    (case map_of (rev [(key, version). (key, version, tags) \<leftarrow> entries, t \<in> set tags]) k of
       Some v \<Rightarrow> Some v | None \<Rightarrow> version_of_map (keys_by_tag st) t k)"
  by (induction entries arbitrary: st)
    (auto simp: version_of_fold_insert map_add_def split: option.splits)

lemma version_of_remove:
  "version_of_map (bt_remove tag m) t k = (if t = tag then None else version_of_map m t k)"
  by (simp add: version_of_map_def)

lemma version_of_Nil [simp]: "version_of_map [] t k = None"
  by (simp add: version_of_map_def)

lemmas version_of_folds = version_of_fold_insert version_of_fold_drop version_of_fold_drop_if_version
  version_of_reconcile version_of_remove

lemma version_of_apply_op: "apply_op op ix = Some ix' \<Longrightarrow> version_of ix' = spec_op op (version_of ix)"
  by (cases op) (auto simp: tag_op_defs publish_eq_Some version_of_def version_of_folds fun_eq_iff
      Let_def rotate_generation_epoch_def split: if_splits option.splits)

lemma version_of_run: "run_ops ops ix = Some ix' \<Longrightarrow> version_of ix' = fold spec_op ops (version_of ix)"
  by (induction ops arbitrary: ix) (auto split: option.splits simp: version_of_apply_op)

lemma take_tag_returns:
  "take_tag tag ix = Some (keys, ix') \<Longrightarrow> set keys = {k. version_of ix tag k \<noteq> None}"
  by (auto simp: take_tag_def Let_def publish_eq_Some version_of_def version_of_map_def
      rotate_generation_epoch_def dom_def simp flip: dom_bt_get split: option.splits if_splits)

subsection \<open>How generations move\<close>

lemma gen_of_insert [simp]: "gen_of (bt_insert k g m) k' = (if k' = k then g else gen_of m k')"
  by (simp add: gen_of_def)

lemma gen_of_Nil [simp]: "gen_of [] k = 0"
  by (simp add: gen_of_def)

text \<open>
  The operations that advance a generation. Each of them also advances the published version, whose
  overflow panics, so a history that does not panic has fewer of them than a counter can hold.
\<close>

fun advances :: "tag_op \<Rightarrow> bool" where
  "advances (TakeTag t) = True"
| "advances (AdvanceKey k) = True"
| "advances Clear = True"
| "advances _ = False"

lemma apply_op_generations:
  assumes "apply_op op ix = Some ix'"
  shows "(op \<noteq> Clear \<and> global_generation (ti_state ix') = global_generation (ti_state ix)
      \<and> (\<forall>t. gen_of (generations (ti_state ix')) t
            = gen_of (generations (ti_state ix)) t + of_bool (op = TakeTag t))
      \<and> (\<forall>k. gen_of (key_generations (ti_state ix')) k
            = gen_of (key_generations (ti_state ix)) k + of_bool (op = AdvanceKey k)))
    \<or> advances op \<and> global_generation (ti_state ix') = global_generation (ti_state ix) + 1"
  using assms
  by (cases op) (auto simp: tag_op_defs publish_eq_Some Let_def rotate_generation_epoch_def
      split: if_splits)

lemma unat_version_Suc: "v \<noteq> - 1 \<Longrightarrow> unat (v + 1) = Suc (unat v)" for v :: u64
  by (metis checked_add_one checked_add_Some unsigned_1 Suc_eq_plus1)

lemma apply_op_version:
  "apply_op op ix = Some ix' \<Longrightarrow> unat (ti_version ix) + (if advances op then 1 else 0) \<le> unat (ti_version ix')"
  by (cases op) (auto simp: tag_op_defs publish_eq_Some unat_version_Suc Let_def split: if_splits)

lemma run_ops_version:
  "run_ops ops ix = Some ix' \<Longrightarrow> unat (ti_version ix) + length (filter advances ops) \<le> unat (ti_version ix')"
  by (induction ops arbitrary: ix) (fastforce split: option.splits dest: apply_op_version)+

lemma run_ops_advances_bound: "run_ops ops ix = Some ix' \<Longrightarrow> length (filter advances ops) < 2 ^ 64"
  using run_ops_version [of ops ix ix'] unat_bound [of "ti_version ix'"] by simp

lemma run_ops_append:
  "run_ops (ops @ ops') ix = (case run_ops ops ix of None \<Rightarrow> None | Some ix' \<Rightarrow> run_ops ops' ix')"
  by (induction ops arbitrary: ix) (auto split: option.splits)

lemma run_ops_generations:
  "run_ops ops ix = Some ix' \<Longrightarrow> \<exists>n \<le> length (filter advances ops).
     global_generation (ti_state ix') = global_generation (ti_state ix) + of_nat n
     \<and> (n = 0 \<longrightarrow> Clear \<notin> set ops
         \<and> (\<forall>t. gen_of (generations (ti_state ix')) t
               = gen_of (generations (ti_state ix)) t + of_nat (count_list ops (TakeTag t)))
         \<and> (\<forall>k. gen_of (key_generations (ti_state ix')) k
               = gen_of (key_generations (ti_state ix)) k + of_nat (count_list ops (AdvanceKey k))))"
proof (induction ops arbitrary: ix)
  case (Cons op ops)
  then obtain ix1 where step: "apply_op op ix = Some ix1" and rest: "run_ops ops ix1 = Some ix'"
    by (auto split: option.splits)
  from Cons.IH [OF rest] obtain n where n: "n \<le> length (filter advances ops)"
    "global_generation (ti_state ix') = global_generation (ti_state ix1) + of_nat n"
    and zero: "n = 0 \<Longrightarrow> Clear \<notin> set ops
         \<and> (\<forall>t. gen_of (generations (ti_state ix')) t
               = gen_of (generations (ti_state ix1)) t + of_nat (count_list ops (TakeTag t)))
         \<and> (\<forall>k. gen_of (key_generations (ti_state ix')) k
               = gen_of (key_generations (ti_state ix1)) k + of_nat (count_list ops (AdvanceKey k)))"
    by auto
  from apply_op_generations [OF step] show ?case
  proof
    assume "advances op \<and> global_generation (ti_state ix1) = global_generation (ti_state ix) + 1"
    with n show ?thesis by (intro exI [of _ "Suc n"]) auto
  qed (use n zero in \<open>intro exI [of _ n], auto\<close>)
qed simp

lemma of_nat_nonzero: "0 < n \<Longrightarrow> n < 2 ^ 64 \<Longrightarrow> (of_nat n :: u64) \<noteq> 0"
  by (auto simp: word_of_nat_eq_0_iff dest: nat_dvd_not_less)

lemma count_list_filter_le: "P x \<Longrightarrow> count_list xs x \<le> length (filter P xs)"
  by (induction xs) auto

lemma count_list_pos: "x \<in> set xs \<Longrightarrow> 0 < count_list xs x"
  by (simp add: count_list_0_iff neq0_conv [symmetric] del: neq0_conv)

subsection \<open>The fence\<close>

text \<open>What invalidates a load of a key with given tags.\<close>

fun invalidates :: "tag_op \<Rightarrow> string \<times> string list \<Rightarrow> bool" where
  "invalidates (TakeTag t) (key, tags) = (t \<in> set tags)"
| "invalidates (AdvanceKey k) (key, tags) = (k = key)"
| "invalidates Clear (key, tags) = True"
| "invalidates _ (key, tags) = False"

lemma invalidates_advances: "invalidates op r \<Longrightarrow> advances op"
  by (cases op; cases r) auto

text \<open>
  The contract of a load fence, as the loader sees it: a snapshot is current when it is taken, and
  is not current after a history containing an operation that invalidates the request.
\<close>

locale load_fence =
  fixes snap :: "'req \<Rightarrow> 's \<Rightarrow> 'snap" and current :: "'snap \<Rightarrow> 's \<Rightarrow> bool"
    and run :: "'op list \<Rightarrow> 's \<Rightarrow> 's option" and kills :: "'op \<Rightarrow> 'req \<Rightarrow> bool"
  assumes current_snap: "current (snap r s) s"
    and fenced: "run ops s = Some s' \<Longrightarrow> op \<in> set ops \<Longrightarrow> kills op r \<Longrightarrow> \<not> current (snap r s) s'"
begin

lemma commit_unkilled:
  assumes "run ops s = Some s'" "current (snap r s) s'"
  shows "list_all (\<lambda>op. \<not> kills op r) ops"
  using assms fenced by (auto simp: list_all_iff)

end

lemma is_current_snapshot: "is_current (snapshot key tags ix) ix"
  by (auto simp: is_current_def snapshot_def list_all_iff)

lemma snapshot_fenced:
  assumes "run_ops ops ix = Some ix'" "op \<in> set ops" "invalidates op (key, tags)"
  shows "\<not> is_current (snapshot key tags ix) ix'"
proof
  assume current: "is_current (snapshot key tags ix) ix'"
  note bound = run_ops_advances_bound [OF assms(1)]
  obtain n where n: "n \<le> length (filter advances ops)"
    "global_generation (ti_state ix') = global_generation (ti_state ix) + of_nat n"
    and zero: "n = 0 \<Longrightarrow> Clear \<notin> set ops
         \<and> (\<forall>t. gen_of (generations (ti_state ix')) t
               = gen_of (generations (ti_state ix)) t + of_nat (count_list ops (TakeTag t)))
         \<and> (\<forall>k. gen_of (key_generations (ti_state ix')) k
               = gen_of (key_generations (ti_state ix)) k + of_nat (count_list ops (AdvanceKey k)))"
    using run_ops_generations [OF assms(1)] by auto
  have "(of_nat n :: u64) = 0"
    using current n(2) by (simp add: is_current_def snapshot_def)
  then have "n = 0"
    using of_nat_nonzero [of n] n(1) bound by (meson le_less_trans neq0_conv)
  note zero [OF this]
  moreover have "(of_nat (count_list ops op) :: u64) \<noteq> 0"
    using count_list_pos [OF assms(2)] bound
      count_list_filter_le [of advances op ops] invalidates_advances [OF assms(3)]
    by (intro of_nat_nonzero) auto
  ultimately show False
    using assms(2,3) current
    by (cases op) (auto simp: is_current_def snapshot_def list_all_iff)
qed

interpretation tag_fence: load_fence "\<lambda>(key, tags). snapshot key tags" is_current run_ops invalidates
proof (unfold_locales, goal_cases)
  case (1 r s)
  then show ?case by (cases r) (simp add: is_current_snapshot)
next
  case (2 ops s s' op r)
  then show ?case by (cases r) (auto dest: snapshot_fenced)
qed

section \<open>Properties\<close>

text \<open>
  C2. The generation fence of loads. Take a snapshot for a key and its tags, then run any history
  of index operations. If the snapshot is still current afterwards, the history contains no invalidation of one of the tags, no
  invalidation of the key and no clear: neither the rotation that bounds the generation maps nor the
  wrap-around of the counters ever makes a stale snapshot look current (the version the index
  publishes would overflow, and panic, first).
\<close>
theorem current_snapshot_not_invalidated:
  assumes "run_ops ops ix = Some ix'" "is_current (snapshot key tags ix) ix'"
  shows "Clear \<notin> set ops \<and> AdvanceKey key \<notin> set ops \<and> set (map TakeTag tags) \<inter> set ops = {}"
proof -
  have "list_all (\<lambda>op. \<not> invalidates op (key, tags)) ops"
    using tag_fence.commit_unkilled [OF assms(1), of "(key, tags)"] assms(2) by simp
  then show ?thesis
    by (auto simp: list_all_iff)
qed

theorem current_snapshot_not_invalidated_witness:
  "\<exists>ix'. run_ops [Register ''k'' [''t''] 1, TakeTag ''other''] tag_index_default = Some ix'
    \<and> is_current (snapshot ''k'' [''t''] tag_index_default) ix'
    \<and> set (map TakeTag [''t'']) \<inter> set [Register ''k'' [''t''] 1, TakeTag ''other''] = {}"
proof -
  define ix' where "ix' = the (run_ops [Register ''k'' [''t''] 1, TakeTag ''other''] tag_index_default)"
  have run: "run_ops [Register ''k'' [''t''] 1, TakeTag ''other''] tag_index_default = Some ix'"
    unfolding ix'_def by code_simp
  have cur: "is_current (snapshot ''k'' [''t''] tag_index_default) ix'"
    unfolding ix'_def by code_simp
  show ?thesis
    using current_snapshot_not_invalidated [OF run cur] run cur by auto
qed

text \<open>
  C24. The index over any history of operations from the empty index: the maps of generations never
  hold more than 4096 records each and no tag is kept with an empty member set; the memory counters
  it publishes are the sizes of those maps; and what the index answers about tags, keys and versions
  is what the abstract specification (one function update per operation) gives. Taking a tag
  returns exactly the keys the specification has under it.
\<close>
theorem tag_index_refines:
  assumes "run_ops ops tag_index_default = Some ix"
  shows "tag_index_ok ix \<and> version_of ix = fold spec_op ops (\<lambda>_ _. None)
    \<and> (\<forall>tag keys ix'. take_tag tag ix = Some (keys, ix') \<longrightarrow>
         set keys = {k. fold spec_op ops (\<lambda>_ _. None) tag k \<noteq> None})"
proof -
  have "version_of tag_index_default = (\<lambda>_ _. None)"
    by (simp add: version_of_def tag_index_default_def fun_eq_iff)
  with version_of_run [OF assms] have "version_of ix = fold spec_op ops (\<lambda>_ _. None)" by simp
  moreover from this have "take_tag tag ix = Some (keys, ix') \<Longrightarrow>
      set keys = {k. fold spec_op ops (\<lambda>_ _. None) tag k \<noteq> None}" for tag keys ix'
    by (metis take_tag_returns)
  moreover have "tag_index_ok ix"
    using assms tag_index_ok_default tag_index_ok_run by blast
  ultimately show ?thesis by blast
qed

theorem tag_index_refines_witness:
  "\<exists>ix. run_ops [Register ''k'' [''t'', ''u''] 1, Unregister ''k'' [''u'']] tag_index_default = Some ix
    \<and> tag_index_ok ix \<and> version_of ix ''t'' ''k'' = Some 1 \<and> version_of ix ''u'' ''k'' = None"
proof -
  define ix where "ix = the (run_ops [Register ''k'' [''t'', ''u''] 1, Unregister ''k'' [''u'']] tag_index_default)"
  have run: "run_ops [Register ''k'' [''t'', ''u''] 1, Unregister ''k'' [''u'']] tag_index_default = Some ix"
    unfolding ix_def by code_simp
  show ?thesis
    using tag_index_refines [OF run] run by auto
qed

end
