(* ===== verification/Cache_Events.thy ===== *)
theory Cache_Events
  imports Prelude "HOL-Library.Sublist"
begin

text \<open>
  What every cache operation writes besides the cache itself: the counters of
  \<open>hydracache/src/stats.rs\<close> and the event bus of \<open>hydracache/src/events.rs\<close> with the events, their
  kinds and the subscriber filters of \<open>hydracache-core/src/events.rs\<close>; and the error type of
  \<open>hydracache-core/src/error.rs\<close>. The broadcast channel under the bus belongs to the async
  runtime: the model keeps the number of its receivers and the sequence of events handed to it.
  Event timestamps are wall-clock readings and are not modelled. Counters are atomics and wrap.
\<close>

section \<open>Errors and counters\<close>

datatype cache_error =
    Encode string
  | Decode string
  | Loader string
  | Backend string

record stats_counters =
  hits :: u64
  misses :: u64
  loads :: u64
  single_flight_joins :: u64
  stale_load_discards :: u64
  load_breaker_open_total :: u64
  load_breaker_half_open_total :: u64
  load_breaker_recovered_total :: u64
  load_breaker_rejected_total :: u64
  load_breaker_saturated_total :: u64
  invalidations :: u64
  evictions :: u64
  oversize_rejections :: u64
  events_published :: u64
  event_subscriber_lagged :: u64
  distributed_invalidations_published :: u64
  distributed_invalidations_received :: u64
  distributed_invalidations_applied :: u64
  distributed_invalidation_lagged :: u64
  distributed_invalidation_decode_errors :: u64
  distributed_invalidation_publish_failures :: u64
  distributed_invalidation_receiver_closed :: u64

definition stats_default :: stats_counters where
  "stats_default = \<lparr>hits = 0, misses = 0, loads = 0, single_flight_joins = 0, stale_load_discards = 0,
     load_breaker_open_total = 0, load_breaker_half_open_total = 0, load_breaker_recovered_total = 0,
     load_breaker_rejected_total = 0, load_breaker_saturated_total = 0, invalidations = 0,
     evictions = 0, oversize_rejections = 0, events_published = 0, event_subscriber_lagged = 0,
     distributed_invalidations_published = 0, distributed_invalidations_received = 0,
     distributed_invalidations_applied = 0, distributed_invalidation_lagged = 0,
     distributed_invalidation_decode_errors = 0, distributed_invalidation_publish_failures = 0,
     distributed_invalidation_receiver_closed = 0\<rparr>"

section \<open>Events\<close>

datatype cache_event_kind =
    Hit | Miss | SingleFlightJoined | LoadStarted | LoadCompleted | LoadFailed
  | Stored | Removed | KeyInvalidated | TagInvalidated | Flushed | StaleLoadDiscarded
  | Expired | Evicted

definition is_access :: "cache_event_kind \<Rightarrow> bool" where
  "is_access k \<longleftrightarrow> k \<in> {Hit, Miss, SingleFlightJoined, LoadStarted, LoadCompleted, LoadFailed}"

definition is_mutation :: "cache_event_kind \<Rightarrow> bool" where
  "is_mutation k \<longleftrightarrow> \<not> is_access k"

datatype cache_event_scope =
    ScopeKey string
  | ScopeTag string u64
  | ScopeCache "u64 option"

fun scope_key :: "cache_event_scope \<Rightarrow> string option" where
  "scope_key (ScopeKey k) = Some k"
| "scope_key (ScopeTag t n) = None"
| "scope_key (ScopeCache n) = None"

fun scope_tag :: "cache_event_scope \<Rightarrow> string option" where
  "scope_tag (ScopeKey k) = None"
| "scope_tag (ScopeTag t n) = Some t"
| "scope_tag (ScopeCache n) = None"

fun scope_affected_keys :: "cache_event_scope \<Rightarrow> u64 option" where
  "scope_affected_keys (ScopeKey k) = Some 1"
| "scope_affected_keys (ScopeTag t n) = Some n"
| "scope_affected_keys (ScopeCache n) = n"

datatype cache_event_origin = LocalApi | LoaderOrigin | SingleFlight | BackendOrigin | DistributedBus

record cache_event =
  ev_kind :: cache_event_kind
  ev_scope :: cache_event_scope
  ev_origin :: cache_event_origin
  ev_tags :: "string list"

definition for_key :: "cache_event_kind \<Rightarrow> string \<Rightarrow> cache_event_origin \<Rightarrow> string list \<Rightarrow> cache_event" where
  "for_key kind key origin tags = \<lparr>ev_kind = kind, ev_scope = ScopeKey key, ev_origin = origin, ev_tags = tags\<rparr>"

definition for_tag :: "cache_event_kind \<Rightarrow> string \<Rightarrow> u64 \<Rightarrow> cache_event_origin \<Rightarrow> cache_event" where
  "for_tag kind tag affected_keys origin =
     \<lparr>ev_kind = kind, ev_scope = ScopeTag tag affected_keys, ev_origin = origin, ev_tags = [tag]\<rparr>"

definition for_cache :: "cache_event_kind \<Rightarrow> u64 option \<Rightarrow> cache_event_origin \<Rightarrow> cache_event" where
  "for_cache kind affected_keys origin =
     \<lparr>ev_kind = kind, ev_scope = ScopeCache affected_keys, ev_origin = origin, ev_tags = []\<rparr>"

section \<open>Subscriber filters\<close>

record cache_event_options =
  include_kinds :: "cache_event_kind list option"
  exclude_kinds :: "cache_event_kind list"
  opt_key :: "string option"
  opt_key_prefix :: "string option"
  opt_tag :: "string option"
  opt_origin :: "cache_event_origin option"

definition event_options_new :: cache_event_options where
  "event_options_new = \<lparr>include_kinds = None, exclude_kinds = [], opt_key = None, opt_key_prefix = None,
     opt_tag = None, opt_origin = None\<rparr>"

definition include_kinds_op :: "cache_event_kind list \<Rightarrow> cache_event_options \<Rightarrow> cache_event_options" where
  "include_kinds_op kinds opts = opts\<lparr>include_kinds :=
     Some ((case include_kinds opts of Some ks \<Rightarrow> ks | None \<Rightarrow> []) @ kinds)\<rparr>"

definition exclude_kinds_op :: "cache_event_kind list \<Rightarrow> cache_event_options \<Rightarrow> cache_event_options" where
  "exclude_kinds_op kinds opts = opts\<lparr>exclude_kinds := exclude_kinds opts @ kinds\<rparr>"

definition options_mutations :: cache_event_options where
  "options_mutations = include_kinds_op
     [Stored, Removed, KeyInvalidated, TagInvalidated, Flushed, StaleLoadDiscarded, Expired, Evicted]
     event_options_new"

definition options_access :: cache_event_options where
  "options_access = include_kinds_op
     [Hit, Miss, SingleFlightJoined, LoadStarted, LoadCompleted, LoadFailed] event_options_new"

definition options_match :: "cache_event_options \<Rightarrow> cache_event \<Rightarrow> bool" where
  "options_match opts ev =
    (if (case include_kinds opts of Some ks \<Rightarrow> \<not> List.member ks (ev_kind ev) | None \<Rightarrow> False) then False
     else if List.member (exclude_kinds opts) (ev_kind ev) then False
     else if (case opt_key opts of Some k \<Rightarrow> scope_key (ev_scope ev) \<noteq> Some k | None \<Rightarrow> False) then False
     else if (case opt_key_prefix opts of
                Some p \<Rightarrow> (case scope_key (ev_scope ev) of None \<Rightarrow> True | Some k \<Rightarrow> \<not> prefix p k)
              | None \<Rightarrow> False) then False
     else if (case opt_tag opts of
                Some t \<Rightarrow> scope_tag (ev_scope ev) \<noteq> Some t \<and> \<not> List.member (ev_tags ev) t
              | None \<Rightarrow> False) then False
     else if (case opt_origin opts of Some og \<Rightarrow> ev_origin ev \<noteq> og | None \<Rightarrow> False) then False
     else True)"

lemma options_mutations_match: "options_match options_mutations ev \<longleftrightarrow> is_mutation (ev_kind ev)"
  by (cases "ev_kind ev") (simp_all add: options_match_def options_mutations_def include_kinds_op_def
      event_options_new_def is_mutation_def is_access_def)

lemma options_access_match: "options_match options_access ev \<longleftrightarrow> is_access (ev_kind ev)"
  by (cases "ev_kind ev") (simp_all add: options_match_def options_access_def include_kinds_op_def
      event_options_new_def is_access_def)

section \<open>Event bus\<close>

record event_bus =
  bus_sent :: "cache_event list"
  receiver_count :: nat
  access_events :: bool

definition should_publish :: "event_bus \<Rightarrow> cache_event_kind \<Rightarrow> bool" where
  "should_publish bus kind \<longleftrightarrow> access_events bus \<or> is_mutation kind"

definition may_publish :: "event_bus \<Rightarrow> cache_event_kind \<Rightarrow> bool" where
  "may_publish bus kind \<longleftrightarrow> should_publish bus kind \<and> 0 < receiver_count bus"

definition publish :: "cache_event \<Rightarrow> event_bus \<times> stats_counters \<Rightarrow> event_bus \<times> stats_counters" where
  "publish ev = (\<lambda>(bus, stats).
    if \<not> may_publish bus (ev_kind ev) then (bus, stats)
    else (bus\<lparr>bus_sent := bus_sent bus @ [ev]\<rparr>, stats\<lparr>events_published := events_published stats + 1\<rparr>))"

end
