(* ===== verification/Load_Breaker.thy ===== *)
theory Load_Breaker
  imports Ordered_Map Cache_Events
begin

text \<open>
  \<open>hydracache/src/load_breaker.rs\<close>: the per-key circuit breaker in front of loaders. A key whose
  loader fails a configured number of times in a row is opened: its loads are rejected until a
  backoff has elapsed, then one probe load is let through (half open), and its result closes the
  breaker or doubles the backoff. Records of keys that are not open are pruned after a time of
  inactivity and evicted, least recently active first, when the table is full.

  Both operations run under one lock. They read the clock; the readings are arguments. The counters
  are those of \<open>Cache_Events\<close>.
\<close>

section \<open>Policy\<close>

record load_breaker_policy =
  failure_threshold :: u32
  initial_backoff :: duration
  max_backoff :: duration
  max_tracked_keys :: usize
  inactive_entry_ttl :: duration

definition DEFAULT_MAX_TRACKED_KEYS :: usize where
  "DEFAULT_MAX_TRACKED_KEYS = 4096"

definition DEFAULT_INACTIVE_ENTRY_TTL :: duration where
  "DEFAULT_INACTIVE_ENTRY_TTL = 300 * 1000000000"

definition normalize_backoff :: "duration \<Rightarrow> duration" where
  "normalize_backoff b = (if b = 0 then 1000000 else b)"

definition double_backoff :: "duration \<Rightarrow> duration \<Rightarrow> duration" where
  "double_backoff current maxb = min (duration_sat_mul current 2) maxb"

definition policy_disabled :: load_breaker_policy where
  "policy_disabled = \<lparr>failure_threshold = 0, initial_backoff = 0, max_backoff = 0,
     max_tracked_keys = DEFAULT_MAX_TRACKED_KEYS, inactive_entry_ttl = DEFAULT_INACTIVE_ENTRY_TTL\<rparr>"

definition policy_new :: "u32 \<Rightarrow> duration \<Rightarrow> duration \<Rightarrow> load_breaker_policy" where
  "policy_new threshold init maxb =
    (let init = normalize_backoff init in
     \<lparr>failure_threshold = max threshold 2, initial_backoff = init, max_backoff = max maxb init,
      max_tracked_keys = DEFAULT_MAX_TRACKED_KEYS, inactive_entry_ttl = DEFAULT_INACTIVE_ENTRY_TTL\<rparr>)"

definition with_max_tracked_keys :: "usize \<Rightarrow> load_breaker_policy \<Rightarrow> load_breaker_policy" where
  "with_max_tracked_keys n p = p\<lparr>max_tracked_keys := max n 1\<rparr>"

definition with_inactive_entry_ttl :: "duration \<Rightarrow> load_breaker_policy \<Rightarrow> load_breaker_policy" where
  "with_inactive_entry_ttl d p = p\<lparr>inactive_entry_ttl := normalize_backoff d\<rparr>"

definition is_enabled :: "load_breaker_policy \<Rightarrow> bool" where
  "is_enabled p \<longleftrightarrow> 0 < failure_threshold p"

section \<open>Registry\<close>

datatype load_breaker_decision = Allow | Reject

record load_breaker =
  failures :: u32
  opened_at :: "instant option"
  backoff :: duration
  half_open :: bool
  last_activity :: instant

record load_breaker_registry =
  policy :: load_breaker_policy
  breaker_entries :: "(string, load_breaker) btmap"

definition registry_new :: "load_breaker_policy \<Rightarrow> load_breaker_registry" where
  "registry_new p = \<lparr>policy = p, breaker_entries = bt_empty\<rparr>"

definition prune_inactive_entries ::
  "instant \<Rightarrow> duration \<Rightarrow> (string, load_breaker) btmap \<Rightarrow> (string, load_breaker) btmap" where
  "prune_inactive_entries now ttl entries =
     bt_retain (\<lambda>_ entry. opened_at entry \<noteq> None \<or> now - last_activity entry < ttl) entries"

definition before_load :: "instant \<Rightarrow> instant \<Rightarrow> string \<Rightarrow> load_breaker_registry \<times> stats_counters
    \<Rightarrow> load_breaker_decision \<times> load_breaker_registry \<times> stats_counters" where
  "before_load now now' key = (\<lambda>(reg, stats).
    if \<not> is_enabled (policy reg) then (Allow, reg, stats)
    else
      let entries = prune_inactive_entries now (inactive_entry_ttl (policy reg)) (breaker_entries reg);
          reg = reg\<lparr>breaker_entries := entries\<rparr>
      in case bt_get entries key of
           None \<Rightarrow> (Allow, reg, stats)
         | Some entry \<Rightarrow>
             (case opened_at entry of
                None \<Rightarrow> (Allow, reg, stats)
              | Some opened \<Rightarrow>
                  if half_open entry then
                    (Reject, reg, stats\<lparr>load_breaker_rejected_total := load_breaker_rejected_total stats + 1\<rparr>)
                  else if now' - opened < backoff entry then
                    (Reject, reg, stats\<lparr>load_breaker_rejected_total := load_breaker_rejected_total stats + 1\<rparr>)
                  else
                    (Allow,
                     reg\<lparr>breaker_entries := bt_insert key (entry\<lparr>half_open := True\<rparr>) entries\<rparr>,
                     stats\<lparr>load_breaker_half_open_total := load_breaker_half_open_total stats + 1\<rparr>)))"

definition evict_for :: "string \<Rightarrow> load_breaker_policy \<Rightarrow> (string, load_breaker) btmap
    \<Rightarrow> (string, load_breaker) btmap option" where
  "evict_for key p entries =
    (if bt_get entries key = None \<and> max_tracked_keys p \<le> length entries then
       (case min_by_key (\<lambda>(_, entry). last_activity entry) (filter (\<lambda>(_, entry). opened_at entry = None) entries) of
          Some (victim, _) \<Rightarrow> Some (bt_remove victim entries)
        | None \<Rightarrow> None)
     else Some entries)"

definition new_breaker :: "instant \<Rightarrow> load_breaker_policy \<Rightarrow> load_breaker" where
  "new_breaker now p = \<lparr>failures = 0, opened_at = None, backoff = initial_backoff p, half_open = False,
     last_activity = now\<rparr>"

text \<open>The update of a record by a failure, with whether it opened the breaker.\<close>

definition record_failure :: "instant \<Rightarrow> load_breaker_policy \<Rightarrow> load_breaker \<Rightarrow> load_breaker \<times> bool" where
  "record_failure now p entry =
    (let entry = entry\<lparr>last_activity := now, failures := sat_add (failures entry) 1\<rparr> in
     if opened_at entry \<noteq> None then
       (entry\<lparr>opened_at := Some now, backoff := double_backoff (backoff entry) (max_backoff p),
          half_open := False\<rparr>, True)
     else if failure_threshold p \<le> failures entry then
       (entry\<lparr>opened_at := Some now, backoff := initial_backoff p, half_open := False\<rparr>, True)
     else (entry, False))"

definition after_load_result :: "instant \<Rightarrow> string \<Rightarrow> bool \<Rightarrow> load_breaker_registry \<times> stats_counters
    \<Rightarrow> load_breaker_registry \<times> stats_counters" where
  "after_load_result now key success = (\<lambda>(reg, stats).
    if \<not> is_enabled (policy reg) then (reg, stats)
    else
      let entries = prune_inactive_entries now (inactive_entry_ttl (policy reg)) (breaker_entries reg)
      in if success then
           (reg\<lparr>breaker_entries := bt_remove key entries\<rparr>,
            if (case bt_get entries key of Some entry \<Rightarrow> opened_at entry \<noteq> None | None \<Rightarrow> False)
            then stats\<lparr>load_breaker_recovered_total := load_breaker_recovered_total stats + 1\<rparr>
            else stats)
         else
           (case evict_for key (policy reg) entries of
              None \<Rightarrow> (reg\<lparr>breaker_entries := entries\<rparr>,
                       stats\<lparr>load_breaker_saturated_total := load_breaker_saturated_total stats + 1\<rparr>)
            | Some entries \<Rightarrow>
                let (entry, opened) = record_failure now (policy reg)
                      (case bt_get entries key of Some entry \<Rightarrow> entry | None \<Rightarrow> new_breaker now (policy reg))
                in (reg\<lparr>breaker_entries := bt_insert key entry entries\<rparr>,
                    if opened then stats\<lparr>load_breaker_open_total := load_breaker_open_total stats + 1\<rparr>
                    else stats)))"

section \<open>Histories and invariant\<close>

datatype breaker_op = Before instant instant string | After instant string bool

fun breaker_step :: "breaker_op \<Rightarrow> load_breaker_registry \<times> stats_counters \<Rightarrow> load_breaker_registry \<times> stats_counters" where
  "breaker_step (Before now now' key) s = snd (before_load now now' key s)"
| "breaker_step (After now key success) s = after_load_result now key success s"

definition policy_ok :: "load_breaker_policy \<Rightarrow> bool" where
  "policy_ok p \<longleftrightarrow> 2 \<le> failure_threshold p \<and> 0 < initial_backoff p \<and> initial_backoff p \<le> max_backoff p
     \<and> max_backoff p \<le> DURATION_MAX \<and> 1 \<le> max_tracked_keys p"

definition breaker_ok :: "load_breaker_policy \<Rightarrow> load_breaker \<Rightarrow> bool" where
  "breaker_ok p e \<longleftrightarrow>
    (case opened_at e of
       None \<Rightarrow> failures e < failure_threshold p \<and> \<not> half_open e
     | Some t \<Rightarrow> failure_threshold p \<le> failures e)
    \<and> initial_backoff p \<le> backoff e \<and> backoff e \<le> max_backoff p"

definition registry_ok :: "load_breaker_registry \<Rightarrow> bool" where
  "registry_ok reg \<longleftrightarrow> bt_ok (breaker_entries reg)
     \<and> length (breaker_entries reg) \<le> max_tracked_keys (policy reg)
     \<and> (\<forall>k e. bt_get (breaker_entries reg) k = Some e \<longrightarrow> breaker_ok (policy reg) e)"

lemma policy_ok_new: "init \<le> DURATION_MAX \<Longrightarrow> maxb \<le> DURATION_MAX \<Longrightarrow> policy_ok (policy_new n init maxb)"
  by (auto simp: policy_ok_def policy_new_def normalize_backoff_def DEFAULT_MAX_TRACKED_KEYS_def
      DURATION_MAX_def Let_def)

lemma policy_ok_with [simp]:
  "policy_ok p \<Longrightarrow> policy_ok (with_max_tracked_keys n p)"
  "policy_ok p \<Longrightarrow> policy_ok (with_inactive_entry_ttl d p)"
  by (auto simp: policy_ok_def with_max_tracked_keys_def with_inactive_entry_ttl_def)

lemma double_backoff_bounds:
  "policy_ok p \<Longrightarrow> initial_backoff p \<le> b \<Longrightarrow> b \<le> max_backoff p \<Longrightarrow>
    initial_backoff p \<le> double_backoff b (max_backoff p) \<and> double_backoff b (max_backoff p) \<le> max_backoff p"
  by (auto simp: policy_ok_def double_backoff_def duration_sat_mul_def)

lemma bt_ok_prune [simp]: "bt_ok m \<Longrightarrow> bt_ok (prune_inactive_entries now ttl m)"
  by (simp add: prune_inactive_entries_def)

lemma length_prune_le: "length (prune_inactive_entries now ttl m) \<le> length m"
  by (simp add: prune_inactive_entries_def bt_retain_def)

lemma get_prune:
  "bt_ok m \<Longrightarrow> bt_get (prune_inactive_entries now ttl m) k = Some e \<longleftrightarrow>
    bt_get m k = Some e \<and> (opened_at e \<noteq> None \<or> now - last_activity e < ttl)"
  by (auto simp: prune_inactive_entries_def bt_get_retain split: option.splits)

lemma registry_ok_prune:
  "registry_ok reg \<Longrightarrow> registry_ok (reg\<lparr>breaker_entries := prune_inactive_entries now ttl (breaker_entries reg)\<rparr>)"
  using length_prune_le [of now ttl "breaker_entries reg"]
  by (auto simp: registry_ok_def get_prune)

lemma evict_for_SomeD:
  assumes "evict_for key p m = Some m'" "bt_ok m" "length m \<le> max_tracked_keys p" "1 \<le> max_tracked_keys p"
  shows "bt_ok m'" "bt_get m' k = Some e \<Longrightarrow> bt_get m k = Some e"
    "bt_get m' key = bt_get m key"
    "bt_get m k = Some e \<Longrightarrow> opened_at e \<noteq> None \<Longrightarrow> bt_get m' k = Some e"
    "length (bt_insert key v m') \<le> max_tracked_keys p"
proof -
  consider (keep) "m' = m" "\<not> (bt_get m key = None \<and> max_tracked_keys p \<le> length m)"
    | (evict) victim e' where "m' = bt_remove victim m" "bt_get m key = None"
        "bt_get m victim = Some e'" "opened_at e' = None"
  proof (cases "bt_get m key = None \<and> max_tracked_keys p \<le> length m")
    case True
    with assms(1) obtain victim e' where
      "min_by_key (\<lambda>(_, entry). last_activity entry) (filter (\<lambda>(_, entry). opened_at entry = None) m)
        = Some (victim, e')" "m' = bt_remove victim m"
      by (auto simp: evict_for_def split: option.splits)
    with True assms(2) that(2) show thesis
      by (force simp: bt_get_iff dest!: min_by_key_SomeD)
  next
    case False
    with assms(1) that(1) show thesis by (auto simp: evict_for_def split: if_splits)
  qed
  note cases = this
  show "bt_ok m'" using cases assms(2) by cases auto
  show "bt_get m' k = Some e \<Longrightarrow> bt_get m k = Some e" using cases by cases (auto split: if_splits)
  show "bt_get m' key = bt_get m key" using cases by cases auto
  show "bt_get m k = Some e \<Longrightarrow> opened_at e \<noteq> None \<Longrightarrow> bt_get m' k = Some e" using cases by cases auto
  show "length (bt_insert key v m') \<le> max_tracked_keys p"
    using cases
  proof cases
    case keep
    then show ?thesis using assms(2,3) by (auto simp: length_bt_insert)
  next
    case evict
    then have "length m' = length m - 1" "length m > 0"
      using assms(2) by (auto simp: length_bt_remove)
    then show ?thesis using length_bt_insert_le [of key v m'] assms(3) by simp
  qed
qed

lemma registry_ok_insert:
  assumes "registry_ok reg" "evict_for key (policy reg) (breaker_entries reg) = Some m'"
    "policy_ok (policy reg)" "breaker_ok (policy reg) e"
  shows "registry_ok (reg\<lparr>breaker_entries := bt_insert key e m'\<rparr>)"
proof -
  have m: "bt_ok (breaker_entries reg)" "length (breaker_entries reg) \<le> max_tracked_keys (policy reg)"
    "1 \<le> max_tracked_keys (policy reg)"
    using assms(1,3) by (auto simp: registry_ok_def policy_ok_def)
  note evict = evict_for_SomeD [OF assms(2) m]
  have "breaker_ok (policy reg) e'" if "bt_get m' k = Some e'" for k e'
    using evict(2) [OF that] assms(1) by (simp add: registry_ok_def)
  then show ?thesis
    using evict(1,5) assms(4) by (simp add: registry_ok_def)
qed

lemma registry_ok_replace:
  "registry_ok (reg\<lparr>breaker_entries := m\<rparr>) \<Longrightarrow> bt_get m k = Some e0 \<Longrightarrow> breaker_ok (policy reg) e \<Longrightarrow>
    registry_ok (reg\<lparr>breaker_entries := bt_insert k e m\<rparr>)"
  by (simp add: registry_ok_def length_bt_insert)

lemma registry_ok_get: "registry_ok (reg\<lparr>breaker_entries := m\<rparr>) \<Longrightarrow> bt_get m k = Some e \<Longrightarrow> breaker_ok (policy reg) e"
  by (simp add: registry_ok_def)

lemma breaker_ok_half_open: "breaker_ok p e \<Longrightarrow> opened_at e = Some t \<Longrightarrow> breaker_ok p (e\<lparr>half_open := True\<rparr>)"
  by (simp add: breaker_ok_def)

lemma registry_ok_before: "registry_ok (fst s) \<Longrightarrow> registry_ok (fst (snd (before_load now now' key s)))"
proof (cases s)
  case (Pair reg stats)
  assume "registry_ok (fst s)"
  with Pair have ok: "registry_ok (reg\<lparr>breaker_entries :=
      prune_inactive_entries now (inactive_entry_ttl (policy reg)) (breaker_entries reg)\<rparr>)" "registry_ok reg"
    by (auto intro: registry_ok_prune)
  show ?thesis
  proof (cases "fst (before_load now now' key s)")
    case Allow
    with Pair ok show ?thesis
      by (auto simp: before_load_def Let_def split: option.splits if_splits
          intro: registry_ok_replace breaker_ok_half_open registry_ok_get)
  next
    case Reject
    with Pair ok show ?thesis
      by (auto simp: before_load_def Let_def split: option.splits if_splits)
  qed
qed

lemma breaker_ok_new: "policy_ok p \<Longrightarrow> breaker_ok p (new_breaker now p)"
  by (auto simp: policy_ok_def breaker_ok_def new_breaker_def intro: less_le_trans [of 0 2])

lemma breaker_ok_record_failure:
  "policy_ok p \<Longrightarrow> breaker_ok p e \<Longrightarrow> breaker_ok p (fst (record_failure now p e))"
  using double_backoff_bounds [of p "backoff e"]
  by (auto simp: breaker_ok_def record_failure_def Let_def policy_ok_def
      intro: order_trans [OF _ sat_add_ge] split: option.splits)

lemma after_load_result_policy [simp]: "policy (fst (after_load_result now key ok s)) = policy (fst s)"
  by (simp add: after_load_result_def Let_def split: option.split prod.split)

lemma before_load_policy [simp]: "policy (fst (snd (before_load now now' key s))) = policy (fst s)"
  by (simp add: before_load_def Let_def split: option.split prod.split)

lemma registry_ok_after:
  assumes "registry_ok (fst s)" "policy_ok (policy (fst s))"
  shows "registry_ok (fst (after_load_result now key ok s))"
proof -
  obtain reg stats where s: "s = (reg, stats)" by (cases s)
  define m where "m = prune_inactive_entries now (inactive_entry_ttl (policy reg)) (breaker_entries reg)"
  have m: "registry_ok (reg\<lparr>breaker_entries := m\<rparr>)"
    using assms(1) by (simp add: s m_def registry_ok_prune)
  have remove: "registry_ok (reg\<lparr>breaker_entries := bt_remove key m\<rparr>)"
    using m by (auto simp: registry_ok_def split: if_splits intro: le_trans [OF length_bt_remove_le])
  have insert: "registry_ok (reg\<lparr>breaker_entries := bt_insert key (fst (record_failure now (policy reg)
      (case bt_get m' key of Some e \<Rightarrow> e | None \<Rightarrow> new_breaker now (policy reg)))) m'\<rparr>)"
    if "evict_for key (policy reg) m = Some m'" for m'
  proof -
    have "breaker_ok (policy reg) (case bt_get m' key of Some e \<Rightarrow> e | None \<Rightarrow> new_breaker now (policy reg))"
      using evict_for_SomeD(2) [OF that] m assms(2)
      by (auto simp: s registry_ok_def policy_ok_def breaker_ok_new split: option.splits)
    then show ?thesis
      using registry_ok_insert [OF m] that assms(2) by (simp add: s breaker_ok_record_failure)
  qed
  show ?thesis
    using assms(1) m remove insert
    by (auto simp: s after_load_result_def Let_def m_def [symmetric] split: option.split prod.split)
qed

lemma breaker_step_ok:
  "registry_ok (fst s) \<Longrightarrow> policy_ok (policy (fst s)) \<Longrightarrow>
    registry_ok (fst (breaker_step op s)) \<and> policy (fst (breaker_step op s)) = policy (fst s)"
  by (cases op) (simp_all add: registry_ok_before registry_ok_after)

lemma breaker_run_ok:
  "registry_ok (fst s) \<Longrightarrow> policy_ok (policy (fst s)) \<Longrightarrow>
    registry_ok (fst (fold breaker_step ops s)) \<and> policy (fst (fold breaker_step ops s)) = policy (fst s)"
  by (induction ops arbitrary: s) (auto simp: breaker_step_ok)

lemma registry_ok_new: "registry_ok (registry_new p)" "policy (registry_new p) = p"
  by (simp_all add: registry_ok_def registry_new_def bt_empty_def)

lemmas breaker_eval = before_load_def after_load_result_def prune_inactive_entries_def bt_retain_def
  evict_for_def record_failure_def new_breaker_def policy_new_def with_max_tracked_keys_def
  with_inactive_entry_ttl_def normalize_backoff_def registry_new_def bt_empty_def is_enabled_def
  DEFAULT_MAX_TRACKED_KEYS_def DEFAULT_INACTIVE_ENTRY_TTL_def sat_add_def Let_def
  double_backoff_def duration_sat_mul_def DURATION_MAX_def

section \<open>Opening\<close>

lemma failure_tracked:
  assumes "registry_ok reg" "policy_ok (policy reg)" "bt_get (breaker_entries reg) key = Some e"
    "opened_at e \<noteq> None \<or> now - last_activity e < inactive_entry_ttl (policy reg)"
  shows "bt_get (breaker_entries (fst (after_load_result now key False (reg, stats)))) key
    = Some (fst (record_failure now (policy reg) e))"
proof -
  let ?m = "prune_inactive_entries now (inactive_entry_ttl (policy reg)) (breaker_entries reg)"
  have "bt_get ?m key = Some e"
    using assms by (simp add: get_prune registry_ok_def)
  moreover have "is_enabled (policy reg)"
    using assms(2) by (auto simp: policy_ok_def is_enabled_def intro: less_le_trans [of 0 2])
  ultimately show ?thesis
    by (simp add: after_load_result_def evict_for_def Let_def split: prod.split)
qed

lemma failure_untracked:
  assumes "registry_ok reg" "policy_ok (policy reg)" "bt_get (breaker_entries reg) key = None"
    "length (breaker_entries reg) < max_tracked_keys (policy reg)"
  shows "bt_get (breaker_entries (fst (after_load_result now key False (reg, stats)))) key
    = Some (fst (record_failure now (policy reg) (new_breaker now (policy reg))))"
proof -
  let ?m = "prune_inactive_entries now (inactive_entry_ttl (policy reg)) (breaker_entries reg)"
  have "bt_get ?m key = None"
    using assms by (simp add: registry_ok_def prune_inactive_entries_def bt_get_retain)
  moreover have "length ?m < max_tracked_keys (policy reg)"
    using length_prune_le assms(4) by (rule le_less_trans)
  moreover have "is_enabled (policy reg)"
    using assms(2) by (auto simp: policy_ok_def is_enabled_def intro: less_le_trans [of 0 2])
  ultimately show ?thesis
    by (simp add: after_load_result_def evict_for_def Let_def split: prod.split)
qed

text \<open>A record after \<open>n\<close> failures in a row, the last at time \<open>t\<close>.\<close>

definition failed_times :: "load_breaker_policy \<Rightarrow> nat \<Rightarrow> instant \<Rightarrow> load_breaker \<Rightarrow> bool" where
  "failed_times p n t e \<longleftrightarrow> last_activity e = t
     \<and> (opened_at e \<noteq> None \<longleftrightarrow> unat (failure_threshold p) \<le> n)
     \<and> (opened_at e = None \<longrightarrow> unat (failures e) = n)"

lemma record_failure_times:
  assumes "failed_times p n t e"
  shows "failed_times p (Suc n) now (fst (record_failure now p e))"
proof -
  have "unat (sat_add (failures e) 1) = Suc n" if "n < unat (failure_threshold p)" "unat (failures e) = n"
    using that unat_bound [of "failure_threshold p"] by (simp add: unat_sat_add)
  with assms show ?thesis
    by (auto simp: failed_times_def record_failure_def Let_def word_le_nat_alt)
qed

lemma failures_open:
  assumes "registry_ok reg" "policy_ok (policy reg)"
    "bt_get (breaker_entries reg) key = Some e" "failed_times (policy reg) n t e"
    "successively (\<lambda>t t'. t' - t < inactive_entry_ttl (policy reg)) (t # ts)"
  shows "\<exists>e'. bt_get (breaker_entries (fst (fold (\<lambda>t. after_load_result t key False) ts (reg, stats)))) key
      = Some e' \<and> failed_times (policy reg) (n + length ts) (last (t # ts)) e'"
  using assms
proof (induction ts arbitrary: reg stats e n t)
  case (Cons t' ts)
  obtain reg' stats' where step: "after_load_result t' key False (reg, stats) = (reg', stats')"
    by fastforce
  have inv: "registry_ok reg'" "policy reg' = policy reg"
    using registry_ok_after [of "(reg, stats)" t' key False]
      after_load_result_policy [of t' key False "(reg, stats)"] Cons.prems(1,2) step by auto
  have "bt_get (breaker_entries reg') key = Some (fst (record_failure t' (policy reg) e))"
    using failure_tracked [OF Cons.prems(1,2,3), of t' stats] Cons.prems(4,5) step
    by (simp add: failed_times_def)
  moreover have "failed_times (policy reg') (Suc n) t' (fst (record_failure t' (policy reg) e))"
    using record_failure_times [OF Cons.prems(4)] inv(2) by simp
  ultimately show ?case
    using Cons.IH [OF inv(1), of "fst (record_failure t' (policy reg) e)" "Suc n" t' stats'] Cons.prems inv(2) step
    by (simp add: successively_Cons)
qed simp

section \<open>Half open\<close>

definition probing :: "string \<Rightarrow> load_breaker_registry \<Rightarrow> bool" where
  "probing key reg \<longleftrightarrow> (case bt_get (breaker_entries reg) key of
     Some e \<Rightarrow> opened_at e \<noteq> None \<and> half_open e | None \<Rightarrow> False)"

lemma probing_prune:
  "bt_ok m \<Longrightarrow> bt_get m key = Some e \<Longrightarrow> opened_at e \<noteq> None \<Longrightarrow>
    bt_get (prune_inactive_entries now ttl m) key = Some e"
  by (simp add: get_prune)

lemma probing_step:
  assumes "registry_ok (fst s)" "policy_ok (policy (fst s))" "probing key (fst s)"
    "\<And>now ok. op \<noteq> After now key ok"
  shows "probing key (fst (breaker_step op s))"
proof -
  obtain reg stats where s: "s = (reg, stats)" by (cases s)
  obtain e where e: "bt_get (breaker_entries reg) key = Some e" "opened_at e \<noteq> None" "half_open e"
    using assms(3) by (auto simp: s probing_def split: option.splits)
  have pr: "bt_get (prune_inactive_entries now (inactive_entry_ttl (policy reg)) (breaker_entries reg)) key
      = Some e" for now
    using assms(1) e by (simp add: s registry_ok_def get_prune)
  have rok: "registry_ok (reg\<lparr>breaker_entries :=
      prune_inactive_entries now (inactive_entry_ttl (policy reg)) (breaker_entries reg)\<rparr>)" for now
    using assms(1) by (simp add: s registry_ok_prune)
  show ?thesis
  proof (cases op)
    case (Before now now' k)
    then show ?thesis
      using e pr [of now] assms(3)
      by (auto simp: s probing_def before_load_def Let_def split: option.split)
  next
    case (After now k ok)
    with assms(4) have "k \<noteq> key" by auto
    moreover have "bt_get m' key = Some e"
      if "evict_for k (policy reg)
        (prune_inactive_entries now (inactive_entry_ttl (policy reg)) (breaker_entries reg)) = Some m'" for m'
      using evict_for_SomeD(4) [OF that _ _ _ pr e(2)] rok [of now] assms(2)
      by (simp add: s registry_ok_def policy_ok_def)
    ultimately show ?thesis
      using After e pr [of now]
      by (auto simp: s probing_def after_load_result_def Let_def split: option.split prod.split)
  qed
qed

lemma probing_rejects:
  assumes "registry_ok reg" "policy_ok (policy reg)" "probing key reg"
  shows "fst (before_load now now' key (reg, stats)) = Reject"
proof -
  obtain e t where e: "bt_get (breaker_entries reg) key = Some e" "opened_at e = Some t" "half_open e"
    using assms(3) by (auto simp: probing_def split: option.splits)
  have "bt_get (prune_inactive_entries now (inactive_entry_ttl (policy reg)) (breaker_entries reg)) key = Some e"
    using assms(1) e by (simp add: registry_ok_def get_prune)
  moreover have "is_enabled (policy reg)"
    using assms(2) by (auto simp: policy_ok_def is_enabled_def intro: less_le_trans [of 0 2])
  ultimately show ?thesis using e by (simp add: before_load_def Let_def)
qed

lemma probing_run:
  assumes "registry_ok (fst s)" "policy_ok (policy (fst s))" "probing key (fst s)"
    "list_all (\<lambda>op. case op of After now k ok \<Rightarrow> k \<noteq> key | _ \<Rightarrow> True) ops"
  shows "probing key (fst (fold breaker_step ops s))"
  using assms
proof (induction ops arbitrary: s)
  case (Cons op ops)
  then have "probing key (fst (breaker_step op s))"
    by (intro probing_step) (auto split: breaker_op.splits)
  with Cons show ?case by (simp add: breaker_step_ok)
qed simp

section \<open>Properties\<close>

text \<open>
  C26. A breaker opens after exactly as many consecutive failures as its threshold. From any
  reachable registry in which the key has no record and the table has room, a run of failures of
  the key, none later than the inactivity limit after the one before, leaves a record whose breaker
  is open if and only if the number of failures has reached the threshold; since thresholds
  are at least two, one failure alone never opens a breaker.
\<close>
theorem breaker_opens_at_threshold:
  assumes reg: "reg = fst (fold breaker_step ops (registry_new p, stats))"
    and p: "p = with_max_tracked_keys cap (with_inactive_entry_ttl ttl (policy_new n init maxb))"
    and dur: "init \<le> DURATION_MAX" "maxb \<le> DURATION_MAX"
    and free: "bt_get (breaker_entries reg) key = None" "length (breaker_entries reg) < max_tracked_keys p"
    and ts: "ts \<noteq> []" "successively (\<lambda>t t'. t' - t < inactive_entry_ttl p) ts"
  shows "\<exists>e. bt_get (breaker_entries (fst (fold (\<lambda>t. after_load_result t key False) ts (reg, stats')))) key = Some e
    \<and> (opened_at e \<noteq> None \<longleftrightarrow> unat (max n 2) \<le> length ts)"
proof -
  have pok: "policy_ok p" using dur by (simp add: p policy_ok_new)
  have ok: "registry_ok reg" "policy reg = p"
    using breaker_run_ok [of "(registry_new p, stats)" ops] pok
    by (auto simp: reg registry_ok_new)
  have thr: "failure_threshold p = max n 2"
    by (simp add: p with_max_tracked_keys_def with_inactive_entry_ttl_def policy_new_def Let_def)
  obtain t ts' where tts: "ts = t # ts'" using ts(1) by (cases ts) auto
  obtain reg1 stats1 where step: "after_load_result t key False (reg, stats') = (reg1, stats1)"
    by fastforce
  have ok1: "registry_ok reg1" "policy reg1 = p"
    using registry_ok_after [of "(reg, stats')" t key False]
      after_load_result_policy [of t key False "(reg, stats')"] ok pok step by auto
  have "failed_times p 0 t (new_breaker t p)"
    using pok by (auto simp: failed_times_def new_breaker_def policy_ok_def word_le_nat_alt)
  then have "failed_times p 1 t (fst (record_failure t p (new_breaker t p)))"
    using record_failure_times by fastforce
  moreover have "bt_get (breaker_entries reg1) key = Some (fst (record_failure t p (new_breaker t p)))"
    using failure_untracked [OF ok(1), of key t stats'] ok(2) pok free step by simp
  ultimately show ?thesis
    using failures_open [OF ok1(1), of key "fst (record_failure t p (new_breaker t p))" 1 t ts' stats1]
      ok1(2) pok ts(2) step
    by (auto simp: tts failed_times_def thr)
qed

theorem breaker_opens_at_threshold_witness:
  "let p = with_max_tracked_keys 8 (with_inactive_entry_ttl 1000 (policy_new 3 10 100));
       reg = fst (fold breaker_step [After 0 ''other'' False] (registry_new p, stats_default)) in
   \<exists>e. bt_get (breaker_entries (fst (fold (\<lambda>t. after_load_result t ''k'' False) [5, 6, 7] (reg, stats_default)))) ''k''
     = Some e \<and> opened_at e \<noteq> None"
proof -
  define p where "p = with_max_tracked_keys 8 (with_inactive_entry_ttl 1000 (policy_new 3 10 100))"
  define reg where "reg = fst (fold breaker_step [After 0 ''other'' False] (registry_new p, stats_default))"
  have "bt_get (breaker_entries reg) ''k'' = None" "length (breaker_entries reg) < max_tracked_keys p"
    unfolding reg_def p_def by (simp_all add: breaker_eval)
  moreover have "(10::duration) \<le> DURATION_MAX" "(100::duration) \<le> DURATION_MAX"
    by (simp_all add: DURATION_MAX_def)
  moreover have "successively (\<lambda>t t'. t' - t < inactive_entry_ttl p) [5, 6, 7 :: nat]"
    unfolding p_def by (simp add: breaker_eval)
  ultimately show ?thesis
    unfolding Let_def p_def [symmetric] reg_def [symmetric]
    using breaker_opens_at_threshold [OF reg_def p_def, of "''k''" "[5, 6, 7]" stats_default]
    by simp
qed

text \<open>
  C27. One probe at a time. Once a load has been let through as the probe of an open breaker, every
  further load of that key is rejected, whatever time passes and whatever happens to other keys
  (including evictions to make room), until the result of a load of that key is reported. The
  breaker has no timeout of its own for a probe whose result never arrives.
\<close>
theorem probe_exclusive:
  assumes reg: "registry_ok reg" "policy_ok (policy reg)"
    and open_entry: "bt_get (breaker_entries reg) key = Some e" "opened_at e = Some t" "\<not> half_open e"
    and admitted: "before_load now now' key (reg, stats) = (Allow, reg', stats')"
    and others: "list_all (\<lambda>op. case op of After _ k _ \<Rightarrow> k \<noteq> key | _ \<Rightarrow> True) ops"
  shows "fst (before_load later later' key (fold breaker_step ops (reg', stats'))) = Reject"
proof -
  have en: "is_enabled (policy reg)"
    using reg(2) by (auto simp: policy_ok_def is_enabled_def intro: less_le_trans [of 0 2])
  have "bt_get (prune_inactive_entries now (inactive_entry_ttl (policy reg)) (breaker_entries reg)) key = Some e"
    using reg(1) open_entry by (simp add: registry_ok_def get_prune)
  with admitted open_entry en have "probing key reg'"
    by (auto simp: before_load_def Let_def probing_def split: if_splits)
  moreover have "registry_ok reg'" "policy reg' = policy reg"
    using registry_ok_before [of "(reg, stats)" now now' key]
      before_load_policy [of now now' key "(reg, stats)"] reg admitted by auto
  ultimately have "probing key (fst (fold breaker_step ops (reg', stats')))"
    and "registry_ok (fst (fold breaker_step ops (reg', stats')))"
    and "policy_ok (policy (fst (fold breaker_step ops (reg', stats'))))"
    using probing_run [of "(reg', stats')"] breaker_run_ok [of "(reg', stats')"] reg(2) others by auto
  then show ?thesis
    by (metis probing_rejects prod.collapse)
qed

theorem probe_exclusive_witness:
  "let s0 = fold breaker_step [After 0 ''k'' False, After 1 ''k'' False] (registry_new (policy_new 2 10 100), stats_default);
       s1 = snd (before_load 50 50 ''k'' s0) in
   fst (before_load 99999 99999 ''k'' (fold breaker_step [After 60 ''other'' True, Before 70 70 ''k''] s1)) = Reject"
proof -
  define s0 where "s0 = fold breaker_step [After 0 ''k'' False, After 1 ''k'' False] (registry_new (policy_new 2 10 100), stats_default)"
  define e where "e = the (bt_get (breaker_entries (fst s0)) ''k'')"
  have pok: "policy_ok (policy_new 2 10 100)"
    by (rule policy_ok_new) (simp_all add: DURATION_MAX_def)
  have "registry_ok (fst s0)" "policy_ok (policy (fst s0))"
    using breaker_run_ok [of "(registry_new (policy_new 2 10 100), stats_default)"
        "[After 0 ''k'' False, After 1 ''k'' False]"] pok
    by (auto simp: s0_def registry_ok_new)
  moreover have "bt_get (breaker_entries (fst s0)) ''k'' = Some e" "opened_at e = Some 1" "\<not> half_open e"
    unfolding e_def s0_def by (simp_all add: breaker_eval)
  moreover have "fst (before_load 50 50 ''k'' s0) = Allow"
    unfolding s0_def by (simp add: breaker_eval)
  ultimately show ?thesis
    unfolding Let_def s0_def [symmetric]
    using probe_exclusive [of "fst s0" "''k''" e 1 50 50 "snd s0" "fst (snd (before_load 50 50 ''k'' s0))"
        "snd (snd (before_load 50 50 ''k'' s0))" "[After 60 ''other'' True, Before 70 70 ''k'']" 99999 99999]
    by (simp add: prod_eq_iff)
qed

end
