(* ===== verification/In_Flight.thy ===== *)
theory In_Flight
  imports Tag_Index
begin

text \<open>
  \<open>hydracache/src/inflight.rs\<close>: the map of running loads that lets concurrent misses of a key share
  one loader execution. An entry holds the shared load, the generation snapshot it was started
  under and a counter of the handles waiting on it; the counter is shared between the entry and
  its handles (an \<open>Arc\<close>), so it lives in a store of counters and entries and handles hold its
  address. Dropping the last handle schedules the removal of the idle entry as a separate task.

  The shared future itself is opaque: the model is generic in its type. Shown: the counter of an
  entry is the number of its live handles, a load with a waiter is always joined and never removed
  as idle, an abandoned load is never joined.
\<close>

section \<open>Model\<close>

type_synonym waiter_ref = nat

record 'f in_flight_entry =
  entry_load :: 'f
  entry_generation :: load_generation_snapshot
  entry_waiters :: waiter_ref

record 'f shared_load_handle =
  handle_load :: 'f
  handle_attached :: bool
  handle_key :: string
  handle_generation :: load_generation_snapshot
  handle_waiters :: "waiter_ref option"

record 'f in_flight_map =
  in_flight_loads :: "(string, 'f in_flight_entry) btmap"
  waiter_counters :: "usize list"

definition in_flight_default :: "'f in_flight_map" where
  "in_flight_default = \<lparr>in_flight_loads = bt_empty, waiter_counters = []\<rparr>"

definition detached :: "'f \<Rightarrow> 'f shared_load_handle" where
  "detached load = \<lparr>handle_load = load, handle_attached = False, handle_key = [],
     handle_generation = \<lparr>snap_global = 0, snap_key = [], snap_key_generation = 0, snap_tags = []\<rparr>,
     handle_waiters = None\<rparr>"

definition try_add_waiter :: "waiter_ref \<Rightarrow> usize list \<Rightarrow> usize list option" where
  "try_add_waiter a cs =
    (if cs ! a = 0 \<or> cs ! a = usize_max then None else Some (cs[a := cs ! a + 1]))"

definition in_flight_len :: "'f in_flight_map \<Rightarrow> usize" where
  "in_flight_len ifm = length (in_flight_loads ifm)"

definition handle_for :: "string \<Rightarrow> load_generation_snapshot \<Rightarrow> 'f \<Rightarrow> waiter_ref \<Rightarrow> 'f shared_load_handle" where
  "handle_for key generation load a = \<lparr>handle_load = load, handle_attached = True, handle_key = key,
     handle_generation = generation, handle_waiters = Some a\<rparr>"

definition get_current :: "string \<Rightarrow> load_generation_snapshot \<Rightarrow> 'f in_flight_map
    \<Rightarrow> ('f shared_load_handle \<times> 'f in_flight_map) option" where
  "get_current key generation ifm =
    (case bt_get (in_flight_loads ifm) key of
       None \<Rightarrow> None
     | Some entry \<Rightarrow>
         if entry_generation entry \<noteq> generation then None
         else (case try_add_waiter (entry_waiters entry) (waiter_counters ifm) of
                 None \<Rightarrow> None
               | Some cs \<Rightarrow> Some (handle_for key generation (entry_load entry) (entry_waiters entry),
                                  ifm\<lparr>waiter_counters := cs\<rparr>)))"

definition insert_or_get_current :: "string \<Rightarrow> 'f \<Rightarrow> load_generation_snapshot \<Rightarrow> 'f in_flight_map
    \<Rightarrow> 'f shared_load_handle \<times> bool \<times> 'f in_flight_map" where
  "insert_or_get_current key load generation ifm =
    (case get_current key generation ifm of
       Some (handle, ifm') \<Rightarrow> (handle, False, ifm')
     | None \<Rightarrow>
         let a = length (waiter_counters ifm) in
         (handle_for key generation load a, True,
          ifm\<lparr>in_flight_loads := bt_insert key
                \<lparr>entry_load = load, entry_generation = generation, entry_waiters = a\<rparr> (in_flight_loads ifm),
              waiter_counters := waiter_counters ifm @ [1]\<rparr>))"

definition remove_if_generation_matches :: "string \<Rightarrow> load_generation_snapshot \<Rightarrow> 'f in_flight_map \<Rightarrow> 'f in_flight_map" where
  "remove_if_generation_matches key generation ifm =
    (case bt_get (in_flight_loads ifm) key of
       Some entry \<Rightarrow> if entry_generation entry = generation
                     then ifm\<lparr>in_flight_loads := bt_remove key (in_flight_loads ifm)\<rparr> else ifm
     | None \<Rightarrow> ifm)"

definition remove_if_idle :: "string \<Rightarrow> load_generation_snapshot \<Rightarrow> 'f in_flight_map \<Rightarrow> 'f in_flight_map" where
  "remove_if_idle key generation ifm =
    (case bt_get (in_flight_loads ifm) key of
       Some entry \<Rightarrow> if entry_generation entry = generation \<and> waiter_counters ifm ! entry_waiters entry = 0
                     then ifm\<lparr>in_flight_loads := bt_remove key (in_flight_loads ifm)\<rparr> else ifm
     | None \<Rightarrow> ifm)"

text \<open>
  Dropping a handle: the counter goes down, and when it reaches zero the removal task for the key
  and generation is returned, to run later. The map outlives its handles here, and a runtime to
  spawn the task on is available.
\<close>

definition drop_handle :: "'f shared_load_handle \<Rightarrow> 'f in_flight_map
    \<Rightarrow> (string \<times> load_generation_snapshot) option \<times> 'f in_flight_map" where
  "drop_handle h ifm =
    (case handle_waiters h of
       None \<Rightarrow> (None, ifm)
     | Some a \<Rightarrow>
         if \<not> handle_attached h then (None, ifm)
         else let before = waiter_counters ifm ! a;
                  ifm' = ifm\<lparr>waiter_counters := (waiter_counters ifm)[a := before - 1]\<rparr>
              in (if before \<noteq> 1 then None else Some (handle_key h, handle_generation h), ifm'))"

section \<open>The map with its handles\<close>

text \<open>
  The map, the handles alive in the program (in order of creation) and the removal tasks not yet
  run. A step is one operation on the map, in any order.
\<close>

record 'f in_flight_system =
  sys_map :: "'f in_flight_map"
  live :: "'f shared_load_handle list"
  idle_tasks :: "(string \<times> load_generation_snapshot) list"

inductive in_flight_step :: "'f in_flight_system \<Rightarrow> 'f in_flight_system \<Rightarrow> bool" where
  join: "get_current key g (sys_map s) = Some (h, m') \<Longrightarrow>
    in_flight_step s (s\<lparr>sys_map := m', live := live s @ [h]\<rparr>)"
| start: "insert_or_get_current key load g (sys_map s) = (h, inserted, m') \<Longrightarrow>
    in_flight_step s (s\<lparr>sys_map := m', live := live s @ [h]\<rparr>)"
| finish: "in_flight_step s (s\<lparr>sys_map := remove_if_generation_matches key g (sys_map s)\<rparr>)"
| drop: "live s = hs @ h # hs' \<Longrightarrow> drop_handle h (sys_map s) = (task, m') \<Longrightarrow>
    in_flight_step s (s\<lparr>sys_map := m', live := hs @ hs',
      idle_tasks := idle_tasks s @ (case task of None \<Rightarrow> [] | Some t \<Rightarrow> [t])\<rparr>)"
| idle: "idle_tasks s = ts @ (key, g) # ts' \<Longrightarrow>
    in_flight_step s (s\<lparr>sys_map := remove_if_idle key g (sys_map s), idle_tasks := ts @ ts'\<rparr>)"

inductive_cases in_flight_stepE: "in_flight_step s s'"

definition in_flight_init :: "'f in_flight_system" where
  "in_flight_init = \<lparr>sys_map = in_flight_default, live = [], idle_tasks = []\<rparr>"

text \<open>The counters count the live handles, and two entries never share a counter.\<close>

definition handles_on :: "'f shared_load_handle list \<Rightarrow> waiter_ref \<Rightarrow> nat" where
  "handles_on hs a = length (filter (\<lambda>h. handle_waiters h = Some a) hs)"

definition in_flight_ok :: "'f in_flight_system \<Rightarrow> bool" where
  "in_flight_ok s \<longleftrightarrow>
    bt_ok (in_flight_loads (sys_map s))
    \<and> (\<forall>a < length (waiter_counters (sys_map s)). waiter_counters (sys_map s) ! a = handles_on (live s) a)
    \<and> (\<forall>h \<in> set (live s). handle_attached h \<and>
         (\<exists>a. handle_waiters h = Some a \<and> a < length (waiter_counters (sys_map s))))
    \<and> (\<forall>k e. bt_get (in_flight_loads (sys_map s)) k = Some e \<longrightarrow>
         entry_waiters e < length (waiter_counters (sys_map s)))
    \<and> (\<forall>k e h. bt_get (in_flight_loads (sys_map s)) k = Some e \<longrightarrow> h \<in> set (live s) \<longrightarrow>
         handle_waiters h = Some (entry_waiters e) \<longrightarrow>
         handle_key h = k \<and> handle_generation h = entry_generation e \<and> handle_load h = entry_load e)
    \<and> (\<forall>k k' e e'. bt_get (in_flight_loads (sys_map s)) k = Some e \<longrightarrow>
         bt_get (in_flight_loads (sys_map s)) k' = Some e' \<longrightarrow> entry_waiters e = entry_waiters e' \<longrightarrow> k = k')"

lemma handles_on_simps [simp]:
  "handles_on [] a = 0"
  "handles_on (h # hs) a = (if handle_waiters h = Some a then 1 else 0) + handles_on hs a"
  "handles_on (hs @ hs') a = handles_on hs a + handles_on hs' a"
  by (simp_all add: handles_on_def)

lemma handles_on_pos: "0 < handles_on hs a \<longleftrightarrow> (\<exists>h \<in> set hs. handle_waiters h = Some a)"
  by (induction hs) auto

lemma handles_on_fresh: "(\<And>h. h \<in> set hs \<Longrightarrow> handle_waiters h \<noteq> Some a) \<Longrightarrow> handles_on hs a = 0"
  using handles_on_pos [of hs a] by auto

lemma get_currentE:
  assumes "get_current key g m = Some (h, m')"
  obtains e where "bt_get (in_flight_loads m) key = Some e" "entry_generation e = g"
    "waiter_counters m ! entry_waiters e \<noteq> 0" "waiter_counters m ! entry_waiters e \<noteq> usize_max"
    "h = handle_for key g (entry_load e) (entry_waiters e)"
    "m' = m\<lparr>waiter_counters := (waiter_counters m)[entry_waiters e := waiter_counters m ! entry_waiters e + 1]\<rparr>"
  using assms by (auto simp: get_current_def try_add_waiter_def split: option.splits if_splits)

lemma in_flight_ok_join:
  assumes "in_flight_ok s" "get_current key g (sys_map s) = Some (h, m')"
  shows "in_flight_ok (s\<lparr>sys_map := m', live := live s @ [h]\<rparr>)"
proof -
  obtain e where e: "bt_get (in_flight_loads (sys_map s)) key = Some e" "entry_generation e = g"
    "h = handle_for key g (entry_load e) (entry_waiters e)"
    "m' = (sys_map s)\<lparr>waiter_counters := (waiter_counters (sys_map s))
       [entry_waiters e := waiter_counters (sys_map s) ! entry_waiters e + 1]\<rparr>"
    using assms(2) by (elim get_currentE)
  have uniq: "k = key \<and> e' = e"
    if "bt_get (in_flight_loads (sys_map s)) k = Some e'" "entry_waiters e = entry_waiters e'" for k e'
    using assms(1) e(1) that unfolding in_flight_ok_def by (metis option.inject)
  show ?thesis
    using assms(1) e unfolding in_flight_ok_def
    by (auto simp: handle_for_def nth_list_update dest: uniq)
qed

lemma in_flight_ok_start:
  assumes ok: "in_flight_ok s" and none: "get_current key g (sys_map s) = None"
  shows "in_flight_ok (s\<lparr>sys_map := (sys_map s)\<lparr>in_flight_loads := bt_insert key
        \<lparr>entry_load = load, entry_generation = g, entry_waiters = length (waiter_counters (sys_map s))\<rparr>
        (in_flight_loads (sys_map s)),
      waiter_counters := waiter_counters (sys_map s) @ [1]\<rparr>,
    live := live s @ [handle_for key g load (length (waiter_counters (sys_map s)))]\<rparr>)"
proof -
  let ?n = "length (waiter_counters (sys_map s))"
  have hs: "handle_attached h \<and> (\<exists>a. handle_waiters h = Some a \<and> a < ?n)" if "h \<in> set (live s)" for h
    using ok that by (auto simp: in_flight_ok_def)
  have fresh: "handles_on (live s) ?n = 0"
    using hs by (intro handles_on_fresh) fastforce
  have cnt: "waiter_counters (sys_map s) ! a = handles_on (live s) a" if "a < ?n" for a
    using ok that by (auto simp: in_flight_ok_def)
  show ?thesis
    using ok fresh unfolding in_flight_ok_def
    by (auto simp: handle_for_def nth_append less_Suc_eq dest!: hs) fastforce+
qed

lemma in_flight_ok_remove:
  "in_flight_ok s \<Longrightarrow> in_flight_ok (s\<lparr>sys_map := (sys_map s)\<lparr>in_flight_loads :=
     bt_remove key (in_flight_loads (sys_map s))\<rparr>\<rparr>)"
  unfolding in_flight_ok_def by (auto split: if_splits)

lemma in_flight_ok_drop:
  assumes "in_flight_ok s" "live s = hs @ h # hs'" "drop_handle h (sys_map s) = (task, m')"
  shows "in_flight_ok (s\<lparr>sys_map := m', live := hs @ hs'\<rparr>)"
proof -
  obtain a where a: "handle_waiters h = Some a" "a < length (waiter_counters (sys_map s))" "handle_attached h"
    using assms(1,2) by (auto simp: in_flight_ok_def)
  then have m': "m' = (sys_map s)\<lparr>waiter_counters := (waiter_counters (sys_map s))
      [a := waiter_counters (sys_map s) ! a - 1]\<rparr>"
    using assms(3) by (auto simp: drop_handle_def Let_def)
  show ?thesis
    using assms(1,2) a(1,2) unfolding in_flight_ok_def m'
    by (auto simp: nth_list_update)
qed

lemma in_flight_ok_tasks: "in_flight_ok (s\<lparr>idle_tasks := ts\<rparr>) \<longleftrightarrow> in_flight_ok s"
  by (simp add: in_flight_ok_def)

lemma in_flight_step_ok: "in_flight_step s s' \<Longrightarrow> in_flight_ok s \<Longrightarrow> in_flight_ok s'"
proof (induction rule: in_flight_step.induct)
  case (join key g s h m')
  then show ?case by (rule in_flight_ok_join [rotated])
next
  case (start key load g s h inserted m')
  then show ?case
    by (cases "get_current key g (sys_map s)")
      (auto simp: insert_or_get_current_def Let_def intro: in_flight_ok_join
          in_flight_ok_start [simplified])
next
  case (finish s key g)
  then show ?case
    by (auto simp: remove_if_generation_matches_def in_flight_ok_remove split: option.splits)
next
  case (drop s hs h hs' task m')
  then show ?case using in_flight_ok_drop in_flight_ok_tasks by fastforce
next
  case (idle s ts key g ts')
  then have "in_flight_ok (s\<lparr>sys_map := remove_if_idle key g (sys_map s)\<rparr>)"
    by (auto simp: remove_if_idle_def in_flight_ok_remove split: option.splits)
  then show ?case using in_flight_ok_tasks by fastforce
qed

lemma in_flight_init_ok: "in_flight_ok in_flight_init"
  by (simp add: in_flight_ok_def in_flight_init_def in_flight_default_def)

lemma in_flight_reachable_ok: "in_flight_step\<^sup>*\<^sup>* in_flight_init s \<Longrightarrow> in_flight_ok s"
  by (induction rule: rtranclp_induct) (auto simp: in_flight_init_ok in_flight_step_ok)

section \<open>Properties\<close>

text \<open>
  C14. Concurrent misses share one load. In every reachable state of the in-flight map and its
  handles, if some handle waits on the load that the map holds for its key, then a caller that
  misses on the same key under the same generations is given that same load and starts no new one
  (unless the waiter count is at the limit of its type), and running the removal task of an idle
  load leaves the load in place.
\<close>
theorem single_flight:
  assumes reach: "in_flight_step\<^sup>*\<^sup>* in_flight_init s"
    and waits: "h \<in> set (live s)" "bt_get (in_flight_loads (sys_map s)) (handle_key h) = Some e"
      "handle_waiters h = Some (entry_waiters e)"
    and room: "length (live s) < usize_max"
  shows "(let (h', inserted, m') = insert_or_get_current (handle_key h) load (handle_generation h) (sys_map s)
      in \<not> inserted \<and> handle_load h' = handle_load h \<and> in_flight_loads m' = in_flight_loads (sys_map s))
    \<and> remove_if_idle (handle_key h) g (sys_map s) = sys_map s"
proof -
  have ok: "in_flight_ok s" using in_flight_reachable_ok [OF reach] .
  let ?c = "waiter_counters (sys_map s) ! entry_waiters e"
  have "?c = handles_on (live s) (entry_waiters e)"
    using ok waits(2) by (auto simp: in_flight_ok_def)
  moreover have "handles_on (live s) (entry_waiters e) \<le> length (live s)"
    by (simp add: handles_on_def)
  moreover have "0 < handles_on (live s) (entry_waiters e)"
    using waits by (auto simp: handles_on_pos)
  ultimately have c: "?c \<noteq> 0" "?c \<noteq> usize_max" using room by auto
  have "handle_generation h = entry_generation e" "handle_load h = entry_load e"
    using ok waits unfolding in_flight_ok_def by blast+
  with waits c show ?thesis
    by (simp add: insert_or_get_current_def get_current_def try_add_waiter_def handle_for_def remove_if_idle_def)
qed

theorem single_flight_witness:
  "let g = snapshot ''k'' [] tag_index_default;
       (h, inserted, m) = insert_or_get_current ''k'' (1::nat) g in_flight_default in
   insert_or_get_current ''k'' 2 g m =
     (h, False, m\<lparr>waiter_counters := [2]\<rparr>)"
proof -
  define g where "g = snapshot ''k'' [] tag_index_default"
  define r where "r = insert_or_get_current ''k'' (1::nat) g in_flight_default"
  define s where "s = in_flight_init\<lparr>sys_map := snd (snd r), live := [fst r]\<rparr>"
  have r: "r = (handle_for ''k'' g 1 0, True,
      \<lparr>in_flight_loads = [(''k'', \<lparr>entry_load = 1, entry_generation = g, entry_waiters = 0\<rparr>)],
       waiter_counters = [1]\<rparr>)"
    by (simp add: r_def insert_or_get_current_def get_current_def in_flight_default_def bt_empty_def)
  have "in_flight_step in_flight_init s"
    using in_flight_step.start [of "''k''" "1::nat" g in_flight_init "fst r" "fst (snd r)" "snd (snd r)"]
    by (simp add: s_def r_def in_flight_init_def)
  then have "in_flight_step\<^sup>*\<^sup>* in_flight_init s" by blast
  from single_flight [OF this, of "handle_for ''k'' g 1 0"
      "\<lparr>entry_load = 1, entry_generation = g, entry_waiters = 0\<rparr>" 2 g]
  have "\<not> fst (snd (insert_or_get_current ''k'' 2 g (snd (snd r))))"
    by (simp add: s_def r handle_for_def usize_max_def Let_def split: prod.splits)
  then show ?thesis
    unfolding Let_def g_def [symmetric] r_def [symmetric]
    by (simp add: r insert_or_get_current_def get_current_def try_add_waiter_def usize_max_def handle_for_def)
qed

end
