(* ===== verification/Memory_Footprint.thy ===== *)
theory Memory_Footprint
  imports Prelude
begin

text \<open>
  The retained-byte estimate of \<open>hydracache/src/memory_footprint.rs\<close>, which every insertion into the
  cache computes and which rejects the insertion when a sum leaves 64 bits. The sizes of the two
  Rust structs in it are compiler layout and are parameters. Shown: the estimate succeeds exactly
  when the true sums fit and is then the true sum.
\<close>

section \<open>Estimate\<close>

definition PRIMARY_INDEX_METADATA_BYTES :: u64 where
  "PRIMARY_INDEX_METADATA_BYTES = 96"

definition TAG_INDEX_MEMBERSHIP_METADATA_BYTES :: u64 where
  "TAG_INDEX_MEMBERSHIP_METADATA_BYTES = 64"

definition EXPIRY_SCHEDULER_METADATA_BYTES :: u64 where
  "EXPIRY_SCHEDULER_METADATA_BYTES = 32"

record layout =
  size_of_cache_entry :: usize
  size_of_string :: usize

datatype retained_byte_estimate_error =
    Overflow string
  | MokaWeightUnrepresentable u64

record retained_byte_estimate =
  est_encoded_key_bytes :: u64
  est_value_bytes :: u64
  est_cache_entry_bytes :: u64
  est_primary_index_bytes :: u64
  est_tag_vector_bytes :: u64
  est_tag_string_bytes :: u64
  est_tag_index_bytes :: u64
  est_expiry_bytes :: u64
  est_total_bytes :: u64

definition usize_to_u64 :: "usize \<Rightarrow> string \<Rightarrow> retained_byte_estimate_error + u64" where
  "usize_to_u64 v component = (if v < 2 ^ 64 then Inr (of_nat v) else Inl (Overflow component))"

definition estimate_add :: "u64 \<Rightarrow> u64 \<Rightarrow> string \<Rightarrow> retained_byte_estimate_error + u64" where
  "estimate_add l r component = ok_or (Overflow component) (checked_add l r)"

definition estimate_mul :: "u64 \<Rightarrow> u64 \<Rightarrow> string \<Rightarrow> retained_byte_estimate_error + u64" where
  "estimate_mul l r component = ok_or (Overflow component) (checked_mul l r)"

definition estimate_tag :: "u64 \<Rightarrow> u64 \<times> u64 \<Rightarrow> string \<Rightarrow> retained_byte_estimate_error + (u64 \<times> u64)" where
  "estimate_tag key_bytes = (\<lambda>(tag_string_bytes, tag_index_bytes) tag.
     result_bind (usize_to_u64 (length tag) ''tag_string_bytes'') (\<lambda>tag_bytes.
     result_bind (estimate_add tag_string_bytes tag_bytes ''tag_string_bytes'') (\<lambda>tag_string_bytes.
     result_bind (estimate_add TAG_INDEX_MEMBERSHIP_METADATA_BYTES key_bytes ''tag_index_bytes'') (\<lambda>membership.
     result_bind (estimate_add membership tag_bytes ''tag_index_bytes'') (\<lambda>membership.
     result_bind (estimate_add tag_index_bytes membership ''tag_index_bytes'') (\<lambda>tag_index_bytes.
     Inr (tag_string_bytes, tag_index_bytes)))))))"

definition for_entry :: "layout \<Rightarrow> string \<Rightarrow> usize \<Rightarrow> string list \<Rightarrow> bool
    \<Rightarrow> retained_byte_estimate_error + retained_byte_estimate" where
  "for_entry lay key value_bytes tags expires =
     result_bind (usize_to_u64 (length key) ''encoded_key_bytes'') (\<lambda>key_bytes.
     result_bind (usize_to_u64 value_bytes ''value_bytes'') (\<lambda>value_bytes.
     result_bind (usize_to_u64 (size_of_cache_entry lay) ''cache_entry_bytes'') (\<lambda>cache_entry_bytes.
     result_bind (usize_to_u64 (length tags) ''tag_count'') (\<lambda>tag_count.
     result_bind (usize_to_u64 (size_of_string lay) ''string_header'') (\<lambda>string_header.
     result_bind (estimate_mul tag_count string_header ''tag_vector_bytes'') (\<lambda>tag_vector_bytes.
     result_bind (try_fold (estimate_tag key_bytes) (0, 0) tags) (\<lambda>(tag_string_bytes, tag_index_bytes).
     let expiry_bytes = of_bool expires * EXPIRY_SCHEDULER_METADATA_BYTES in
     result_bind (try_fold (\<lambda>total component. estimate_add total component ''total_bytes'') 0
       [key_bytes, value_bytes, cache_entry_bytes, PRIMARY_INDEX_METADATA_BYTES, tag_vector_bytes,
        tag_string_bytes, tag_index_bytes, expiry_bytes]) (\<lambda>total_bytes.
     Inr \<lparr>est_encoded_key_bytes = key_bytes, est_value_bytes = value_bytes,
       est_cache_entry_bytes = cache_entry_bytes, est_primary_index_bytes = PRIMARY_INDEX_METADATA_BYTES,
       est_tag_vector_bytes = tag_vector_bytes, est_tag_string_bytes = tag_string_bytes,
       est_tag_index_bytes = tag_index_bytes, est_expiry_bytes = expiry_bytes,
       est_total_bytes = total_bytes\<rparr>))))))))"

definition tag_retained_bytes :: "retained_byte_estimate \<Rightarrow> retained_byte_estimate_error + u64" where
  "tag_retained_bytes est =
     try_fold (\<lambda>total component. estimate_add total component ''tag_retained_bytes'') 0
       [est_tag_vector_bytes est, est_tag_string_bytes est, est_tag_index_bytes est]"

definition try_moka_weight :: "retained_byte_estimate \<Rightarrow> retained_byte_estimate_error + u32" where
  "try_moka_weight est =
     (if est_total_bytes est < 2 ^ 32 then Inr (ucast (est_total_bytes est))
      else Inl (MokaWeightUnrepresentable (est_total_bytes est)))"

record entry_memory_delta =
  d_entries :: u64
  d_key_bytes :: u64
  d_value_bytes :: u64
  d_tag_memberships :: u64
  d_tag_string_bytes :: u64
  d_expiry_records :: u64
  d_estimated_retained_bytes :: u64
  d_estimated_tag_retained_bytes :: u64

definition entry_memory_delta_new :: "layout \<Rightarrow> string \<Rightarrow> usize \<Rightarrow> string list \<Rightarrow> bool
    \<Rightarrow> retained_byte_estimate_error + entry_memory_delta" where
  "entry_memory_delta_new lay key value_bytes tags expires =
     result_bind (for_entry lay key value_bytes tags expires) (\<lambda>est.
     result_bind (usize_to_u64 (length tags) ''tag_memberships'') (\<lambda>memberships.
     result_bind (tag_retained_bytes est) (\<lambda>tag_retained.
     Inr \<lparr>d_entries = 1, d_key_bytes = est_encoded_key_bytes est, d_value_bytes = est_value_bytes est,
       d_tag_memberships = memberships, d_tag_string_bytes = est_tag_string_bytes est,
       d_expiry_records = of_bool expires, d_estimated_retained_bytes = est_total_bytes est,
       d_estimated_tag_retained_bytes = tag_retained\<rparr>)))"

section \<open>Exactness\<close>

text \<open>
  Every step of the computation is checked: with a bound \<open>T\<close> on all the exact values, a step either
  satisfies its specification or reports an overflow, and then \<open>T\<close> needs more than 64 bits.
\<close>

definition checked :: "nat \<Rightarrow> ('a \<Rightarrow> bool) \<Rightarrow> retained_byte_estimate_error + 'a \<Rightarrow> bool" where
  "checked T Q r \<longleftrightarrow> (case r of Inr x \<Rightarrow> Q x | Inl e \<Rightarrow> 2 ^ 64 \<le> T \<and> (\<exists>c. e = Overflow c))"

lemma checked_Inr [simp]: "checked T Q (Inr x) \<longleftrightarrow> Q x"
  by (simp add: checked_def)

lemma checked_bind:
  "checked T Q r \<Longrightarrow> (\<And>x. Q x \<Longrightarrow> checked T Q' (f x)) \<Longrightarrow> checked T Q' (result_bind r f)"
  by (cases r) (auto simp: checked_def)

lemma checked_usize: "n \<le> T \<or> n < 2 ^ 64 \<Longrightarrow> checked T (\<lambda>w. unat w = n) (usize_to_u64 n c)"
  by (auto simp: checked_def usize_to_u64_def unat_of_nat)

lemma checked_estimate_add:
  "unat a + unat b \<le> T \<Longrightarrow> checked T (\<lambda>w. unat w = unat a + unat b) (estimate_add a b c)"
  by (auto simp: checked_def estimate_add_def ok_or_def checked_add_def le_add_iff unat_word_ariths
      split: if_splits)

lemma checked_estimate_mul:
  assumes "unat a * unat b \<le> T"
  shows "checked T (\<lambda>w. unat w = unat a * unat b) (estimate_mul a b c)"
proof -
  have "uint a * uint b < 2 ^ 64 \<longleftrightarrow> int (unat a * unat b) < int (2 ^ 64)" by simp
  also have "\<dots> \<longleftrightarrow> unat a * unat b < 2 ^ 64" by (rule of_nat_less_iff)
  finally have "uint a * uint b < 2 ^ 64 \<longleftrightarrow> unat a * unat b < 2 ^ 64" .
  with assms show ?thesis
    by (auto simp: checked_def estimate_mul_def ok_or_def checked_mul_def unat_word_ariths
        split: if_splits)
qed

lemma checked_sum:
  "unat t + sum_list (map unat cs) \<le> T \<Longrightarrow>
    checked T (\<lambda>w. unat w = unat t + sum_list (map unat cs)) (try_fold (\<lambda>total x. estimate_add total x c) t cs)"
proof (induction cs arbitrary: t)
  case (Cons x cs)
  have "checked T (\<lambda>w. unat w = unat t + sum_list (map unat (x # cs)))
      (try_fold (\<lambda>total x. estimate_add total x c) w cs)" if "unat w = unat t + unat x" for w
    using Cons.IH [of w] Cons.prems that by (simp add: add.assoc)
  then show ?case
    unfolding try_fold.simps
    by (rule checked_bind [OF checked_estimate_add, rotated]) (use Cons.prems in auto)
qed simp

definition tag_index_weight :: "nat \<Rightarrow> string list \<Rightarrow> nat" where
  "tag_index_weight key_bytes tags = sum_list (map (\<lambda>tag. 64 + key_bytes + length tag) tags)"

lemma tag_index_weight_simps [simp]:
  "tag_index_weight kb [] = 0"
  "tag_index_weight kb (tag # tags) = 64 + kb + length tag + tag_index_weight kb tags"
  by (simp_all add: tag_index_weight_def)

lemma checked_tag:
  assumes "unat a + length tag \<le> T" "unat b + (64 + unat kb + length tag) \<le> T"
  shows "checked T (\<lambda>(a', b'). unat a' = unat a + length tag \<and> unat b' = unat b + (64 + unat kb + length tag))
    (estimate_tag kb (a, b) tag)"
proof -
  have 64: "unat TAG_INDEX_MEMBERSHIP_METADATA_BYTES = 64"
    by (simp add: TAG_INDEX_MEMBERSHIP_METADATA_BYTES_def)
  show ?thesis
    unfolding estimate_tag_def prod.case
    apply (rule checked_bind [OF checked_usize], use assms in simp)
    apply (rule checked_bind [OF checked_estimate_add], use assms in simp)
    apply (rule checked_bind [OF checked_estimate_add], use assms in \<open>simp add: 64\<close>)
    apply (rule checked_bind [OF checked_estimate_add], use assms in \<open>simp add: 64\<close>)
    apply (rule checked_bind [OF checked_estimate_add], use assms in \<open>simp add: 64\<close>)
    apply (simp add: 64)
    done
qed

lemma checked_tags:
  "unat a + sum_list (map length tags) \<le> T \<Longrightarrow> unat b + tag_index_weight (unat kb) tags \<le> T \<Longrightarrow>
    checked T (\<lambda>(a', b'). unat a' = unat a + sum_list (map length tags)
        \<and> unat b' = unat b + tag_index_weight (unat kb) tags)
      (try_fold (estimate_tag kb) (a, b) tags)"
proof (induction tags arbitrary: a b)
  case (Cons tag tags)
  show ?case
    unfolding try_fold.simps
  proof (rule checked_bind [OF checked_tag])
    fix ab :: "u64 \<times> u64"
    assume "case ab of (a', b') \<Rightarrow> unat a' = unat a + length tag \<and> unat b' = unat b + (64 + unat kb + length tag)"
    then show "checked T (\<lambda>(a', b'). unat a' = unat a + sum_list (map length (tag # tags))
        \<and> unat b' = unat b + tag_index_weight (unat kb) (tag # tags)) (try_fold (estimate_tag kb) ab tags)"
      using Cons.IH [of "fst ab" "snd ab"] Cons.prems by (cases ab) (simp add: add.assoc)
  qed (use Cons.prems in auto)
qed simp

definition exact_retained_bytes :: "layout \<Rightarrow> string \<Rightarrow> usize \<Rightarrow> string list \<Rightarrow> bool \<Rightarrow> nat" where
  "exact_retained_bytes lay key value_bytes tags expires =
     length key + value_bytes + size_of_cache_entry lay + 96 + length tags * size_of_string lay
     + sum_list (map length tags) + tag_index_weight (length key) tags + (if expires then 32 else 0)"

lemma length_le_tag_index_weight: "length tags \<le> tag_index_weight kb tags"
  by (induction tags) auto

lemma checked_for_entry:
  assumes "size_of_string lay < 2 ^ 64"
  shows "checked (exact_retained_bytes lay key vb tags ex)
    (\<lambda>est. unat (est_total_bytes est) = exact_retained_bytes lay key vb tags ex)
    (for_entry lay key vb tags ex)"
proof -
  let ?T = "exact_retained_bytes lay key vb tags ex"
  have T: "length key \<le> ?T" "vb \<le> ?T" "size_of_cache_entry lay \<le> ?T" "length tags \<le> ?T"
    "length tags * size_of_string lay \<le> ?T" "sum_list (map length tags) \<le> ?T" "tag_index_weight (length key) tags \<le> ?T"
    using length_le_tag_index_weight [of tags "length key"] by (auto simp: exact_retained_bytes_def)
  have ex: "unat (of_bool ex * EXPIRY_SCHEDULER_METADATA_BYTES) = (if ex then 32 else 0)"
    by (simp add: EXPIRY_SCHEDULER_METADATA_BYTES_def)
  have pi: "unat PRIMARY_INDEX_METADATA_BYTES = 96"
    by (simp add: PRIMARY_INDEX_METADATA_BYTES_def)
  show ?thesis
    unfolding for_entry_def Let_def
    apply (rule checked_bind [OF checked_usize], simp add: T(1))
    apply (rule checked_bind [OF checked_usize], simp add: T(2))
    apply (rule checked_bind [OF checked_usize], simp add: T(3))
    apply (rule checked_bind [OF checked_usize], simp add: T(4))
    apply (rule checked_bind [OF checked_usize], rule disjI2, rule assms)
    apply (rule checked_bind [OF checked_estimate_mul], simp add: T(5))
    apply (rule checked_bind [OF checked_tags], simp add: T(6), simp add: T(7))
    apply (simp only: split_paired_all prod.case)
    apply (rule checked_bind [OF checked_sum])
     apply (simp_all only: list.map sum_list.Cons sum_list.Nil ex pi checked_Inr
        retained_byte_estimate.simps)
     apply (simp_all add: exact_retained_bytes_def)
    done
qed

text \<open>
  The retained-byte estimate of an entry is exact or refused. The estimator returns the total of
  key, value, entry, index, tag and expiry bytes as unbounded arithmetic gives it, and it returns an
  overflow error exactly when that total does not fit in 64 bits; no intermediate sum or product
  fails earlier or wraps.
\<close>
lemma retained_byte_estimate_exact:
  assumes "size_of_string lay < 2 ^ 64"
  shows "(case for_entry lay key vb tags ex of
       Inr est \<Rightarrow> exact_retained_bytes lay key vb tags ex < 2 ^ 64
         \<and> unat (est_total_bytes est) = exact_retained_bytes lay key vb tags ex
     | Inl e \<Rightarrow> 2 ^ 64 \<le> exact_retained_bytes lay key vb tags ex \<and> (\<exists>c. e = Overflow c))"
proof (cases "for_entry lay key vb tags ex")
  case (Inr est)
  then show ?thesis
    using checked_for_entry [OF assms, of key vb tags ex] unat_bound [of "est_total_bytes est"]
    by (simp add: checked_def)
qed (use checked_for_entry [OF assms, of key vb tags ex] in \<open>simp add: checked_def\<close>)

theorem retained_byte_estimate_exact_witness:
  "\<exists>est. for_entry \<lparr>size_of_cache_entry = 72, size_of_string = 24\<rparr> ''user:1'' 10 [''users''] True = Inr est
    \<and> unat (est_total_bytes est) = 320"
  using retained_byte_estimate_exact [of "\<lparr>size_of_cache_entry = 72, size_of_string = 24\<rparr>" "''user:1''" 10 "[''users'']" True]
  by (auto simp: exact_retained_bytes_def split: sum.splits)

end
