(* ===== verification/Local_Cache.thy ===== *)
theory Local_Cache
  imports Tag_Index Load_Breaker In_Flight Memory_Footprint "HOL-Library.Monad_Syntax"
begin

text \<open>
  The local cache of \<open>hydracache/src/cache.rs\<close> and its entries (\<open>entry.rs\<close>): reads, writes,
  invalidation by key, by tag and of everything, loads that share one execution and are fenced by
  generations, and remote invalidations.

  The entry store is the third-party concurrent cache the crate builds on, so it is a parameter:
  the record \<open>store_ops\<close> of its operations, about which theorems assume at most \<open>store_laws\<close> (what
  is read back is what was last written, unless it was evicted; an invalidated key is absent). The
  codec is a parameter as well. The model is of the default instrumentation mode, in which the
  builder attaches no removal observer and the memory counters are inert; the size estimate every
  insertion computes is modelled. Each function is one call of the source run to completion; what
  may happen between the parts of a load is a history of such calls. A panic of the tag index is the result \<open>None\<close>,
  an error of the call is \<open>Inl\<close>. Clock readings are arguments.
\<close>

section \<open>Entries\<close>

record cache_entry =
  entry_value :: bytes
  entry_tags :: "string list"
  expires_at :: "instant option"
  entry_version :: u64

definition is_expired :: "instant \<Rightarrow> cache_entry \<Rightarrow> bool" where
  "is_expired now e = (case expires_at e of Some t \<Rightarrow> t \<le> now | None \<Rightarrow> False)"

definition stale_window_contains_now :: "instant \<Rightarrow> duration \<Rightarrow> cache_entry \<Rightarrow> bool" where
  "stale_window_contains_now now window e =
    (case Option.bind (expires_at e) (\<lambda>t. instant_checked_add t window) of
       Some stale_until \<Rightarrow> now < stale_until | None \<Rightarrow> False)"

definition refresh_ahead_due :: "instant \<Rightarrow> duration \<Rightarrow> cache_entry \<Rightarrow> bool" where
  "refresh_ahead_due now threshold e =
    (case expires_at e of Some t \<Rightarrow> t \<le> now \<or> t - now \<le> threshold | None \<Rightarrow> False)"

definition entry_in_stale_window :: "instant \<Rightarrow> cache_entry \<Rightarrow> duration option \<Rightarrow> bool" where
  "entry_in_stale_window now e window =
    (case window of Some w \<Rightarrow> stale_window_contains_now now w e | None \<Rightarrow> False)"

record cache_options =
  opt_ttl :: "duration option"
  opt_tags :: "string list"

record refresh_options =
  stale_while_revalidate :: "duration option"
  stale_on_loader_error :: "duration option"
  refresh_ahead :: "duration option"
  serve_stale_on_loader_error :: bool

definition stale_on_loader_error_window :: "refresh_options \<Rightarrow> duration option" where
  "stale_on_loader_error_window r =
    (if \<not> serve_stale_on_loader_error r then None
     else (case stale_on_loader_error r of Some w \<Rightarrow> Some w | None \<Rightarrow> stale_while_revalidate r))"

section \<open>The store, a parameter\<close>

record 's store_ops =
  store_get :: "'s \<Rightarrow> string \<Rightarrow> cache_entry option"
  store_insert :: "string \<Rightarrow> cache_entry \<Rightarrow> 's \<Rightarrow> 's"
  store_invalidate :: "string \<Rightarrow> 's \<Rightarrow> 's"
  store_invalidate_all :: "'s \<Rightarrow> 's"
  store_run_pending_tasks :: "'s \<Rightarrow> 's"
  store_entry_count :: "'s \<Rightarrow> u64"

text \<open>
  What the code relies on: an operation may evict any entry, but it never makes an entry appear
  other than the one it inserts, and it removes the key it invalidates.
\<close>

definition store_shrinks :: "'s store_ops \<Rightarrow> 's \<Rightarrow> 's \<Rightarrow> bool" where
  "store_shrinks S s s' \<longleftrightarrow> (\<forall>k. store_get S s' k = store_get S s k \<or> store_get S s' k = None)"

definition store_laws :: "'s store_ops \<Rightarrow> bool" where
  "store_laws S \<longleftrightarrow>
    (\<forall>s k e k'. store_get S (store_insert S k e s) k' \<in> {if k' = k then Some e else store_get S s k', None})
    \<and> (\<forall>s k. store_get S (store_invalidate S k s) k = None \<and> store_shrinks S s (store_invalidate S k s))
    \<and> (\<forall>s k. store_get S (store_invalidate_all S s) k = None)
    \<and> (\<forall>s. store_shrinks S s (store_run_pending_tasks S s))"

section \<open>The cache\<close>

datatype cache_invalidation = InvalidateKey string | InvalidateTag string | InvalidateAll

record cache_invalidation_message =
  msg_source_id :: string
  msg_source_generation :: "u64 option"
  msg_invalidation :: cache_invalidation

text \<open>
  The invalidation bus and the cluster runtime are reached through traits and sockets: the model
  keeps what was handed to the bus, and takes what they answer as arguments.
\<close>

record ('s, 'f) hydra_cache =
  cache_store :: 's
  tag_index_of :: tag_index
  in_flight :: "'f in_flight_map"
  default_ttl :: duration
  max_entry_bytes :: usize
  cache_stats :: stats_counters
  cache_events :: event_bus
  load_breaker_of :: load_breaker_registry
  next_entry_version_of :: u64
  invalidation_node_id :: string
  bus_attached :: bool
  bus_published :: "cache_invalidation_message list"

record bus_io =
  runtime_generation :: "(cache_error + u64) option"
  bus_publish_result :: "cache_error + unit"

type_synonym ('s, 'f, 'a) call = "(cache_error + 'a) \<times> ('s, 'f) hydra_cache"

abbreviation bump :: "((u64 \<Rightarrow> u64) \<Rightarrow> stats_counters \<Rightarrow> stats_counters) \<Rightarrow> ('s, 'f) hydra_cache \<Rightarrow> ('s, 'f) hydra_cache" where
  "bump upd c \<equiv> c\<lparr>cache_stats := upd (\<lambda>n. n + 1) (cache_stats c)\<rparr>"

subsection \<open>Events\<close>

definition publish_event :: "cache_event \<Rightarrow> ('s, 'f) hydra_cache \<Rightarrow> ('s, 'f) hydra_cache" where
  "publish_event ev c = (case publish ev (cache_events c, cache_stats c) of
     (bus, stats) \<Rightarrow> c\<lparr>cache_events := bus, cache_stats := stats\<rparr>)"

definition publish_key_event :: "cache_event_kind \<Rightarrow> string \<Rightarrow> cache_event_origin \<Rightarrow> string list
    \<Rightarrow> ('s, 'f) hydra_cache \<Rightarrow> ('s, 'f) hydra_cache" where
  "publish_key_event kind key origin tags c =
    (if \<not> may_publish (cache_events c) kind then c else publish_event (for_key kind key origin tags) c)"

definition event_tags_if_observed :: "cache_event_kind \<Rightarrow> string list \<Rightarrow> ('s, 'f) hydra_cache \<Rightarrow> string list option" where
  "event_tags_if_observed kind tags c = (if may_publish (cache_events c) kind then Some tags else None)"

definition publish_key_event_with_prepared_tags :: "cache_event_kind \<Rightarrow> string \<Rightarrow> cache_event_origin
    \<Rightarrow> string list option \<Rightarrow> ('s, 'f) hydra_cache \<Rightarrow> ('s, 'f) hydra_cache" where
  "publish_key_event_with_prepared_tags kind key origin tags c =
    (case tags of Some tags \<Rightarrow> publish_key_event kind key origin tags c | None \<Rightarrow> c)"

definition publish_tag_event :: "cache_event_kind \<Rightarrow> string \<Rightarrow> u64 \<Rightarrow> cache_event_origin
    \<Rightarrow> ('s, 'f) hydra_cache \<Rightarrow> ('s, 'f) hydra_cache" where
  "publish_tag_event kind tag affected origin c =
    (if \<not> may_publish (cache_events c) kind then c else publish_event (for_tag kind tag affected origin) c)"

definition publish_cache_event :: "cache_event_kind \<Rightarrow> u64 option \<Rightarrow> cache_event_origin
    \<Rightarrow> ('s, 'f) hydra_cache \<Rightarrow> ('s, 'f) hydra_cache" where
  "publish_cache_event kind affected origin c =
    (if \<not> may_publish (cache_events c) kind then c else publish_event (for_cache kind affected origin) c)"

definition record_miss :: "string \<Rightarrow> string list \<Rightarrow> ('s, 'f) hydra_cache \<Rightarrow> ('s, 'f) hydra_cache" where
  "record_miss key tags c = publish_key_event Miss key LocalApi tags (bump misses_update c)"

subsection \<open>Removal\<close>

definition remove_entry :: "'s store_ops \<Rightarrow> string \<Rightarrow> cache_entry \<Rightarrow> ('s, 'f) hydra_cache
    \<Rightarrow> ('s, 'f) hydra_cache option" where
  "remove_entry S key e c = do {
     let c = c\<lparr>cache_store := store_invalidate S key (cache_store c)\<rparr>;
     ix \<leftarrow> unregister key (entry_tags e) (tag_index_of c);
     Some (c\<lparr>tag_index_of := ix\<rparr>)
   }"

definition remove_expired :: "'s store_ops \<Rightarrow> string \<Rightarrow> cache_entry \<Rightarrow> ('s, 'f) hydra_cache
    \<Rightarrow> ('s, 'f) hydra_cache option" where
  "remove_expired S key e c = do {
     c \<leftarrow> remove_entry S key e c;
     Some (publish_key_event Expired key BackendOrigin (entry_tags e) c)
   }"

definition remove_with_event :: "'s store_ops \<Rightarrow> string \<Rightarrow> cache_event_kind \<Rightarrow> cache_event_origin
    \<Rightarrow> ('s, 'f) hydra_cache \<Rightarrow> (bool \<times> ('s, 'f) hydra_cache) option" where
  "remove_with_event S key kind origin c = do {
     ix \<leftarrow> advance_key key (tag_index_of c);
     let c = c\<lparr>tag_index_of := ix\<rparr>;
     (case store_get S (cache_store c) key of
        None \<Rightarrow> Some (False, c)
      | Some e \<Rightarrow> do {
          c \<leftarrow> remove_entry S key e c;
          Some (True, publish_key_event kind key origin (entry_tags e) (bump invalidations_update c))
        })
   }"

subsection \<open>Reads\<close>

definition cache_get :: "'s store_ops \<Rightarrow> (bytes \<Rightarrow> cache_error + 't) \<Rightarrow> instant \<Rightarrow> string \<Rightarrow> ('s, 'f) hydra_cache
    \<Rightarrow> ('s, 'f, 't option) call option" where
  "cache_get S dec now key c =
    (case store_get S (cache_store c) key of
       Some e \<Rightarrow>
         if is_expired now e then do {
           c \<leftarrow> remove_expired S key e c;
           Some (Inr None, publish_key_event Miss key LocalApi (entry_tags e) (bump misses_update c))
         }
         else (case dec (entry_value e) of
             Inr v \<Rightarrow> Some (Inr (Some v), publish_key_event Hit key LocalApi (entry_tags e) (bump hits_update c))
           | Inl err \<Rightarrow> do {
               c \<leftarrow> remove_entry S key e c;
               Some (Inl err, publish_key_event Miss key LocalApi (entry_tags e) (bump misses_update c))
             })
     | None \<Rightarrow> Some (Inr None, publish_key_event Miss key LocalApi [] (bump misses_update c)))"

definition get_encoded :: "'s store_ops \<Rightarrow> instant \<Rightarrow> string \<Rightarrow> ('s, 'f) hydra_cache
    \<Rightarrow> ('s, 'f, bytes option) call option" where
  "get_encoded S now key c =
    (case store_get S (cache_store c) key of
       Some e \<Rightarrow>
         if is_expired now e then do {
           c \<leftarrow> remove_expired S key e c;
           Some (Inr None, publish_key_event Miss key LocalApi (entry_tags e) (bump misses_update c))
         }
         else Some (Inr (Some (entry_value e)),
                    publish_key_event Hit key LocalApi (entry_tags e) (bump hits_update c))
     | None \<Rightarrow> Some (Inr None, publish_key_event Miss key LocalApi [] (bump misses_update c)))"

definition contains_key :: "'s store_ops \<Rightarrow> instant \<Rightarrow> string \<Rightarrow> ('s, 'f) hydra_cache
    \<Rightarrow> (bool \<times> ('s, 'f) hydra_cache) option" where
  "contains_key S now key c =
    (case store_get S (cache_store c) key of
       Some e \<Rightarrow>
         if is_expired now e then do { c \<leftarrow> remove_expired S key e c; Some (False, c) }
         else Some (True, c)
     | None \<Rightarrow> Some (False, c))"

subsection \<open>Writes\<close>

definition exceeds_max_entry_bytes :: "usize \<Rightarrow> ('s, 'f) hydra_cache \<Rightarrow> bool" where
  "exceeds_max_entry_bytes len c \<longleftrightarrow> max_entry_bytes c < len"

definition oversize_rejection_error :: "usize \<Rightarrow> ('s, 'f) hydra_cache \<Rightarrow> cache_error \<times> ('s, 'f) hydra_cache" where
  "oversize_rejection_error len c =
    (Backend (''encoded cache entry is '' @ decimal len @ '' bytes, exceeding max_entry_bytes='' @
        decimal (max_entry_bytes c)),
     bump oversize_rejections_update c)"

fun estimate_error_text :: "retained_byte_estimate_error \<Rightarrow> string" where
  "estimate_error_text (Overflow component) = ''retained-byte estimate overflow in '' @ component"
| "estimate_error_text (MokaWeightUnrepresentable n) =
    ''retained-byte estimate '' @ decimal (unat n) @ '' exceeds the Moka u32 weight boundary''"

definition next_entry_version :: "('s, 'f) hydra_cache \<Rightarrow> ('s, 'f, u64) call" where
  "next_entry_version c =
    (case checked_add (next_entry_version_of c) 1 of
       None \<Rightarrow> (Inl (Backend ''cache entry version overflow''), c)
     | Some v \<Rightarrow> (Inr (next_entry_version_of c), c\<lparr>next_entry_version_of := v\<rparr>))"

definition put_bytes_unchecked :: "'s store_ops \<Rightarrow> layout \<Rightarrow> instant \<Rightarrow> string \<Rightarrow> bytes \<Rightarrow> cache_options
    \<Rightarrow> cache_event_origin \<Rightarrow> ('s, 'f) hydra_cache \<Rightarrow> ('s, 'f, unit) call option" where
  "put_bytes_unchecked S lay now key value opts origin c =
    (if exceeds_max_entry_bytes (length value) c
     then (case oversize_rejection_error (length value) c of (err, c) \<Rightarrow> Some (Inl err, c))
     else
       let ttl = (case opt_ttl opts of Some t \<Rightarrow> t | None \<Rightarrow> default_ttl c);
           tags = opt_tags opts;
           expires = instant_checked_add now ttl
       in (case next_entry_version c of
             (Inl err, c) \<Rightarrow> Some (Inl err, c)
           | (Inr version, c) \<Rightarrow>
               (case entry_memory_delta_new lay key (length value) tags (expires \<noteq> None) of
                  Inl err \<Rightarrow> Some (Inl (Backend (estimate_error_text err)), c)
                | Inr delta \<Rightarrow> do {
                    let e = \<lparr>entry_value = value, entry_tags = tags, expires_at = expires, entry_version = version\<rparr>;
                    ix \<leftarrow> (case store_get S (cache_store c) key of
                            Some old \<Rightarrow> unregister key (entry_tags old) (tag_index_of c)
                          | None \<Rightarrow> Some (tag_index_of c));
                    let c = c\<lparr>tag_index_of := ix, cache_store := store_insert S key e (cache_store c)\<rparr>;
                    ix \<leftarrow> register key tags version (tag_index_of c);
                    Some (Inr (), publish_key_event Stored key origin tags (c\<lparr>tag_index_of := ix\<rparr>))
                  })))"

definition put_bytes :: "'s store_ops \<Rightarrow> layout \<Rightarrow> instant \<Rightarrow> string \<Rightarrow> bytes \<Rightarrow> cache_options
    \<Rightarrow> ('s, 'f) hydra_cache \<Rightarrow> ('s, 'f, unit) call option" where
  "put_bytes S lay now key value opts c = put_bytes_unchecked S lay now key value opts LocalApi c"

definition cache_put :: "'s store_ops \<Rightarrow> layout \<Rightarrow> ('t \<Rightarrow> cache_error + bytes) \<Rightarrow> instant \<Rightarrow> string \<Rightarrow> 't
    \<Rightarrow> cache_options \<Rightarrow> ('s, 'f) hydra_cache \<Rightarrow> ('s, 'f, unit) call option" where
  "cache_put S lay enc now key v opts c =
    (case enc v of Inl err \<Rightarrow> Some (Inl err, c) | Inr value \<Rightarrow> put_bytes S lay now key value opts c)"

definition put_bytes_if_fresh :: "'s store_ops \<Rightarrow> layout \<Rightarrow> instant \<Rightarrow> string \<Rightarrow> bytes \<Rightarrow> cache_options
    \<Rightarrow> load_generation_snapshot \<Rightarrow> ('s, 'f) hydra_cache \<Rightarrow> ('s, 'f, bool) call option" where
  "put_bytes_if_fresh S lay now key value opts generation c =
    (if exceeds_max_entry_bytes (length value) c then Some (Inr False, bump oversize_rejections_update c)
     else if \<not> is_current generation (tag_index_of c) then
       Some (Inr False, publish_key_event StaleLoadDiscarded key LoaderOrigin (opt_tags opts)
               (bump stale_load_discards_update c))
     else do {
       (r, c) \<leftarrow> put_bytes_unchecked S lay now key value opts LoaderOrigin c;
       Some ((case r of Inl err \<Rightarrow> Inl err | Inr _ \<Rightarrow> Inr True), c)
     })"

subsection \<open>Invalidation\<close>

definition publish_invalidation :: "bus_io \<Rightarrow> cache_invalidation \<Rightarrow> ('s, 'f) hydra_cache \<Rightarrow> ('s, 'f, unit) call" where
  "publish_invalidation io what c =
    (if \<not> bus_attached c then (Inr (), c)
     else
       (case runtime_generation io of
          Some (Inl err) \<Rightarrow> (Inl err, bump distributed_invalidation_publish_failures_update c)
        | rt \<Rightarrow>
            let msg = \<lparr>msg_source_id = invalidation_node_id c,
                       msg_source_generation = (case rt of Some (Inr g) \<Rightarrow> Some g | _ \<Rightarrow> None),
                       msg_invalidation = what\<rparr>
            in (case bus_publish_result io of
                  Inl err \<Rightarrow> (Inl err, bump distributed_invalidation_publish_failures_update c)
                | Inr _ \<Rightarrow> (Inr (), bump distributed_invalidations_published_update
                             (c\<lparr>bus_published := bus_published c @ [msg]\<rparr>)))))"

text \<open>Publishing after a local change: its error replaces the answer of the call.\<close>

definition answer_published :: "bus_io \<Rightarrow> cache_invalidation \<Rightarrow> 'a \<Rightarrow> ('s, 'f) hydra_cache \<Rightarrow> ('s, 'f, 'a) call" where
  "answer_published io what answer c =
    (case publish_invalidation io what c of (r, c) \<Rightarrow> (result_bind r (\<lambda>_. Inr answer), c))"

definition invalidate_key :: "'s store_ops \<Rightarrow> bus_io \<Rightarrow> string \<Rightarrow> ('s, 'f) hydra_cache
    \<Rightarrow> ('s, 'f, bool) call option" where
  "invalidate_key S io key c = do {
     (removed, c) \<leftarrow> remove_with_event S key KeyInvalidated LocalApi c;
     Some (answer_published io (InvalidateKey key) removed c)
   }"

definition cache_remove :: "'s store_ops \<Rightarrow> bus_io \<Rightarrow> string \<Rightarrow> ('s, 'f) hydra_cache
    \<Rightarrow> ('s, 'f, bool) call option" where
  "cache_remove S io key c = do {
     (removed, c) \<leftarrow> remove_with_event S key Removed LocalApi c;
     Some (answer_published io (InvalidateKey key) removed c)
   }"

fun remove_tagged :: "'s store_ops \<Rightarrow> string list \<Rightarrow> u64 \<Rightarrow> ('s, 'f) hydra_cache
    \<Rightarrow> (u64 \<times> ('s, 'f) hydra_cache) option" where
  "remove_tagged S [] removed c = Some (removed, c)"
| "remove_tagged S (key # keys) removed c =
    (case store_get S (cache_store c) key of
       Some e \<Rightarrow> do { c \<leftarrow> remove_entry S key e c; remove_tagged S keys (removed + 1) c }
     | None \<Rightarrow> remove_tagged S keys removed c)"

definition invalidate_tag_with_origin :: "'s store_ops \<Rightarrow> string \<Rightarrow> cache_event_origin
    \<Rightarrow> ('s, 'f) hydra_cache \<Rightarrow> (u64 \<times> ('s, 'f) hydra_cache) option" where
  "invalidate_tag_with_origin S tag origin c = do {
     (keys, ix) \<leftarrow> take_tag tag (tag_index_of c);
     (removed, c) \<leftarrow> remove_tagged S keys 0 (c\<lparr>tag_index_of := ix\<rparr>);
     let c = (if 0 < removed then c\<lparr>cache_stats := invalidations_update (\<lambda>n. n + removed) (cache_stats c)\<rparr> else c);
     Some (removed, publish_tag_event TagInvalidated tag removed origin c)
   }"

definition invalidate_tag :: "'s store_ops \<Rightarrow> bus_io \<Rightarrow> string \<Rightarrow> ('s, 'f) hydra_cache
    \<Rightarrow> ('s, 'f, u64) call option" where
  "invalidate_tag S io tag c = do {
     (removed, c) \<leftarrow> invalidate_tag_with_origin S tag LocalApi c;
     Some (answer_published io (InvalidateTag tag) removed c)
   }"

definition flush_with_origin :: "'s store_ops \<Rightarrow> cache_event_origin \<Rightarrow> ('s, 'f) hydra_cache
    \<Rightarrow> ('s, 'f) hydra_cache option" where
  "flush_with_origin S origin c = do {
     let estimated_entries = store_entry_count S (cache_store c);
     let c = c\<lparr>cache_store := store_run_pending_tasks S (store_invalidate_all S (cache_store c))\<rparr>;
     ix \<leftarrow> clear (tag_index_of c);
     Some (publish_cache_event Flushed (Some estimated_entries) origin (c\<lparr>tag_index_of := ix\<rparr>))
   }"

definition cache_flush :: "'s store_ops \<Rightarrow> bus_io \<Rightarrow> ('s, 'f) hydra_cache \<Rightarrow> ('s, 'f, unit) call option" where
  "cache_flush S io c = do {
     c \<leftarrow> flush_with_origin S LocalApi c;
     Some (publish_invalidation io InvalidateAll c)
   }"

subsection \<open>Remote invalidations\<close>

text \<open>
  The answer of the cluster runtime about the generation of the sender is an argument: \<open>None\<close> when no
  runtime is attached.
\<close>

definition apply_remote_invalidation :: "'s store_ops \<Rightarrow> (string \<Rightarrow> u64 \<Rightarrow> cache_error + unit) option
    \<Rightarrow> cache_invalidation_message \<Rightarrow> ('s, 'f) hydra_cache \<Rightarrow> ('s, 'f, unit) call option" where
  "apply_remote_invalidation S validate msg c =
    (case (case (validate, msg_source_generation msg) of
             (Some v, Some g) \<Rightarrow> v (msg_source_id msg) g | _ \<Rightarrow> Inr ()) of
       Inl err \<Rightarrow> Some (Inl err, c)
     | Inr _ \<Rightarrow> do {
         let c = bump distributed_invalidations_received_update c;
         c \<leftarrow> (case msg_invalidation msg of
                InvalidateKey key \<Rightarrow> map_option snd (remove_with_event S key KeyInvalidated DistributedBus c)
              | InvalidateTag tag \<Rightarrow> map_option snd (invalidate_tag_with_origin S tag DistributedBus c)
              | InvalidateAll \<Rightarrow> flush_with_origin S DistributedBus c);
         Some (Inr (), bump distributed_invalidations_applied_update c)
       })"

datatype cache_invalidation_receive =
    ReceivedMessage cache_invalidation_message
  | ReceivedLagged u64
  | ReceivedClosed
  | ReceivedDecodeError string

text \<open>One turn of the listener loop; the flag is whether the loop goes on.\<close>

fun listener_turn :: "'s store_ops \<Rightarrow> (string \<Rightarrow> u64 \<Rightarrow> cache_error + unit) option \<Rightarrow> cache_invalidation_receive
    \<Rightarrow> ('s, 'f) hydra_cache \<Rightarrow> (bool \<times> ('s, 'f) hydra_cache) option" where
  "listener_turn S validate (ReceivedMessage msg) c =
    (if msg_source_id msg = invalidation_node_id c then Some (True, c)
     else map_option (\<lambda>(_, c). (True, c)) (apply_remote_invalidation S validate msg c))"
| "listener_turn S validate (ReceivedLagged n) c =
    Some (True, c\<lparr>cache_stats := distributed_invalidation_lagged_update (\<lambda>x. x + n) (cache_stats c)\<rparr>)"
| "listener_turn S validate (ReceivedDecodeError err) c =
    Some (True, bump distributed_invalidation_decode_errors_update c)"
| "listener_turn S validate ReceivedClosed c =
    Some (False, bump distributed_invalidation_receiver_closed_update c)"

subsection \<open>Loads\<close>

text \<open>
  A load is three steps of the source: \<open>shared_load\<close> decides who runs the loader, the first poll of
  the shared future announces it (\<open>load_start\<close>), and when the loader has produced its bytes the
  rest of the future stores and reports them (\<open>load_finish\<close>). Other calls may run in between.
\<close>

datatype 'f load_decision =
    LoadShared "'f shared_load_handle"
  | LoadOwned "'f shared_load_handle"
  | LoadRejected cache_error

record load_task =
  task_key :: string
  task_options :: cache_options
  task_generation :: load_generation_snapshot
  task_completed_tags :: "string list option"
  task_failed_tags :: "string list option"

definition load_breaker_open_error :: "string \<Rightarrow> cache_error" where
  "load_breaker_open_error key = Backend (''load breaker open for key '' @ [CHR 0x27] @ key @ [CHR 0x27])"

definition shared_load :: "instant \<Rightarrow> instant \<Rightarrow> string \<Rightarrow> cache_options \<Rightarrow> 'f \<Rightarrow> ('s, 'f) hydra_cache
    \<Rightarrow> 'f load_decision \<times> ('s, 'f) hydra_cache" where
  "shared_load now now' key opts fut c =
    (let generation = snapshot key (opt_tags opts) (tag_index_of c) in
     case get_current key generation (in_flight c) of
       Some (h, m) \<Rightarrow>
         (LoadShared h, publish_key_event SingleFlightJoined key SingleFlight (opt_tags opts)
            (bump single_flight_joins_update (c\<lparr>in_flight := m\<rparr>)))
     | None \<Rightarrow>
         (case before_load now now' key (load_breaker_of c, cache_stats c) of
            (Reject, reg, stats) \<Rightarrow>
              (LoadRejected (load_breaker_open_error key), c\<lparr>load_breaker_of := reg, cache_stats := stats\<rparr>)
          | (Allow, reg, stats) \<Rightarrow>
              (let c = c\<lparr>load_breaker_of := reg, cache_stats := stats\<rparr>;
                   late_join_event_tags = event_tags_if_observed SingleFlightJoined (opt_tags opts) c
               in case insert_or_get_current key fut generation (in_flight c) of
                    (h, inserted, m) \<Rightarrow>
                      let c = c\<lparr>in_flight := m\<rparr> in
                      if inserted then (LoadOwned h, c)
                      else (LoadShared h, publish_key_event_with_prepared_tags SingleFlightJoined key
                              SingleFlight late_join_event_tags (bump single_flight_joins_update c)))))"

definition load_start :: "string \<Rightarrow> cache_options \<Rightarrow> load_generation_snapshot \<Rightarrow> ('s, 'f) hydra_cache
    \<Rightarrow> load_task \<times> ('s, 'f) hydra_cache" where
  "load_start key opts generation c =
    (let started = event_tags_if_observed LoadStarted (opt_tags opts) c;
         task = \<lparr>task_key = key, task_options = opts, task_generation = generation,
           task_completed_tags = event_tags_if_observed LoadCompleted (opt_tags opts) c,
           task_failed_tags = event_tags_if_observed LoadFailed (opt_tags opts) c\<rparr>
     in (task, bump loads_update
          (publish_key_event_with_prepared_tags LoadStarted key LoaderOrigin started c)))"

definition load_store :: "'s store_ops \<Rightarrow> layout \<Rightarrow> instant \<Rightarrow> load_task \<Rightarrow> cache_error + bytes
    \<Rightarrow> ('s, 'f) hydra_cache \<Rightarrow> ('s, 'f, bytes) call option" where
  "load_store S lay now task loaded c =
    (case loaded of
       Inl err \<Rightarrow> Some (Inl err, c)
     | Inr value \<Rightarrow> do {
         (r, c) \<leftarrow> put_bytes_if_fresh S lay now (task_key task) value (task_options task) (task_generation task) c;
         Some (case r of
             Inl err \<Rightarrow> (Inl err, c)
           | Inr accepted \<Rightarrow>
               (Inr value,
                if accepted then publish_key_event_with_prepared_tags LoadCompleted (task_key task) LoaderOrigin
                  (task_completed_tags task) c
                else c))
       })"

definition load_report :: "instant \<Rightarrow> load_task \<Rightarrow> bool \<Rightarrow> ('s, 'f) hydra_cache \<Rightarrow> ('s, 'f) hydra_cache" where
  "load_report now task ok c =
    (let c = (if ok then c
              else publish_key_event_with_prepared_tags LoadFailed (task_key task) LoaderOrigin (task_failed_tags task) c)
     in case after_load_result now (task_key task) ok (load_breaker_of c, cache_stats c) of
          (reg, stats) \<Rightarrow> c\<lparr>load_breaker_of := reg, cache_stats := stats,
            in_flight := remove_if_generation_matches (task_key task) (task_generation task) (in_flight c)\<rparr>)"

definition load_finish :: "'s store_ops \<Rightarrow> layout \<Rightarrow> instant \<Rightarrow> instant \<Rightarrow> load_task \<Rightarrow> cache_error + bytes
    \<Rightarrow> ('s, 'f) hydra_cache \<Rightarrow> ('s, 'f, bytes) call option" where
  "load_finish S lay now now' task loaded c = do {
     (r, c) \<leftarrow> load_store S lay now task loaded c;
     Some (r, load_report now' task (is_ok r) c)
   }"

text \<open>
  A whole load call: \<open>shared\<close> is what the load of another caller ends with when this call joins it.
  The handle is dropped at the end, and its idle-removal task, if any, runs.
\<close>

record clock =
  t_lookup :: instant
  t_window :: instant
  t_fallback :: instant
  t_breaker :: instant
  t_elapsed :: instant
  t_store :: instant
  t_report :: instant

definition drop_load_handle :: "'f shared_load_handle \<Rightarrow> ('s, 'f) hydra_cache \<Rightarrow> ('s, 'f) hydra_cache" where
  "drop_load_handle h c =
    (case drop_handle h (in_flight c) of
       (None, m) \<Rightarrow> c\<lparr>in_flight := m\<rparr>
     | (Some (key, g), m) \<Rightarrow> c\<lparr>in_flight := remove_if_idle key g m\<rparr>)"

definition await_load :: "'s store_ops \<Rightarrow> layout \<Rightarrow> clock \<Rightarrow> string \<Rightarrow> cache_options \<Rightarrow> 'f
    \<Rightarrow> cache_error + bytes \<Rightarrow> cache_error + bytes \<Rightarrow> ('s, 'f) hydra_cache \<Rightarrow> ('s, 'f, bytes) call option" where
  "await_load S lay clk key opts fut shared loaded c =
    (case shared_load (t_breaker clk) (t_elapsed clk) key opts fut c of
       (LoadRejected err, c) \<Rightarrow> Some (Inl err, c)
     | (LoadShared h, c) \<Rightarrow> Some (shared, drop_load_handle h c)
     | (LoadOwned h, c) \<Rightarrow>
         (case load_start key opts (handle_generation h) c of
            (task, c) \<Rightarrow> do {
              (r, c) \<leftarrow> load_finish S lay (t_store clk) (t_report clk) task loaded c;
              Some (r, drop_load_handle h c)
            }))"

definition get_or_load :: "'s store_ops \<Rightarrow> layout \<Rightarrow> ('t \<Rightarrow> cache_error + bytes) \<Rightarrow> (bytes \<Rightarrow> cache_error + 't)
    \<Rightarrow> clock \<Rightarrow> string \<Rightarrow> cache_options \<Rightarrow> 'f \<Rightarrow> cache_error + bytes \<Rightarrow> cache_error + 't
    \<Rightarrow> ('s, 'f) hydra_cache \<Rightarrow> ('s, 'f, 't) call option" where
  "get_or_load S lay enc dec clk key opts fut shared loader c = do {
     (r, c) \<leftarrow> cache_get S dec (t_lookup clk) key c;
     (case r of
        Inl err \<Rightarrow> Some (Inl err, c)
      | Inr (Some v) \<Rightarrow> Some (Inr v, c)
      | Inr None \<Rightarrow> do {
          (r, c) \<leftarrow> await_load S lay clk key opts fut shared (result_bind loader enc) c;
          Some (result_bind r dec, c)
        })
   }"

subsection \<open>Loads with stale values\<close>

definition decode_cached_hit :: "'s store_ops \<Rightarrow> (bytes \<Rightarrow> cache_error + 't) \<Rightarrow> string \<Rightarrow> cache_entry
    \<Rightarrow> ('s, 'f) hydra_cache \<Rightarrow> ('s, 'f, 't) call option" where
  "decode_cached_hit S dec key e c =
    (case dec (entry_value e) of
       Inr v \<Rightarrow> Some (Inr v, publish_key_event Hit key LocalApi (entry_tags e) (bump hits_update c))
     | Inl err \<Rightarrow> do {
         c \<leftarrow> remove_entry S key e c;
         Some (Inl err, record_miss key (entry_tags e) c)
       })"

definition load_and_decode_with_stale_fallback :: "'s store_ops \<Rightarrow> layout \<Rightarrow> ('t \<Rightarrow> cache_error + bytes)
    \<Rightarrow> (bytes \<Rightarrow> cache_error + 't) \<Rightarrow> clock \<Rightarrow> string \<Rightarrow> cache_options \<Rightarrow> 'f \<Rightarrow> cache_error + bytes
    \<Rightarrow> cache_error + 't \<Rightarrow> cache_entry option \<Rightarrow> ('s, 'f) hydra_cache \<Rightarrow> ('s, 'f, 't) call option" where
  "load_and_decode_with_stale_fallback S lay enc dec clk key opts fut shared loader stale c = do {
     (r, c) \<leftarrow> await_load S lay clk key opts fut shared (result_bind loader enc) c;
     (case r of
        Inr value \<Rightarrow> Some (dec value, c)
      | Inl err \<Rightarrow>
          (case stale of
             None \<Rightarrow> Some (Inl err, c)
           | Some e \<Rightarrow> do {
               (hit, c) \<leftarrow> decode_cached_hit S dec key e c;
               (case hit of
                  Inr v \<Rightarrow> Some (Inr v, c)
                | Inl _ \<Rightarrow> do { c \<leftarrow> remove_entry S key e c; Some (Inl err, c) })
             }))
   }"

text \<open>The flag of the result is whether a background refresh was spawned.\<close>

definition get_or_load_with_refresh :: "'s store_ops \<Rightarrow> layout \<Rightarrow> ('t \<Rightarrow> cache_error + bytes)
    \<Rightarrow> (bytes \<Rightarrow> cache_error + 't) \<Rightarrow> clock \<Rightarrow> string \<Rightarrow> cache_options \<Rightarrow> refresh_options \<Rightarrow> 'f
    \<Rightarrow> cache_error + bytes \<Rightarrow> cache_error + 't \<Rightarrow> ('s, 'f) hydra_cache
    \<Rightarrow> (bool \<times> ('s, 'f, 't) call) option" where
  "get_or_load_with_refresh S lay enc dec clk key opts ropts fut shared loader c =
    (case store_get S (cache_store c) key of
       None \<Rightarrow> map_option (Pair False)
         (load_and_decode_with_stale_fallback S lay enc dec clk key opts fut shared loader None (record_miss key [] c))
     | Some e \<Rightarrow>
         if \<not> is_expired (t_lookup clk) e then do {
           (hit, c) \<leftarrow> decode_cached_hit S dec key e c;
           Some ((case hit of
              Inl _ \<Rightarrow> False
            | Inr _ \<Rightarrow> (case refresh_ahead ropts of Some d \<Rightarrow> refresh_ahead_due (t_window clk) d e | None \<Rightarrow> False)),
             (hit, c))
         }
         else do {
           (served, c) \<leftarrow>
             (if entry_in_stale_window (t_window clk) e (stale_while_revalidate ropts) then do {
                (hit, c) \<leftarrow> decode_cached_hit S dec key e c;
                (case hit of
                   Inr v \<Rightarrow> Some (Some v, c)
                 | Inl _ \<Rightarrow> do { c \<leftarrow> remove_entry S key e c; Some (None, c) })
              }
              else do { c \<leftarrow> remove_expired S key e c; Some (None, c) });
           (case served of
              Some v \<Rightarrow> Some (True, (Inr v, c))
            | None \<Rightarrow>
                let c = record_miss key (entry_tags e) c;
                    fallback = (if serve_stale_on_loader_error ropts
                        \<and> entry_in_stale_window (t_fallback clk) e (stale_on_loader_error_window ropts)
                      then Some e else None)
                in map_option (Pair False)
                     (load_and_decode_with_stale_fallback S lay enc dec clk key opts fut shared loader fallback c))
         })"

end
