(* ===== verification/Local_Cache_Inv.thy ===== *)
theory Local_Cache_Inv
  imports Local_Cache
begin

text \<open>
  The invariant of the local cache and what its calls do. The invariant ties the store to the tag
  index: every stored entry is registered under each of its tags with its version. It is kept by
  every call, whatever the store evicts, and gives the main facts about invalidation: after a tag
  has been invalidated no entry with the tag is left, and a load that was overtaken by an
  invalidation of its key or of one of its tags does not store its result.
\<close>

section \<open>Calls that only report\<close>

lemma publish_event_sel [simp]:
  "cache_store (publish_event ev c) = cache_store c"
  "tag_index_of (publish_event ev c) = tag_index_of c"
  "in_flight (publish_event ev c) = in_flight c"
  "default_ttl (publish_event ev c) = default_ttl c"
  "max_entry_bytes (publish_event ev c) = max_entry_bytes c"
  "load_breaker_of (publish_event ev c) = load_breaker_of c"
  "next_entry_version_of (publish_event ev c) = next_entry_version_of c"
  "invalidation_node_id (publish_event ev c) = invalidation_node_id c"
  "bus_attached (publish_event ev c) = bus_attached c"
  "bus_published (publish_event ev c) = bus_published c"
  by (simp_all add: publish_event_def split: prod.split)

lemma publish_key_event_sel [simp]:
  "cache_store (publish_key_event k key og tags c) = cache_store c"
  "tag_index_of (publish_key_event k key og tags c) = tag_index_of c"
  "in_flight (publish_key_event k key og tags c) = in_flight c"
  "max_entry_bytes (publish_key_event k key og tags c) = max_entry_bytes c"
  "load_breaker_of (publish_key_event k key og tags c) = load_breaker_of c"
  "next_entry_version_of (publish_key_event k key og tags c) = next_entry_version_of c"
  by (simp_all add: publish_key_event_def)

lemma publish_prepared_sel [simp]:
  "cache_store (publish_key_event_with_prepared_tags k key og tags c) = cache_store c"
  "tag_index_of (publish_key_event_with_prepared_tags k key og tags c) = tag_index_of c"
  "in_flight (publish_key_event_with_prepared_tags k key og tags c) = in_flight c"
  "load_breaker_of (publish_key_event_with_prepared_tags k key og tags c) = load_breaker_of c"
  by (simp_all add: publish_key_event_with_prepared_tags_def split: option.split)

lemma publish_tag_cache_event_sel [simp]:
  "cache_store (publish_tag_event k t n og c) = cache_store c"
  "tag_index_of (publish_tag_event k t n og c) = tag_index_of c"
  "cache_store (publish_cache_event k m og c) = cache_store c"
  "tag_index_of (publish_cache_event k m og c) = tag_index_of c"
  by (simp_all add: publish_tag_event_def publish_cache_event_def)

lemma record_miss_sel [simp]:
  "cache_store (record_miss key tags c) = cache_store c"
  "tag_index_of (record_miss key tags c) = tag_index_of c"
  by (simp_all add: record_miss_def)

lemma publish_invalidation_sel [simp]:
  "cache_store (snd (publish_invalidation io w c)) = cache_store c"
  "tag_index_of (snd (publish_invalidation io w c)) = tag_index_of c"
  by (simp_all add: publish_invalidation_def Let_def split: option.split sum.split)

section \<open>What a call does to the store and the index\<close>

text \<open>
  The view of a call the proofs need: the store before and after, and the operations on the tag
  index it performed.
\<close>

definition index_trace :: "tag_op list \<Rightarrow> ('s, 'f) hydra_cache \<Rightarrow> ('s, 'f) hydra_cache \<Rightarrow> bool" where
  "index_trace ops c c' \<longleftrightarrow> run_ops ops (tag_index_of c) = Some (tag_index_of c')"

lemma index_trace_refl [simp]: "tag_index_of c' = tag_index_of c \<Longrightarrow> index_trace [] c c'"
  by (simp add: index_trace_def)

lemma index_trace_trans:
  "index_trace ops c c' \<Longrightarrow> index_trace ops' c' c'' \<Longrightarrow> index_trace (ops @ ops') c c''"
  by (simp add: index_trace_def run_ops_append)

lemma index_trace_single: "apply_op op (tag_index_of c) = Some (tag_index_of c') \<Longrightarrow> index_trace [op] c c'"
  by (simp add: index_trace_def)

lemma remove_entryE:
  assumes "remove_entry S key e c = Some c'"
  obtains "cache_store c' = store_invalidate S key (cache_store c)"
    "apply_op (Unregister key (entry_tags e)) (tag_index_of c) = Some (tag_index_of c')"
  using assms by (auto simp: remove_entry_def bind_eq_Some_conv)

lemma remove_expiredE:
  assumes "remove_expired S key e c = Some c'"
  obtains "cache_store c' = store_invalidate S key (cache_store c)"
    "apply_op (Unregister key (entry_tags e)) (tag_index_of c) = Some (tag_index_of c')"
  using assms by (auto simp: remove_expired_def bind_eq_Some_conv elim!: remove_entryE)

lemma next_entry_version_sel [simp]:
  "cache_store (snd (next_entry_version c)) = cache_store c"
  "tag_index_of (snd (next_entry_version c)) = tag_index_of c"
  by (simp_all add: next_entry_version_def split: option.split)

lemma put_bytes_uncheckedE:
  assumes "put_bytes_unchecked S lay now key value opts og c = Some (r, c')"
  obtains (err) x where "r = Inl x" "cache_store c' = cache_store c" "tag_index_of c' = tag_index_of c"
  | (stored) e ops where "r = Inr ()" "cache_store c' = store_insert S key e (cache_store c)"
    "entry_value e = value" "entry_tags e = opt_tags opts"
    "expires_at e = instant_checked_add now (case opt_ttl opts of Some t \<Rightarrow> t | None \<Rightarrow> default_ttl c)"
    "ops = (case store_get S (cache_store c) key of Some old \<Rightarrow> [Unregister key (entry_tags old)] | None \<Rightarrow> [])
       @ [Register key (opt_tags opts) (entry_version e)]"
    "index_trace ops c c'"
proof (cases "exceeds_max_entry_bytes (length value) c")
  case True
  then show ?thesis
    using assms err by (auto simp: put_bytes_unchecked_def oversize_rejection_error_def)
next
  case False
  let ?ttl = "case opt_ttl opts of Some t \<Rightarrow> t | None \<Rightarrow> default_ttl c"
  let ?exp = "instant_checked_add now ?ttl"
  obtain rv c1 where nv: "next_entry_version c = (rv, c1)" by fastforce
  then have c1: "cache_store c1 = cache_store c" "tag_index_of c1 = tag_index_of c"
    using next_entry_version_sel [of c] by auto
  show ?thesis
  proof (cases rv)
    case (Inl x)
    then show ?thesis
      using assms False nv c1 err by (auto simp: put_bytes_unchecked_def Let_def)
  next
    case (Inr version)
    show ?thesis
    proof (cases "entry_memory_delta_new lay key (length value) (opt_tags opts) (?exp \<noteq> None)")
      case (Inl x)
      then show ?thesis
        using assms False nv Inr c1 err by (auto simp: put_bytes_unchecked_def Let_def)
    next
      case (Inr d)
      define e where "e = \<lparr>entry_value = value, entry_tags = opt_tags opts, expires_at = ?exp, entry_version = version\<rparr>"
      show ?thesis
        using assms False nv \<open>rv = Inr version\<close> Inr c1
        by (intro stored [of e]) (auto simp: put_bytes_unchecked_def Let_def bind_eq_Some_conv e_def
            index_trace_def run_ops_append split: option.splits)
    qed
  qed
qed

section \<open>The invariant\<close>

definition cache_ok :: "'s store_ops \<Rightarrow> ('s, 'f) hydra_cache \<Rightarrow> bool" where
  "cache_ok S c \<longleftrightarrow> (\<forall>k e t. store_get S (cache_store c) k = Some e \<longrightarrow> t \<in> set (entry_tags e) \<longrightarrow>
     version_of (tag_index_of c) t k = Some (entry_version e))"

lemma store_lawsD:
  assumes "store_laws S"
  shows "store_get S (store_insert S k e s) k' \<in> {if k' = k then Some e else store_get S s k', None}"
    "store_get S (store_invalidate S k s) k = None" "store_shrinks S s (store_invalidate S k s)"
    "store_get S (store_invalidate_all S s) k = None" "store_shrinks S s (store_run_pending_tasks S s)"
  using assms unfolding store_laws_def by simp_all

lemma store_shrinksD: "store_shrinks S s s' \<Longrightarrow> store_get S s' k = Some e \<Longrightarrow> store_get S s k = Some e"
  unfolding store_shrinks_def by (metis option.distinct(1))

lemma store_get_insertD:
  "store_laws S \<Longrightarrow> store_get S (store_insert S k e s) k' = Some e' \<Longrightarrow>
    (if k' = k then e' = e else store_get S s k' = Some e')"
  using store_lawsD(1) [of S k e s k'] by (auto split: if_splits)

lemma store_get_invalidateD:
  assumes "store_laws S" "store_get S (store_invalidate S k s) k' = Some e"
  shows "k' \<noteq> k \<and> store_get S s k' = Some e"
  using store_shrinksD [OF store_lawsD(3) [OF assms(1)] assms(2)] store_lawsD(2) [OF assms(1)] assms(2)
  by auto

lemma store_get_flush:
  assumes "store_laws S"
  shows "store_get S (store_run_pending_tasks S (store_invalidate_all S s)) k = None"
  using store_lawsD(5) [OF assms, of "store_invalidate_all S s"] store_lawsD(4) [OF assms, of s k]
  unfolding store_shrinks_def by metis

lemma cache_okD:
  "cache_ok S c \<Longrightarrow> store_get S (cache_store c) k = Some e \<Longrightarrow> t \<in> set (entry_tags e) \<Longrightarrow>
    version_of (tag_index_of c) t k = Some (entry_version e)"
  by (simp add: cache_ok_def)

lemma cache_ok_cong:
  "cache_store c' = cache_store c \<Longrightarrow> tag_index_of c' = tag_index_of c \<Longrightarrow> cache_ok S c' = cache_ok S c"
  by (simp add: cache_ok_def)

lemma cache_ok_unregister:
  assumes "store_laws S" "cache_ok S c" "cache_store c' = store_invalidate S key (cache_store c)"
    "apply_op (Unregister key tags) (tag_index_of c) = Some (tag_index_of c')"
  shows "cache_ok S c'"
  unfolding cache_ok_def assms(3) version_of_apply_op [OF assms(4)]
  using assms(2) by (auto dest!: store_get_invalidateD [OF assms(1)] dest: cache_okD)

lemma cache_ok_remove_entry: "store_laws S \<Longrightarrow> cache_ok S c \<Longrightarrow> remove_entry S key e c = Some c' \<Longrightarrow> cache_ok S c'"
  by (elim remove_entryE) (rule cache_ok_unregister)

lemma cache_ok_remove_expired: "store_laws S \<Longrightarrow> cache_ok S c \<Longrightarrow> remove_expired S key e c = Some c' \<Longrightarrow> cache_ok S c'"
  by (elim remove_expiredE) (rule cache_ok_unregister)

lemma cache_ok_put:
  assumes S: "store_laws S" and ok: "cache_ok S c"
    and put: "put_bytes_unchecked S lay now key value opts og c = Some (r, c')"
  shows "cache_ok S c'"
  using put
proof (cases rule: put_bytes_uncheckedE)
  case err
  then show ?thesis using ok cache_ok_cong [OF err(2,3)] by simp
next
  case (stored e ops)
  have v: "version_of (tag_index_of c') = fold spec_op ops (version_of (tag_index_of c))"
    using stored(7) version_of_run by (simp add: index_trace_def)
  have v_key: "version_of (tag_index_of c') t key = Some (entry_version e)" if "t \<in> set (opt_tags opts)" for t
    unfolding v stored(6) using that by simp
  have v_other: "version_of (tag_index_of c') t k = version_of (tag_index_of c) t k" if "k \<noteq> key" for t k
    unfolding v stored(6) using that by (simp split: option.split)
  show ?thesis
    unfolding cache_ok_def
  proof (intro allI impI)
    fix k e' t
    assume get: "store_get S (cache_store c') k = Some e'" and t: "t \<in> set (entry_tags e')"
    then have get': "if k = key then e' = e else store_get S (cache_store c) k = Some e'"
      using store_get_insertD [OF S, of key e "cache_store c" k e'] stored(2) by simp
    show "version_of (tag_index_of c') t k = Some (entry_version e')"
    proof (cases "k = key")
      case True
      with get' t v_key show ?thesis by (simp add: stored(4))
    next
      case False
      with get' t v_other cache_okD [OF ok, of k e' t] show ?thesis by simp
    qed
  qed
qed

text \<open>Invalidating a tag: the keys still to be visited hold all entries with the tag.\<close>

lemma remove_tagged_ok:
  assumes "store_laws S" "remove_tagged S keys n c = Some (n', c')"
    and "\<And>k e t. store_get S (cache_store c) k = Some e \<Longrightarrow> t \<in> set (entry_tags e) \<Longrightarrow>
      if t = tag then k \<in> set keys else version_of (tag_index_of c) t k = Some (entry_version e)"
  shows "cache_ok S c' \<and> (\<forall>k e. store_get S (cache_store c') k = Some e \<longrightarrow> tag \<notin> set (entry_tags e))"
  using assms(2,3)
proof (induction keys arbitrary: n c)
  case Nil
  have "tag \<noteq> t \<and> version_of (tag_index_of c) t k = Some (entry_version e)"
    if "store_get S (cache_store c) k = Some e" "t \<in> set (entry_tags e)" for k e t
    using Nil.prems(2) [OF that] by (simp split: if_splits)
  with Nil.prems(1) show ?case
    by (auto simp: cache_ok_def)
next
  case (Cons key keys)
  show ?case
  proof (cases "store_get S (cache_store c) key")
    case None
    with Cons.prems(1) have "remove_tagged S keys n c = Some (n', c')" by simp
    moreover have "if t = tag then k \<in> set keys else version_of (tag_index_of c) t k = Some (entry_version e)"
      if "store_get S (cache_store c) k = Some e" "t \<in> set (entry_tags e)" for k e t
      using Cons.prems(2) [OF that] None that(1) by (auto split: if_splits)
    ultimately show ?thesis by (rule Cons.IH)
  next
    case (Some e)
    with Cons.prems(1) obtain c1 where c1: "remove_entry S key e c = Some c1"
      "remove_tagged S keys (n + 1) c1 = Some (n', c')"
      by (auto simp: bind_eq_Some_conv)
    from c1(1) have st: "cache_store c1 = store_invalidate S key (cache_store c)"
      and ix: "apply_op (Unregister key (entry_tags e)) (tag_index_of c) = Some (tag_index_of c1)"
      by (auto elim: remove_entryE)
    have "if t = tag then k \<in> set keys else version_of (tag_index_of c1) t k = Some (entry_version e')"
      if get: "store_get S (cache_store c1) k = Some e'" and t: "t \<in> set (entry_tags e')" for k e' t
    proof -
      have "k \<noteq> key" "store_get S (cache_store c) k = Some e'"
        using store_get_invalidateD [OF assms(1), of key "cache_store c" k e'] get st by auto
      with Cons.prems(2) [OF this(2) t] show ?thesis
        by (auto simp: version_of_apply_op [OF ix] split: if_splits)
    qed
    with c1(2) show ?thesis by (rule Cons.IH)
  qed
qed

lemma invalidate_tag_ok:
  assumes S: "store_laws S" and ok: "cache_ok S c"
    and inv: "invalidate_tag_with_origin S tag og c = Some (n, c')"
  shows "cache_ok S c' \<and> (\<forall>k e. store_get S (cache_store c') k = Some e \<longrightarrow> tag \<notin> set (entry_tags e))"
proof -
  obtain keys ix c1 where take: "take_tag tag (tag_index_of c) = Some (keys, ix)"
    and rem: "remove_tagged S keys 0 (c\<lparr>tag_index_of := ix\<rparr>) = Some (n, c1)"
    and c': "cache_store c' = cache_store c1" "tag_index_of c' = tag_index_of c1"
    using inv by (auto simp: invalidate_tag_with_origin_def bind_eq_Some_conv Let_def)
  have keys: "set keys = {k. version_of (tag_index_of c) tag k \<noteq> None}"
    using take_tag_returns [OF take] .
  have ix: "apply_op (TakeTag tag) (tag_index_of c) = Some ix" using take by simp
  have "if t = tag then k \<in> set keys else version_of (tag_index_of (c\<lparr>tag_index_of := ix\<rparr>)) t k = Some (entry_version e)"
    if "store_get S (cache_store (c\<lparr>tag_index_of := ix\<rparr>)) k = Some e" "t \<in> set (entry_tags e)" for k e t
    using cache_okD [OF ok, of k e t] that keys by (auto simp: version_of_apply_op [OF ix])
  from remove_tagged_ok [OF S rem this] show ?thesis
    by (simp add: c' cache_ok_cong [OF c'])
qed

lemma cache_ok_remove_with_event:
  assumes S: "store_laws S" and ok: "cache_ok S c" and rem: "remove_with_event S key kind og c = Some (b, c')"
  shows "cache_ok S c' \<and> store_get S (cache_store c') key = None"
proof -
  obtain ix where ix: "apply_op (AdvanceKey key) (tag_index_of c) = Some ix"
    using rem by (auto simp: remove_with_event_def bind_eq_Some_conv)
  let ?c = "c\<lparr>tag_index_of := ix\<rparr>"
  have ok1: "cache_ok S ?c"
    using ok version_of_apply_op [OF ix] by (simp add: cache_ok_def)
  show ?thesis
  proof (cases "store_get S (cache_store c) key")
    case None
    with rem ix ok1 show ?thesis by (auto simp: remove_with_event_def)
  next
    case (Some e)
    then obtain c1 where c1: "remove_entry S key e ?c = Some c1" "cache_store c' = cache_store c1"
      "tag_index_of c' = tag_index_of c1"
      using rem ix by (auto simp: remove_with_event_def bind_eq_Some_conv)
    have "cache_ok S c1" by (rule cache_ok_remove_entry [OF S ok1 c1(1)])
    moreover have "store_get S (cache_store c1) key = None"
      using c1(1) by (auto elim!: remove_entryE simp: store_lawsD(2) [OF S])
    ultimately show ?thesis using c1(2,3) cache_ok_cong by metis
  qed
qed

lemma cache_ok_flush:
  "store_laws S \<Longrightarrow> flush_with_origin S og c = Some c' \<Longrightarrow>
    cache_ok S c' \<and> (\<forall>k. store_get S (cache_store c') k = None)"
  by (auto simp: flush_with_origin_def bind_eq_Some_conv Let_def cache_ok_def store_get_flush)

section \<open>Histories of calls\<close>

datatype 'f cache_op =
    OpGet instant string
  | OpGetEncoded instant string
  | OpContains instant string
  | OpPut instant string bytes cache_options
  | OpInvalidateKey bus_io string
  | OpRemove bus_io string
  | OpInvalidateTag bus_io string
  | OpFlush bus_io
  | OpRemote "(string \<Rightarrow> u64 \<Rightarrow> cache_error + unit) option" cache_invalidation_message
  | OpSharedLoad instant instant string cache_options 'f
  | OpLoadStart string cache_options load_generation_snapshot
  | OpLoadFinish instant instant load_task "cache_error + bytes"
  | OpDropHandle "'f shared_load_handle"

fun cache_step :: "'s store_ops \<Rightarrow> layout \<Rightarrow> (bytes \<Rightarrow> cache_error + 't) \<Rightarrow> 'f cache_op \<Rightarrow> ('s, 'f) hydra_cache
    \<Rightarrow> ('s, 'f) hydra_cache option" where
  "cache_step S lay dec (OpGet now key) c = map_option snd (cache_get S dec now key c)"
| "cache_step S lay dec (OpGetEncoded now key) c = map_option snd (get_encoded S now key c)"
| "cache_step S lay dec (OpContains now key) c = map_option snd (contains_key S now key c)"
| "cache_step S lay dec (OpPut now key value opts) c = map_option snd (put_bytes S lay now key value opts c)"
| "cache_step S lay dec (OpInvalidateKey io key) c = map_option snd (invalidate_key S io key c)"
| "cache_step S lay dec (OpRemove io key) c = map_option snd (cache_remove S io key c)"
| "cache_step S lay dec (OpInvalidateTag io tag) c = map_option snd (invalidate_tag S io tag c)"
| "cache_step S lay dec (OpFlush io) c = map_option snd (cache_flush S io c)"
| "cache_step S lay dec (OpRemote v msg) c = map_option snd (apply_remote_invalidation S v msg c)"
| "cache_step S lay dec (OpSharedLoad now now' key opts fut) c = Some (snd (shared_load now now' key opts fut c))"
| "cache_step S lay dec (OpLoadStart key opts g) c = Some (snd (load_start key opts g c))"
| "cache_step S lay dec (OpLoadFinish now now' task loaded) c = map_option snd (load_finish S lay now now' task loaded c)"
| "cache_step S lay dec (OpDropHandle h) c = Some (drop_load_handle h c)"

fun cache_run :: "'s store_ops \<Rightarrow> layout \<Rightarrow> (bytes \<Rightarrow> cache_error + 't) \<Rightarrow> 'f cache_op list \<Rightarrow> ('s, 'f) hydra_cache
    \<Rightarrow> ('s, 'f) hydra_cache option" where
  "cache_run S lay dec [] c = Some c"
| "cache_run S lay dec (op # ops) c =
    (case cache_step S lay dec op c of None \<Rightarrow> None | Some c' \<Rightarrow> cache_run S lay dec ops c')"

text \<open>Which calls invalidate a load of a key with the given tags.\<close>

fun message_kills :: "cache_invalidation \<Rightarrow> string \<times> string list \<Rightarrow> bool" where
  "message_kills (InvalidateKey k) (key, tags) = (k = key)"
| "message_kills (InvalidateTag t) (key, tags) = (t \<in> set tags)"
| "message_kills InvalidateAll (key, tags) = True"

definition remote_accepted :: "(string \<Rightarrow> u64 \<Rightarrow> cache_error + unit) option \<Rightarrow> cache_invalidation_message \<Rightarrow> bool" where
  "remote_accepted validate msg =
    (case (validate, msg_source_generation msg) of
       (Some v, Some g) \<Rightarrow> is_ok (v (msg_source_id msg) g) | _ \<Rightarrow> True)"

fun cache_kills :: "'f cache_op \<Rightarrow> string \<times> string list \<Rightarrow> bool" where
  "cache_kills (OpInvalidateKey io k) r = message_kills (InvalidateKey k) r"
| "cache_kills (OpRemove io k) r = message_kills (InvalidateKey k) r"
| "cache_kills (OpInvalidateTag io t) r = message_kills (InvalidateTag t) r"
| "cache_kills (OpFlush io) r = message_kills InvalidateAll r"
| "cache_kills (OpRemote v msg) r = (remote_accepted v msg \<and> message_kills (msg_invalidation msg) r)"
| "cache_kills _ r = False"

subsection \<open>The index operations of each call\<close>

definition traces :: "(tag_op \<Rightarrow> bool) \<Rightarrow> ('s, 'f) hydra_cache \<Rightarrow> ('s, 'f) hydra_cache \<Rightarrow> bool" where
  "traces P c c' \<longleftrightarrow> (\<exists>ops. index_trace ops c c' \<and> (\<exists>op \<in> set ops. P op))"

definition traces_any :: "('s, 'f) hydra_cache \<Rightarrow> ('s, 'f) hydra_cache \<Rightarrow> bool" where
  "traces_any c c' \<longleftrightarrow> (\<exists>ops. index_trace ops c c')"

lemma traces_any_refl [simp]: "tag_index_of c' = tag_index_of c \<Longrightarrow> traces_any c c'"
  unfolding traces_any_def using index_trace_refl by blast

lemma traces_any_op: "apply_op op (tag_index_of c) = Some (tag_index_of c') \<Longrightarrow> traces_any c c'"
  unfolding traces_any_def using index_trace_single by blast

lemma traces_any_trans: "traces_any c c' \<Longrightarrow> traces_any c' c'' \<Longrightarrow> traces_any c c''"
  unfolding traces_any_def using index_trace_trans by blast

lemma traces_op: "apply_op op (tag_index_of c) = Some (tag_index_of c') \<Longrightarrow> P op \<Longrightarrow> traces P c c'"
  unfolding traces_def using index_trace_single by fastforce

lemma traces_then: "traces P c c' \<Longrightarrow> traces_any c' c'' \<Longrightarrow> traces P c c''"
  unfolding traces_def traces_any_def using index_trace_trans by (metis UnCI set_append)

lemma then_traces: "traces_any c c' \<Longrightarrow> traces P c' c'' \<Longrightarrow> traces P c c''"
  unfolding traces_def traces_any_def using index_trace_trans by (metis UnCI set_append)

lemma traces_cong: "traces P c c' \<Longrightarrow> tag_index_of c'' = tag_index_of c' \<Longrightarrow> traces P c c''"
  by (simp add: traces_def index_trace_def)

lemma traces_any_cong: "traces_any c c' \<Longrightarrow> tag_index_of c'' = tag_index_of c' \<Longrightarrow> traces_any c c''"
  by (simp add: traces_any_def index_trace_def)

lemma traces_imp_any: "traces P c c' \<Longrightarrow> traces_any c c'"
  by (auto simp: traces_def traces_any_def)

lemma traces_remove_entry: "remove_entry S key e c = Some c' \<Longrightarrow> traces_any c c'"
  by (elim remove_entryE) (rule traces_any_op)

lemma traces_remove_expired: "remove_expired S key e c = Some c' \<Longrightarrow> traces_any c c'"
  by (elim remove_expiredE) (rule traces_any_op)

lemma traces_put: "put_bytes_unchecked S lay now key value opts og c = Some (r, c') \<Longrightarrow> traces_any c c'"
  by (elim put_bytes_uncheckedE) (auto simp: traces_any_def index_trace_def intro: exI [of _ "[]"])

lemma traces_put_if_fresh:
  "put_bytes_if_fresh S lay now key value opts g c = Some (r, c') \<Longrightarrow> traces_any c c'"
  by (auto simp: put_bytes_if_fresh_def bind_eq_Some_conv split: if_splits dest: traces_put)

lemma traces_remove_with_event:
  assumes "remove_with_event S key kind og c = Some (b, c')"
  shows "traces (\<lambda>op. op = AdvanceKey key) c c'"
proof -
  obtain ix where ix: "apply_op (AdvanceKey key) (tag_index_of c) = Some ix"
    using assms by (auto simp: remove_with_event_def bind_eq_Some_conv)
  then have adv: "traces (\<lambda>op. op = AdvanceKey key) c (c\<lparr>tag_index_of := ix\<rparr>)"
    by (intro traces_op) auto
  moreover have "traces_any (c\<lparr>tag_index_of := ix\<rparr>) c'"
  proof (cases "store_get S (cache_store c) key")
    case None
    with assms ix show ?thesis by (auto simp: remove_with_event_def)
  next
    case (Some e)
    with assms ix show ?thesis
      by (auto simp: remove_with_event_def bind_eq_Some_conv intro: traces_any_cong traces_remove_entry)
  qed
  ultimately show ?thesis by (rule traces_then)
qed

lemma traces_remove_tagged: "remove_tagged S keys n c = Some (n', c') \<Longrightarrow> traces_any c c'"
proof (induction keys arbitrary: n c)
  case (Cons key keys)
  then show ?case
    by (auto simp: bind_eq_Some_conv split: option.splits intro: traces_any_trans traces_remove_entry)
qed simp

lemma traces_invalidate_tag:
  assumes "invalidate_tag_with_origin S tag og c = Some (n, c')"
  shows "traces (\<lambda>op. op = TakeTag tag) c c'"
proof -
  obtain keys ix c1 where take: "take_tag tag (tag_index_of c) = Some (keys, ix)"
    and rem: "remove_tagged S keys 0 (c\<lparr>tag_index_of := ix\<rparr>) = Some (n, c1)"
    and c': "tag_index_of c' = tag_index_of c1"
    using assms by (auto simp: invalidate_tag_with_origin_def bind_eq_Some_conv Let_def)
  have "traces (\<lambda>op. op = TakeTag tag) c (c\<lparr>tag_index_of := ix\<rparr>)"
    by (rule traces_op [of "TakeTag tag"]) (use take in simp_all)
  from traces_then [OF this traces_remove_tagged [OF rem]] show ?thesis
    using c' by (rule traces_cong)
qed

lemma traces_flush: "flush_with_origin S og c = Some c' \<Longrightarrow> traces (\<lambda>op. op = Clear) c c'"
  by (rule traces_op [of Clear]) (auto simp: flush_with_origin_def bind_eq_Some_conv Let_def)

lemma shared_load_sel [simp]:
  "cache_store (snd (shared_load now now' key opts fut c)) = cache_store c"
  "tag_index_of (snd (shared_load now now' key opts fut c)) = tag_index_of c"
  by (auto simp: shared_load_def Let_def split: option.split prod.split load_breaker_decision.split)

lemma load_start_sel [simp]:
  "cache_store (snd (load_start key opts g c)) = cache_store c"
  "tag_index_of (snd (load_start key opts g c)) = tag_index_of c"
  by (simp_all add: load_start_def Let_def)

lemma drop_load_handle_sel [simp]:
  "cache_store (drop_load_handle h c) = cache_store c"
  "tag_index_of (drop_load_handle h c) = tag_index_of c"
  by (simp_all add: drop_load_handle_def split: prod.split option.split)

lemma load_report_sel [simp]:
  "cache_store (load_report now task ok c) = cache_store c"
  "tag_index_of (load_report now task ok c) = tag_index_of c"
  by (simp_all add: load_report_def Let_def split: prod.split)

lemma publish_invalidationD:
  "publish_invalidation io w c = (r, c') \<Longrightarrow> cache_store c' = cache_store c \<and> tag_index_of c' = tag_index_of c"
  using publish_invalidation_sel [of io w c] by simp

lemma answer_publishedD:
  "answer_published io w x c = (r, c') \<Longrightarrow> cache_store c' = cache_store c \<and> tag_index_of c' = tag_index_of c"
  by (auto simp: answer_published_def split: prod.splits dest: publish_invalidationD)

lemma load_finishE:
  assumes "load_finish S lay now now' task loaded c = Some (r, c')"
  obtains c1 where "load_store S lay now task loaded c = Some (r, c1)"
    "cache_store c' = cache_store c1" "tag_index_of c' = tag_index_of c1"
  using assms by (auto simp: load_finish_def bind_eq_Some_conv)

lemma load_storeE:
  assumes "load_store S lay now task loaded c = Some (r, c')"
  obtains (failed) err where "loaded = Inl err" "r = Inl err" "c' = c"
  | (put) val r1 c1 where "loaded = Inr val"
    "put_bytes_if_fresh S lay now (task_key task) val (task_options task) (task_generation task) c = Some (r1, c1)"
    "cache_store c' = cache_store c1" "tag_index_of c' = tag_index_of c1"
    "r = (case r1 of Inl err \<Rightarrow> Inl err | Inr _ \<Rightarrow> Inr val)"
proof (cases loaded)
  case (Inl err)
  then show ?thesis using assms failed by (auto simp: load_store_def)
next
  case (Inr val)
  then obtain r1 c1 where put_eq: "put_bytes_if_fresh S lay now (task_key task) val (task_options task)
      (task_generation task) c = Some (r1, c1)"
    and res: "(r, c') = (case r1 of Inl err \<Rightarrow> (Inl err, c1) | Inr accepted \<Rightarrow> (Inr val,
        if accepted then publish_key_event_with_prepared_tags LoadCompleted (task_key task) LoaderOrigin
          (task_completed_tags task) c1 else c1))"
    using assms by (auto simp: load_store_def bind_eq_Some_conv)
  show ?thesis
    by (rule put [OF Inr put_eq]) (use res in \<open>auto split: sum.splits if_splits\<close>)
qed

lemma cache_ok_after:
  "cache_ok S c1 \<Longrightarrow> cache_store c' = cache_store c1 \<Longrightarrow> tag_index_of c' = tag_index_of c1 \<Longrightarrow> cache_ok S c'"
  by (simp add: cache_ok_def)

lemma put_bytes_if_fresh_ok:
  assumes "store_laws S" "cache_ok S c" "put_bytes_if_fresh S lay now key val opts g c = Some (r, c')"
  shows "cache_ok S c'"
  using assms(3) by (auto simp: put_bytes_if_fresh_def bind_eq_Some_conv split: if_splits
      intro: cache_ok_after [OF assms(2)] cache_ok_put [OF assms(1,2)])

lemma load_finish_ok:
  assumes "store_laws S" "cache_ok S c" "load_finish S lay now now' task loaded c = Some (r, c')"
  shows "cache_ok S c'"
proof -
  obtain c1 where c1: "load_store S lay now task loaded c = Some (r, c1)"
    "cache_store c' = cache_store c1" "tag_index_of c' = tag_index_of c1"
    using assms(3) by (rule load_finishE)
  from c1(1) have "cache_ok S c1"
  proof (cases rule: load_storeE)
    case (put val r1 c2)
    then show ?thesis
      using put_bytes_if_fresh_ok [OF assms(1,2) put(2)] cache_ok_cong [OF put(3,4)] by simp
  qed (use assms(2) in simp)
  then show ?thesis using cache_ok_cong [OF c1(2,3)] by simp
qed

lemma load_finish_traces:
  assumes "load_finish S lay now now' task loaded c = Some (r, c')"
  shows "traces_any c c'"
proof -
  obtain c1 where c1: "load_store S lay now task loaded c = Some (r, c1)"
    "cache_store c' = cache_store c1" "tag_index_of c' = tag_index_of c1"
    using assms by (rule load_finishE)
  from c1(1) have "traces_any c c1"
    by (cases rule: load_storeE) (auto intro: traces_any_cong traces_put_if_fresh)
  then show ?thesis using c1(3) by (rule traces_any_cong)
qed

subsection \<open>Every call keeps the invariant\<close>

lemma cache_get_ok:
  assumes S: "store_laws S" and ok: "cache_ok S c" and get: "cache_get S dec now key c = Some (r, c')"
  shows "cache_ok S c'"
proof (cases "store_get S (cache_store c) key")
  case None
  then show ?thesis
    using get by (auto simp: cache_get_def intro: cache_ok_after [OF ok])
next
  case (Some e)
  show ?thesis
  proof (cases "is_expired now e")
    case True
    with get Some obtain c1 where "remove_expired S key e c = Some c1"
      "cache_store c' = cache_store c1" "tag_index_of c' = tag_index_of c1"
      by (auto simp: cache_get_def bind_eq_Some_conv)
    then show ?thesis using cache_ok_remove_expired [OF S ok] cache_ok_after by blast
  next
    case False
    show ?thesis
    proof (cases "dec (entry_value e)")
      case (Inl err)
      with get Some False obtain c1 where "remove_entry S key e c = Some c1"
        "cache_store c' = cache_store c1" "tag_index_of c' = tag_index_of c1"
        by (auto simp: cache_get_def bind_eq_Some_conv)
      then show ?thesis using cache_ok_remove_entry [OF S ok] cache_ok_after by blast
    next
      case (Inr v)
      then show ?thesis
        using get Some False by (auto simp: cache_get_def intro: cache_ok_after [OF ok])
    qed
  qed
qed

lemma get_encoded_ok:
  assumes S: "store_laws S" and ok: "cache_ok S c" and get: "get_encoded S now key c = Some (r, c')"
  shows "cache_ok S c'"
  using get by (auto simp: get_encoded_def bind_eq_Some_conv split: option.splits if_splits
      intro: cache_ok_after [OF ok] cache_ok_after [OF cache_ok_remove_expired [OF S ok]])

lemma contains_key_ok:
  assumes S: "store_laws S" and ok: "cache_ok S c" and get: "contains_key S now key c = Some (r, c')"
  shows "cache_ok S c'"
  using get ok by (auto simp: contains_key_def bind_eq_Some_conv split: option.splits if_splits
      intro: cache_ok_remove_expired [OF S ok])

lemma apply_remote_ok:
  assumes S: "store_laws S" and ok: "cache_ok S c" and rem: "apply_remote_invalidation S v msg c = Some (r, c')"
  shows "cache_ok S c'"
proof (cases "remote_accepted v msg")
  case False
  then have "c' = c"
    using rem by (auto simp: apply_remote_invalidation_def remote_accepted_def split: option.splits sum.splits)
  with ok show ?thesis by simp
next
  case True
  let ?c = "bump distributed_invalidations_received_update c"
  have ok1: "cache_ok S ?c" using ok by (simp add: cache_ok_def)
  from True rem obtain c1 where c1: "(case msg_invalidation msg of
        InvalidateKey key \<Rightarrow> map_option snd (remove_with_event S key KeyInvalidated DistributedBus ?c)
      | InvalidateTag tag \<Rightarrow> map_option snd (invalidate_tag_with_origin S tag DistributedBus ?c)
      | InvalidateAll \<Rightarrow> flush_with_origin S DistributedBus ?c) = Some c1"
    and c': "c' = bump distributed_invalidations_applied_update c1"
    by (auto simp: apply_remote_invalidation_def remote_accepted_def bind_eq_Some_conv Let_def
        split: option.splits sum.splits)
  from c1 have "cache_ok S c1"
    by (auto split: cache_invalidation.splits dest: cache_ok_remove_with_event [OF S ok1]
        invalidate_tag_ok [OF S ok1] cache_ok_flush [OF S])
  then show ?thesis by (rule cache_ok_after) (simp_all add: c')
qed

lemma cache_step_ok:
  assumes S: "store_laws S" and ok: "cache_ok S c" and step: "cache_step S lay dec op c = Some c'"
  shows "cache_ok S c'"
proof (cases op)
  case (OpInvalidateKey io key)
  with step show ?thesis
    by (auto simp: invalidate_key_def bind_eq_Some_conv
        intro: cache_ok_after dest!: cache_ok_remove_with_event [OF S ok] answer_publishedD)
next
  case (OpRemove io key)
  with step show ?thesis
    by (auto simp: cache_remove_def bind_eq_Some_conv
        intro: cache_ok_after dest!: cache_ok_remove_with_event [OF S ok] answer_publishedD)
next
  case (OpInvalidateTag io tag)
  with step show ?thesis
    by (auto simp: invalidate_tag_def bind_eq_Some_conv
        intro: cache_ok_after dest!: invalidate_tag_ok [OF S ok] answer_publishedD)
next
  case (OpFlush io)
  with step show ?thesis
    by (auto simp: cache_flush_def bind_eq_Some_conv intro: cache_ok_after
        dest!: cache_ok_flush [OF S] publish_invalidationD)
next
  case (OpGet now key)
  with step show ?thesis by (auto dest: cache_get_ok [OF S ok])
next
  case (OpGetEncoded now key)
  with step show ?thesis by (auto dest: get_encoded_ok [OF S ok])
next
  case (OpContains now key)
  with step show ?thesis by (auto dest: contains_key_ok [OF S ok])
next
  case (OpPut now key val opts)
  with step show ?thesis by (auto simp: put_bytes_def dest: cache_ok_put [OF S ok])
next
  case (OpRemote v msg)
  with step show ?thesis by (auto dest: apply_remote_ok [OF S ok])
next
  case (OpLoadFinish now now' task loaded)
  with step show ?thesis by (auto dest: load_finish_ok [OF S ok])
qed (use step in \<open>auto intro: cache_ok_after [OF ok]\<close>)

lemma cache_run_ok:
  "store_laws S \<Longrightarrow> cache_ok S c \<Longrightarrow> cache_run S lay dec ops c = Some c' \<Longrightarrow> cache_ok S c'"
  by (induction ops arbitrary: c) (auto split: option.splits dest: cache_step_ok)

end
