(* ===== verification/Local_Cache_Props.thy ===== *)
theory Local_Cache_Props
  imports Local_Cache_Inv
begin

text \<open>
  The main properties of the local cache over arbitrary histories of calls: invalidations remove
  what they name, overtaken loads are discarded, and a read returns what was last written.
\<close>

section \<open>Calls and the fence\<close>

lemma traces_mono: "traces P c c' \<Longrightarrow> (\<And>op. P op \<Longrightarrow> Q op) \<Longrightarrow> traces Q c c'"
  unfolding traces_def by blast

lemma traces_if:
  "traces P c c' \<Longrightarrow> (\<And>op. b \<Longrightarrow> P op \<Longrightarrow> Q op) \<Longrightarrow> if b then traces Q c c' else traces_any c c'"
  by (auto intro: traces_mono traces_imp_any)

lemma traces_start:
  assumes "tag_index_of c0 = tag_index_of c"
  shows "traces P c0 c' = traces P c c'" "traces_any c0 c' = traces_any c c'"
  using assms by (simp_all add: traces_def traces_any_def index_trace_def)

lemma cache_get_traces: "cache_get S dec now key c = Some (r, c') \<Longrightarrow> traces_any c c'"
  by (auto simp: cache_get_def bind_eq_Some_conv split: option.splits if_splits sum.splits
      intro: traces_any_cong [OF traces_remove_entry] traces_any_cong [OF traces_remove_expired])

lemma get_encoded_traces: "get_encoded S now key c = Some (r, c') \<Longrightarrow> traces_any c c'"
  by (auto simp: get_encoded_def bind_eq_Some_conv split: option.splits if_splits
      intro: traces_any_cong [OF traces_remove_expired])

lemma contains_key_traces: "contains_key S now key c = Some (r, c') \<Longrightarrow> traces_any c c'"
  by (auto simp: contains_key_def bind_eq_Some_conv split: option.splits if_splits
      intro: traces_remove_expired)

lemma apply_remote_traces:
  assumes "apply_remote_invalidation S v msg c = Some (r, c')"
  shows "if remote_accepted v msg \<and> message_kills (msg_invalidation msg) req
    then traces (\<lambda>op. invalidates op req) c c' else traces_any c c'"
proof (cases "remote_accepted v msg")
  case False
  then have "c' = c"
    using assms by (auto simp: apply_remote_invalidation_def remote_accepted_def split: option.splits sum.splits)
  with False show ?thesis by simp
next
  case True
  obtain key tags where req: "req = (key, tags)" by (cases req)
  let ?c = "bump distributed_invalidations_received_update c"
  from True assms obtain c1 where c1: "(case msg_invalidation msg of
        InvalidateKey key \<Rightarrow> map_option snd (remove_with_event S key KeyInvalidated DistributedBus ?c)
      | InvalidateTag tag \<Rightarrow> map_option snd (invalidate_tag_with_origin S tag DistributedBus ?c)
      | InvalidateAll \<Rightarrow> flush_with_origin S DistributedBus ?c) = Some c1"
    and c': "tag_index_of c' = tag_index_of c1"
    by (auto simp: apply_remote_invalidation_def remote_accepted_def bind_eq_Some_conv Let_def
        split: option.splits sum.splits)
  define P where "P = (\<lambda>op. case msg_invalidation msg of InvalidateKey k \<Rightarrow> op = AdvanceKey k
    | InvalidateTag t \<Rightarrow> op = TakeTag t | InvalidateAll \<Rightarrow> op = Clear)"
  have "traces P ?c c1"
    using c1 by (auto simp: P_def split: cache_invalidation.splits
        intro: traces_remove_with_event traces_invalidate_tag traces_flush)
  then have tr: "traces P c c'"
    by (simp add: traces_def index_trace_def c')
  moreover have "invalidates op req" if "message_kills (msg_invalidation msg) req" "P op" for op
    using that by (auto simp: P_def req split: cache_invalidation.splits)
  ultimately show ?thesis
    by (auto intro: traces_mono traces_imp_any)
qed

lemma traces_answer:
  "traces P c c1 \<Longrightarrow> answer_published io w x c1 = (r, c') \<Longrightarrow> traces P c c'"
  by (auto dest!: answer_publishedD intro: traces_cong)

lemma cache_step_traces:
  assumes "cache_step S lay dec op c = Some c'"
  shows "if cache_kills op (key, tags) then traces (\<lambda>o'. invalidates o' (key, tags)) c c' else traces_any c c'"
proof (cases op)
  case (OpInvalidateKey io k)
  with assms obtain b c1 r where "remove_with_event S k KeyInvalidated LocalApi c = Some (b, c1)"
    "answer_published io (InvalidateKey k) b c1 = (r, c')"
    by (auto simp: invalidate_key_def bind_eq_Some_conv)
  then have "traces (\<lambda>op. op = AdvanceKey k) c c'"
    by (rule traces_answer [OF traces_remove_with_event])
  then show ?thesis by (rule traces_if) (use OpInvalidateKey in auto)
next
  case (OpRemove io k)
  with assms obtain b c1 r where "remove_with_event S k Removed LocalApi c = Some (b, c1)"
    "answer_published io (InvalidateKey k) b c1 = (r, c')"
    by (auto simp: cache_remove_def bind_eq_Some_conv)
  then have "traces (\<lambda>op. op = AdvanceKey k) c c'"
    by (rule traces_answer [OF traces_remove_with_event])
  then show ?thesis by (rule traces_if) (use OpRemove in auto)
next
  case (OpInvalidateTag io t)
  with assms obtain n c1 r where "invalidate_tag_with_origin S t LocalApi c = Some (n, c1)"
    "answer_published io (InvalidateTag t) n c1 = (r, c')"
    by (auto simp: invalidate_tag_def bind_eq_Some_conv)
  then have "traces (\<lambda>op. op = TakeTag t) c c'"
    by (rule traces_answer [OF traces_invalidate_tag])
  then show ?thesis by (rule traces_if) (use OpInvalidateTag in auto)
next
  case (OpFlush io)
  with assms obtain c1 r where "flush_with_origin S LocalApi c = Some c1"
    "publish_invalidation io InvalidateAll c1 = (r, c')"
    by (auto simp: cache_flush_def bind_eq_Some_conv)
  then have "traces (\<lambda>op. op = Clear) c c'"
    by (auto dest!: publish_invalidationD traces_flush intro: traces_cong)
  then show ?thesis by (rule traces_if) (use OpFlush in auto)
next
  case (OpRemote v msg)
  with assms obtain r where "apply_remote_invalidation S v msg c = Some (r, c')" by auto
  from apply_remote_traces [OF this, of "(key, tags)"] OpRemote show ?thesis by simp
qed (use assms in \<open>auto simp: put_bytes_def dest: cache_get_traces get_encoded_traces contains_key_traces
    traces_put load_finish_traces\<close>)

lemma cache_run_traces:
  "cache_run S lay dec ops c = Some c' \<Longrightarrow>
    if \<exists>op \<in> set ops. cache_kills op (key, tags) then traces (\<lambda>o'. invalidates o' (key, tags)) c c'
    else traces_any c c'"
proof (induction ops arbitrary: c)
  case (Cons op ops)
  then obtain c1 where step: "cache_step S lay dec op c = Some c1" and rest: "cache_run S lay dec ops c1 = Some c'"
    by (auto split: option.splits)
  have any: "traces_any c c1" "traces_any c1 c'"
    using cache_step_traces [OF step, of key tags] Cons.IH [OF rest] by (auto split: if_splits intro: traces_imp_any)
  show ?case
    using cache_step_traces [OF step, of key tags] Cons.IH [OF rest] any
    by (auto split: if_splits intro: traces_then then_traces traces_any_trans)
qed simp

section \<open>A concrete store\<close>

text \<open>A store without eviction, to evaluate the model on concrete inputs.\<close>

definition map_store :: "(string, cache_entry) btmap store_ops" where
  "map_store = \<lparr>store_get = bt_get, store_insert = bt_insert, store_invalidate = bt_remove,
     store_invalidate_all = (\<lambda>_. []), store_run_pending_tasks = id, store_entry_count = (\<lambda>s. of_nat (length s))\<rparr>"

lemma map_store_laws: "store_laws map_store"
  by (simp add: store_laws_def store_shrinks_def map_store_def)

definition local_cache_new :: "(string, cache_entry) btmap \<Rightarrow> (_, nat) hydra_cache" where
  "local_cache_new s = \<lparr>cache_store = s, tag_index_of = tag_index_default, in_flight = in_flight_default,
     default_ttl = 300000000000, max_entry_bytes = 16777216, cache_stats = stats_default,
     cache_events = \<lparr>bus_sent = [], receiver_count = 0, access_events = False\<rparr>,
     load_breaker_of = registry_new policy_disabled, next_entry_version_of = 1,
     invalidation_node_id = ''node'', bus_attached = False, bus_published = []\<rparr>"

definition no_bus :: bus_io where
  "no_bus = \<lparr>runtime_generation = None, bus_publish_result = Inr ()\<rparr>"

definition small_layout :: layout where
  "small_layout = \<lparr>size_of_cache_entry = 72, size_of_string = 24\<rparr>"

lemmas cache_eval = local_cache_new_def map_store_def small_layout_def no_bus_def
  shared_load_def load_start_def load_finish_def load_store_def load_report_def put_bytes_if_fresh_def
  put_bytes_unchecked_def put_bytes_def cache_get_def invalidate_tag_def invalidate_tag_with_origin_def
  answer_published_def publish_invalidation_def publish_key_event_with_prepared_tags_def
  publish_key_event_def publish_tag_event_def event_tags_if_observed_def may_publish_def should_publish_def
  get_current_def insert_or_get_current_def handle_for_def in_flight_default_def
  remove_if_generation_matches_def before_load_def after_load_result_def registry_new_def
  policy_disabled_def is_enabled_def snapshot_def is_current_def take_tag_def tag_index_default_def
  publish_generation_state_def checked_add_def gen_of_def MAX_GENERATION_TOMBSTONES_def
  register_def insert_membership_def bt_empty_def bt_remove_def bt_keys_def
  exceeds_max_entry_bytes_def stats_default_def Let_def

lemmas put_eval = next_entry_version_def entry_memory_delta_new_def for_entry_def usize_to_u64_def
  estimate_mul_def estimate_add_def estimate_tag_def checked_mul_def ok_or_def tag_retained_bytes_def
  PRIMARY_INDEX_METADATA_BYTES_def TAG_INDEX_MEMBERSHIP_METADATA_BYTES_def EXPIRY_SCHEDULER_METADATA_BYTES_def
  instant_checked_add_def INSTANT_MAX_def unregister_def drop_membership_def remove_entry_def

section \<open>Properties\<close>

lemma put_bytes_if_fresh_stale:
  "\<not> is_current g (tag_index_of c) \<Longrightarrow> put_bytes_if_fresh S lay now key val opts g c = Some (r, c') \<Longrightarrow>
    r = Inr False \<and> cache_store c' = cache_store c \<and> tag_index_of c' = tag_index_of c"
  by (auto simp: put_bytes_if_fresh_def split: if_splits)

lemma load_finish_stale:
  assumes "\<not> is_current (task_generation task) (tag_index_of c)"
    "load_finish S lay now now' task loaded c = Some (r, c')"
  shows "r = loaded \<and> cache_store c' = cache_store c \<and> tag_index_of c' = tag_index_of c"
proof -
  obtain c1 where c1: "load_store S lay now task loaded c = Some (r, c1)"
    "cache_store c' = cache_store c1" "tag_index_of c' = tag_index_of c1"
    using assms(2) by (rule load_finishE)
  from c1(1) show ?thesis
  proof (cases rule: load_storeE)
    case (put val r1 c2)
    with put_bytes_if_fresh_stale [OF assms(1) put(2)] c1(2,3) show ?thesis by simp
  qed (use c1 in simp)
qed

lemma load_finish_stale_total:
  "\<not> is_current (task_generation task) (tag_index_of c) \<Longrightarrow> \<exists>d. load_finish S lay now now' task loaded c = Some d"
  by (cases loaded) (auto simp: load_finish_def load_store_def put_bytes_if_fresh_def)

lemma load_start_generation: "task_generation (fst (load_start key opts g c)) = g"
  by (simp add: load_start_def Let_def)

lemma shared_load_owned:
  "shared_load now now' key opts fut c = (LoadOwned h, c') \<Longrightarrow>
    handle_generation h = snapshot key (opt_tags opts) (tag_index_of c)"
  by (auto simp: shared_load_def insert_or_get_current_def handle_for_def Let_def
      split: option.splits prod.splits load_breaker_decision.splits if_splits)

text \<open>
  C1. An overtaken load never stores its result. A call becomes the owner of a load, other calls
  run, the loader starts, more calls run, and the loader ends with some outcome. If one of the
  calls in between invalidated the key or one of the tags of the load, flushed the cache, or
  applied a remote message doing so, then finishing the load changes neither the stored
  entries nor the tag index, while its callers still get the outcome of the loader.
  The calls in between run one after the other, each without interruption.
\<close>
theorem stale_load_discarded:
  assumes own: "shared_load t t' key opts fut c = (LoadOwned h, c0)"
    and run1: "cache_run S lay dec ops1 c0 = Some c1"
    and start: "load_start key opts (handle_generation h) c1 = (task, c2)"
    and run2: "cache_run S lay dec ops2 c2 = Some c3"
    and overtaken: "op \<in> set (ops1 @ ops2)" "cache_kills op (key, opt_tags opts)"
    and finish: "load_finish S lay now now' task loaded c3 = Some (r, c4)"
  shows "r = loaded \<and> cache_store c4 = cache_store c3 \<and> tag_index_of c4 = tag_index_of c3"
proof -
  let ?r = "(key, opt_tags opts)"
  have c0: "tag_index_of c0 = tag_index_of c"
    using shared_load_sel(2) [of t t' key opts fut c] own by simp
  have c2: "tag_index_of c2 = tag_index_of c1"
    using load_start_sel(2) [of key opts "handle_generation h" c1] start by simp
  have gen: "task_generation task = snapshot key (opt_tags opts) (tag_index_of c)"
    using start shared_load_owned [OF own] by (auto simp: load_start_def Let_def)
  have tr1: "if \<exists>op \<in> set ops1. cache_kills op ?r then traces (\<lambda>o'. invalidates o' ?r) c c1 else traces_any c c1"
    using cache_run_traces [OF run1, of key "opt_tags opts"] unfolding traces_start [OF c0] .
  have tr2: "if \<exists>op \<in> set ops2. cache_kills op ?r then traces (\<lambda>o'. invalidates o' ?r) c1 c3 else traces_any c1 c3"
    using cache_run_traces [OF run2, of key "opt_tags opts"] unfolding traces_start [OF c2] .
  have any: "traces_any c c1" "traces_any c1 c3"
    using tr1 tr2 by (auto split: if_splits intro: traces_imp_any)
  have "traces (\<lambda>o'. invalidates o' ?r) c c3"
  proof (cases "op \<in> set ops1")
    case True
    with tr1 overtaken(2) have "traces (\<lambda>o'. invalidates o' ?r) c c1" by (auto split: if_splits)
    then show ?thesis using any(2) by (rule traces_then)
  next
    case False
    with tr2 overtaken have "traces (\<lambda>o'. invalidates o' ?r) c1 c3" by (auto split: if_splits)
    with any(1) show ?thesis by (rule then_traces)
  qed
  then obtain tops o' where "run_ops tops (tag_index_of c) = Some (tag_index_of c3)" "o' \<in> set tops" "invalidates o' ?r"
    by (auto simp: traces_def index_trace_def)
  then have "\<not> is_current (task_generation task) (tag_index_of c3)"
    unfolding gen by (rule snapshot_fenced)
  then show ?thesis using finish by (rule load_finish_stale)
qed

theorem stale_load_discarded_witness:
  "\<exists>h c0 task c2 c3 c4. shared_load 0 0 ''k'' \<lparr>opt_ttl = None, opt_tags = [''t'']\<rparr> 7 (local_cache_new []) = (LoadOwned h, c0)
    \<and> load_start ''k'' \<lparr>opt_ttl = None, opt_tags = [''t'']\<rparr> (handle_generation h) c0 = (task, c2)
    \<and> cache_run map_store small_layout Inr [OpInvalidateTag no_bus ''t''] c2 = Some c3
    \<and> load_finish map_store small_layout 1 1 task (Inr [42]) c3 = Some (Inr [42], c4)
    \<and> cache_store c4 = []"
proof -
  define opts where "opts = \<lparr>opt_ttl = None, opt_tags = [''t'']\<rparr>"
  define d0 where "d0 = shared_load 0 0 ''k'' opts (7::nat) (local_cache_new [])"
  define h where "h = handle_for ''k'' (snapshot ''k'' [''t''] tag_index_default) (7::nat) 0"
  define d2 where "d2 = load_start ''k'' opts (handle_generation h) (snd d0)"
  have e0: "d0 = (LoadOwned h, snd d0)" by (simp add: d0_def h_def opts_def cache_eval)
  have "\<exists>c3. cache_run map_store small_layout (Inr :: bytes \<Rightarrow> cache_error + bytes) [OpInvalidateTag no_bus ''t''] (snd d2)
      = Some c3 \<and> cache_store c3 = [] \<and> \<not> is_current (handle_generation h) (tag_index_of c3)"
    by (simp add: d2_def d0_def h_def opts_def cache_eval)
  then obtain c3 where e3: "cache_run map_store small_layout (Inr :: bytes \<Rightarrow> cache_error + bytes)
      [OpInvalidateTag no_bus ''t''] (snd d2) = Some c3" and s3: "cache_store c3 = []"
    and "\<not> is_current (handle_generation h) (tag_index_of c3)" by blast
  then obtain d4 where e4: "load_finish map_store small_layout 1 1 (fst d2) (Inr [42]) c3 = Some d4"
    using load_finish_stale_total by (metis d2_def load_start_generation)
  have "fst d4 = Inr [42] \<and> cache_store (snd d4) = []"
    using stale_load_discarded [where ?ops1.0 = "[]" and ?ops2.0 = "[OpInvalidateTag no_bus ''t'']"
        and op = "OpInvalidateTag no_bus ''t''" and key = "''k''" and opts = opts and t = 0 and t' = 0
        and fut = 7 and c = "local_cache_new []" and h = h and ?c0.0 = "snd d0" and ?c1.0 = "snd d0"
        and task = "fst d2" and ?c2.0 = "snd d2" and ?c3.0 = c3 and ?c4.0 = "snd d4" and now = 1 and now' = 1
        and S = map_store and lay = small_layout and dec = "Inr :: bytes \<Rightarrow> cache_error + bytes"
        and loaded = "Inr [42]" and r = "fst d4"]
      e0 e3 e4 s3 by (simp add: d0_def d2_def opts_def)
  then show ?thesis
    using e0 e3 e4 unfolding opts_def [symmetric] by (metis d0_def d2_def prod.collapse)
qed

lemma cache_run_append:
  "cache_run S lay dec (ops @ ops') c =
    (case cache_run S lay dec ops c of None \<Rightarrow> None | Some c' \<Rightarrow> cache_run S lay dec ops' c')"
  by (induction ops arbitrary: c) (auto split: option.splits)

text \<open>What an invalidation names.\<close>

fun names :: "cache_invalidation \<Rightarrow> string \<Rightarrow> cache_entry \<Rightarrow> bool" where
  "names (InvalidateKey k') k e = (k' = k)"
| "names (InvalidateTag t) k e = (t \<in> set (entry_tags e))"
| "names InvalidateAll k e = True"

fun op_invalidation :: "'f cache_op \<Rightarrow> cache_invalidation option" where
  "op_invalidation (OpInvalidateKey io k) = Some (InvalidateKey k)"
| "op_invalidation (OpRemove io k) = Some (InvalidateKey k)"
| "op_invalidation (OpInvalidateTag io t) = Some (InvalidateTag t)"
| "op_invalidation (OpFlush io) = Some InvalidateAll"
| "op_invalidation (OpRemote v msg) = (if remote_accepted v msg then Some (msg_invalidation msg) else None)"
| "op_invalidation _ = None"

lemma remote_clears:
  assumes S: "store_laws S" and ok: "cache_ok S c" and acc: "remote_accepted v msg"
    and rem: "apply_remote_invalidation S v msg c = Some (r, c')"
    and stored: "store_get S (cache_store c') k = Some e"
  shows "\<not> names (msg_invalidation msg) k e"
proof -
  let ?c = "bump distributed_invalidations_received_update c"
  have ok1: "cache_ok S ?c" using ok by (simp add: cache_ok_def)
  from acc rem obtain c1 where c1: "(case msg_invalidation msg of
        InvalidateKey key \<Rightarrow> map_option snd (remove_with_event S key KeyInvalidated DistributedBus ?c)
      | InvalidateTag tag \<Rightarrow> map_option snd (invalidate_tag_with_origin S tag DistributedBus ?c)
      | InvalidateAll \<Rightarrow> flush_with_origin S DistributedBus ?c) = Some c1"
    and c': "cache_store c' = cache_store c1"
    by (auto simp: apply_remote_invalidation_def remote_accepted_def bind_eq_Some_conv Let_def
        split: option.splits sum.splits)
  show ?thesis
  proof (cases "msg_invalidation msg")
    case (InvalidateKey key)
    with c1 obtain b where "remove_with_event S key KeyInvalidated DistributedBus ?c = Some (b, c1)" by auto
    from cache_ok_remove_with_event [OF S ok1 this] stored c' InvalidateKey show ?thesis by auto
  next
    case (InvalidateTag tag)
    with c1 obtain n where "invalidate_tag_with_origin S tag DistributedBus ?c = Some (n, c1)" by auto
    from invalidate_tag_ok [OF S ok1 this] stored c' InvalidateTag show ?thesis by auto
  next
    case InvalidateAll
    with c1 have "flush_with_origin S DistributedBus ?c = Some c1" by simp
    from cache_ok_flush [OF S this] stored c' show ?thesis by auto
  qed
qed

lemma step_clears:
  assumes S: "store_laws S" and ok: "cache_ok S c" and step: "cache_step S lay dec op c = Some c'"
    and what: "op_invalidation op = Some w" and stored: "store_get S (cache_store c') k = Some e"
  shows "\<not> names w k e"
proof (cases op)
  case (OpInvalidateKey io key)
  with step obtain b c1 r where "remove_with_event S key KeyInvalidated LocalApi c = Some (b, c1)"
    "answer_published io (InvalidateKey key) b c1 = (r, c')"
    by (auto simp: invalidate_key_def bind_eq_Some_conv)
  with cache_ok_remove_with_event [OF S ok this(1)] answer_publishedD [OF this(2)] stored what OpInvalidateKey
  show ?thesis by auto
next
  case (OpRemove io key)
  with step obtain b c1 r where "remove_with_event S key Removed LocalApi c = Some (b, c1)"
    "answer_published io (InvalidateKey key) b c1 = (r, c')"
    by (auto simp: cache_remove_def bind_eq_Some_conv)
  with cache_ok_remove_with_event [OF S ok this(1)] answer_publishedD [OF this(2)] stored what OpRemove
  show ?thesis by auto
next
  case (OpInvalidateTag io tag)
  with step obtain n c1 r where "invalidate_tag_with_origin S tag LocalApi c = Some (n, c1)"
    "answer_published io (InvalidateTag tag) n c1 = (r, c')"
    by (auto simp: invalidate_tag_def bind_eq_Some_conv)
  with invalidate_tag_ok [OF S ok this(1)] answer_publishedD [OF this(2)] stored what OpInvalidateTag
  show ?thesis by auto
next
  case (OpFlush io)
  with step obtain c1 r where "flush_with_origin S LocalApi c = Some c1"
    "publish_invalidation io InvalidateAll c1 = (r, c')"
    by (auto simp: cache_flush_def bind_eq_Some_conv)
  with cache_ok_flush [OF S this(1)] publish_invalidationD [OF this(2)] stored show ?thesis by auto
next
  case (OpRemote v msg)
  with step obtain r where "apply_remote_invalidation S v msg c = Some (r, c')" by auto
  with remote_clears [OF S ok _ this stored] what OpRemote show ?thesis by (auto split: if_splits)
qed (use what in auto)

text \<open>
  C3. Tag invalidation is complete. After any history of calls on a cache that started empty,
  whatever the store evicted on the way, invalidating a tag (locally or by an accepted remote
  message) leaves no entry carrying the tag in the store, and the same holds for the key after an
  invalidation by key and for everything after a flush.
  The calls of the history run one after the other, each without interruption.
\<close>
theorem invalidation_complete:
  assumes S: "store_laws S" and empty: "\<And>k. store_get S (cache_store c0) k = None"
    and run: "cache_run S lay dec (ops @ [op]) c0 = Some c"
    and what: "op_invalidation op = Some w" and stored: "store_get S (cache_store c) k = Some e"
  shows "\<not> names w k e"
proof -
  have "cache_ok S c0" using empty by (simp add: cache_ok_def)
  moreover obtain c1 where run1: "cache_run S lay dec ops c0 = Some c1"
    and step: "cache_step S lay dec op c1 = Some c"
    using run by (auto simp: cache_run_append split: option.splits)
  ultimately have "cache_ok S c1" using S cache_run_ok by blast
  then show ?thesis using step_clears [OF S _ step what stored] by blast
qed

theorem invalidation_complete_witness:
  "let ops = [OpPut 0 ''a'' [1] \<lparr>opt_ttl = None, opt_tags = [''t'']\<rparr>,
              OpPut 0 ''b'' [2] \<lparr>opt_ttl = None, opt_tags = [''u'']\<rparr>];
       c = the (cache_run map_store small_layout (Inr :: bytes \<Rightarrow> cache_error + bytes)
             (ops @ [OpInvalidateTag no_bus ''t'']) (local_cache_new [])) in
   \<exists>e. store_get map_store (cache_store c) ''b'' = Some e \<and> \<not> names (InvalidateTag ''t'') ''b'' e"
proof -
  define ops where "ops = [OpPut 0 ''a'' [1] \<lparr>opt_ttl = None, opt_tags = [''t'']\<rparr>,
              OpPut 0 ''b'' [2] \<lparr>opt_ttl = None, opt_tags = [''u'']\<rparr> :: nat cache_op]"
  define c where "c = the (cache_run map_store small_layout (Inr :: bytes \<Rightarrow> cache_error + bytes)
             (ops @ [OpInvalidateTag no_bus ''t'']) (local_cache_new []))"
  have run: "cache_run map_store small_layout (Inr :: bytes \<Rightarrow> cache_error + bytes)
             (ops @ [OpInvalidateTag no_bus ''t'']) (local_cache_new []) = Some c"
    by (simp add: c_def ops_def cache_eval put_eval)
  have "store_get map_store (cache_store c) ''b'' \<noteq> None"
    by (simp add: c_def ops_def cache_eval put_eval)
  then obtain e where e: "store_get map_store (cache_store c) ''b'' = Some e" by auto
  have "\<not> names (InvalidateTag ''t'') ''b'' e"
    by (rule invalidation_complete [OF map_store_laws _ run _ e])
      (simp_all add: local_cache_new_def map_store_def)
  with e show ?thesis unfolding Let_def ops_def [symmetric] c_def [symmetric] by blast
qed

end
