(* ===== verification/Fnv.thy ===== *)
theory Fnv
  imports Prelude
begin

text \<open>
  The 64-bit FNV-1a hash, which the sources write out in several places: rendezvous scores and
  partition numbers (\<open>cluster/ownership.rs\<close>, \<open>grid/mod.rs\<close>), checksums of durable records
  (\<open>grid/hardening.rs\<close>) and the codes of session tokens. Shown: every step is injective in the state
  and in the byte, so two inputs of one length that differ in one byte have different hashes.
\<close>

unbundle bit_operations_syntax

definition FNV_OFFSET :: u64 where
  "FNV_OFFSET = 0xcbf29ce484222325"

definition FNV_PRIME :: u64 where
  "FNV_PRIME = 0x100000001b3"

definition fnv_byte :: "u64 \<Rightarrow> u8 \<Rightarrow> u64" where
  "fnv_byte hash byte = (hash XOR ucast byte) * FNV_PRIME"

definition fnv_bytes :: "u64 \<Rightarrow> bytes \<Rightarrow> u64" where
  "fnv_bytes hash bs = foldl fnv_byte hash bs"

definition str_bytes :: "string \<Rightarrow> bytes" where
  "str_bytes s = map of_char s"

definition u32_le_bytes :: "u32 \<Rightarrow> bytes" where
  "u32_le_bytes w = map (\<lambda>i. ucast (drop_bit (8 * i) w)) [0, 1, 2, 3]"

definition u64_le_bytes :: "u64 \<Rightarrow> bytes" where
  "u64_le_bytes w = map (\<lambda>i. ucast (drop_bit (8 * i) w)) [0, 1, 2, 3, 4, 5, 6, 7]"

lemma fnv_bytes_simps [simp]:
  "fnv_bytes h [] = h" "fnv_bytes h (b # bs) = fnv_bytes (fnv_byte h b) bs"
  "fnv_bytes h (bs @ cs) = fnv_bytes (fnv_bytes h bs) cs"
  by (simp_all add: fnv_bytes_def)

lemma length_le_bytes [simp]: "length (u32_le_bytes v) = 4" "length (u64_le_bytes w) = 8"
  by (simp_all add: u32_le_bytes_def u64_le_bytes_def)

section \<open>Injectivity\<close>

text \<open>The prime is odd, hence a unit modulo \<open>2 ^ 64\<close>.\<close>

lemma fnv_prime_unit: "FNV_PRIME * 0xce965057aff6957b = 1"
  by (simp add: FNV_PRIME_def)

lemma fnv_mult_cancel [simp]: "a * FNV_PRIME = b * FNV_PRIME \<longleftrightarrow> a = b"
proof
  assume "a * FNV_PRIME = b * FNV_PRIME"
  then have "a * (FNV_PRIME * 0xce965057aff6957b) = b * (FNV_PRIME * 0xce965057aff6957b)"
    by (simp only: mult.assoc [symmetric])
  then show "a = b" by (simp only: fnv_prime_unit mult_1_right)
qed simp

lemma xor_cancel_right [simp]: "(a :: 'a::len word) XOR c = b XOR c \<longleftrightarrow> a = b"
  by (metis xor.assoc xor_self_eq xor.right_neutral)

lemma unat_ucast_u8 [simp]: "unat (ucast (b :: u8) :: u64) = unat b"
  using unat_bound [of b] by (simp add: unsigned_ucast_eq take_bit_nat_eq_self)

lemma ucast_u8_inject [simp]: "(ucast (b :: u8) :: u64) = ucast c \<longleftrightarrow> b = c"
  by (metis unat_ucast_u8 word_unat_eq_iff)

lemma fnv_byte_state_inject [simp]: "fnv_byte h b = fnv_byte h' b \<longleftrightarrow> h = h'"
  by (simp add: fnv_byte_def)

lemma fnv_byte_inject [simp]: "fnv_byte h b = fnv_byte h c \<longleftrightarrow> b = c"
  unfolding fnv_byte_def fnv_mult_cancel by (metis xor_cancel_right ucast_u8_inject xor.commute)

lemma fnv_bytes_state_inject [simp]: "fnv_bytes h bs = fnv_bytes h' bs \<longleftrightarrow> h = h'"
  by (induction bs arbitrary: h h') auto

lemma fnv_detects_byte:
  assumes "i < length bs" "b \<noteq> bs ! i"
  shows "fnv_bytes h (bs[i := b]) \<noteq> fnv_bytes h bs"
proof -
  define pre post where "pre = take i bs" and "post = drop (Suc i) bs"
  then have "bs = pre @ bs ! i # post" "bs[i := b] = pre @ b # post"
    using id_take_nth_drop [OF assms(1)] upd_conv_take_nth_drop [OF assms(1)] by metis+
  then have "fnv_bytes h (bs[i := b]) = fnv_bytes h (pre @ b # post)"
    "fnv_bytes h bs = fnv_bytes h (pre @ bs ! i # post)" by metis+
  then show ?thesis using assms(2) by simp
qed

end
