(* ===== verification/Ownership.thy ===== *)
theory Ownership
  imports Fnv Ordered_Map
begin

text \<open>
  Cluster identities and key ownership (\<open>cluster/ids.rs\<close>, \<open>membership.rs\<close>, \<open>ownership.rs\<close>,
  \<open>topology.rs\<close>, \<open>near_cache.rs\<close>): roles, admitted members, the rendezvous choice of an owner, partition
  numbers, the epoch fence and the watermark of near caches. Shown: the owner is the greatest member by
  score, whatever the order of the participants, and membership changes move only the keys they
  must.
\<close>

section \<open>Identities\<close>

type_synonym cluster_node_id = string
type_synonym cluster_generation = u64
type_synonym cluster_epoch = u64
type_synonym partition_id = u32

definition generation_next :: "cluster_generation \<Rightarrow> cluster_generation" where
  "generation_next g = sat_add g 1"

definition epoch_advance :: "cluster_epoch \<Rightarrow> cluster_epoch" where
  "epoch_advance e = sat_add e 1"

datatype cluster_role = LocalRole | ClientRole | MemberRole

definition can_vote :: "cluster_role \<Rightarrow> bool" where
  "can_vote r \<longleftrightarrow> r = MemberRole"

section \<open>Members\<close>

record cluster_endpoints =
  ep_control :: "string option"
  ep_invalidation :: "string option"
  ep_diagnostics :: "string option"

record cluster_candidate =
  cand_node_id :: cluster_node_id
  cand_generation :: cluster_generation
  cand_role :: cluster_role
  cand_endpoints :: cluster_endpoints
  cand_metadata :: "(string, string) btmap"

record cluster_member =
  mem_node_id :: cluster_node_id
  mem_generation :: cluster_generation
  mem_role :: cluster_role
  mem_epoch :: cluster_epoch
  mem_endpoints :: cluster_endpoints
  mem_metadata :: "(string, string) btmap"

definition endpoints_default :: cluster_endpoints where
  "endpoints_default = \<lparr>ep_control = None, ep_invalidation = None, ep_diagnostics = None\<rparr>"

definition candidate_new :: "cluster_node_id \<Rightarrow> cluster_role \<Rightarrow> cluster_candidate" where
  "candidate_new node role = \<lparr>cand_node_id = node, cand_generation = 0, cand_role = role,
     cand_endpoints = endpoints_default, cand_metadata = bt_empty\<rparr>"

definition from_candidate :: "cluster_candidate \<Rightarrow> cluster_epoch \<Rightarrow> cluster_member" where
  "from_candidate c epoch = \<lparr>mem_node_id = cand_node_id c, mem_generation = cand_generation c,
     mem_role = cand_role c, mem_epoch = epoch, mem_endpoints = cand_endpoints c, mem_metadata = cand_metadata c\<rparr>"

definition is_client :: "cluster_member \<Rightarrow> bool" where
  "is_client m \<longleftrightarrow> mem_role m = ClientRole"

definition is_member :: "cluster_member \<Rightarrow> bool" where
  "is_member m \<longleftrightarrow> mem_role m = MemberRole"

section \<open>Ownership\<close>

record cluster_ownership_decision =
  dec_key :: string
  dec_owner :: "cluster_member option"
  dec_member_count :: usize
  dec_resolver :: string

definition has_owner :: "cluster_ownership_decision \<Rightarrow> bool" where
  "has_owner d \<longleftrightarrow> dec_owner d \<noteq> None"

definition owner_node_id :: "cluster_ownership_decision \<Rightarrow> cluster_node_id option" where
  "owner_node_id d = map_option mem_node_id (dec_owner d)"

definition owner_generation :: "cluster_ownership_decision \<Rightarrow> cluster_generation option" where
  "owner_generation d = map_option mem_generation (dec_owner d)"

definition rendezvous_score :: "string \<Rightarrow> cluster_node_id \<Rightarrow> u64" where
  "rendezvous_score key node = fnv_bytes FNV_OFFSET (str_bytes key @ [0xff] @ str_bytes node)"

definition owner_step :: "string \<Rightarrow> cluster_member \<Rightarrow> usize \<times> (u64 \<times> cluster_member) option
    \<Rightarrow> usize \<times> (u64 \<times> cluster_member) option" where
  "owner_step key p = (\<lambda>(n, best).
     let score = rendezvous_score key (mem_node_id p);
         replace = (case best of
             Some (best_score, best_member) \<Rightarrow>
               best_score < score \<or> (score = best_score \<and> mem_node_id best_member < mem_node_id p)
           | None \<Rightarrow> True)
     in (usize_sat_add n 1, if replace then Some (score, p) else best))"

definition resolve_owner :: "string \<Rightarrow> cluster_member list \<Rightarrow> cluster_ownership_decision" where
  "resolve_owner key participants =
     (case fold (owner_step key) (filter is_member participants) (0, None) of
        (n, best) \<Rightarrow>
          \<lparr>dec_key = key, dec_owner = map_option snd best, dec_member_count = n, dec_resolver = ''rendezvous''\<rparr>)"

definition stable_key_hash :: "string \<Rightarrow> u64" where
  "stable_key_hash key = fnv_bytes FNV_OFFSET (str_bytes key)"

definition partition_for_key :: "string \<Rightarrow> u32 \<Rightarrow> partition_id" where
  "partition_for_key key partition_count =
     (let partition_count = max partition_count 1 in ucast (stable_key_hash key mod ucast partition_count))"

datatype cluster_replica_config_error = MinReplicaZero | ReplicaQuorumZero | QuorumExceedsReplication

definition validate_replica_config :: "usize \<Rightarrow> usize \<Rightarrow> usize \<Rightarrow> cluster_replica_config_error + unit" where
  "validate_replica_config min_replica replication_factor quorum =
     (if min_replica < 1 then Inl MinReplicaZero
      else if quorum = 0 then Inl ReplicaQuorumZero
      else if replication_factor < quorum then Inl QuorumExceedsReplication
      else Inr ())"

section \<open>The epoch fence and the near cache\<close>

record transport_posture =
  tp_auth :: bool
  tp_wire_strict :: bool
  tp_mesh_declared :: bool

definition posture_is_safe :: "transport_posture \<Rightarrow> bool" where
  "posture_is_safe p \<longleftrightarrow> (tp_auth p \<and> tp_wire_strict p) \<or> tp_mesh_declared p"

definition posture_highlight :: "transport_posture \<Rightarrow> string option" where
  "posture_highlight p = (if \<not> tp_auth p \<and> \<not> tp_mesh_declared p then Some ''AUTH MISSING'' else None)"

record topology_fence =
  committed_epoch :: cluster_epoch

definition fence_admit :: "cluster_epoch \<Rightarrow> topology_fence \<Rightarrow> bool" where
  "fence_admit msg_epoch f \<longleftrightarrow> committed_epoch f \<le> msg_epoch"

definition fence_commit :: "cluster_epoch \<Rightarrow> topology_fence \<Rightarrow> topology_fence" where
  "fence_commit epoch f = (if committed_epoch f < epoch then f\<lparr>committed_epoch := epoch\<rparr> else f)"

datatype near_cache_repair_action = ApplyFrame | ClearPartition | InvalidateConservatively

record meta_data_container =
  last_uuid :: "cluster_generation option"
  last_seq :: u64

definition meta_default :: meta_data_container where
  "meta_default = \<lparr>last_uuid = None, last_seq = 0\<rparr>"

definition on_watermark :: "cluster_generation option \<Rightarrow> u64 option \<Rightarrow> meta_data_container
    \<Rightarrow> near_cache_repair_action \<times> meta_data_container" where
  "on_watermark generation message_id m =
     (let generation = (case generation of Some g \<Rightarrow> g | None \<Rightarrow> 0);
          seq = (case message_id of Some s \<Rightarrow> s | None \<Rightarrow> 0)
      in if last_uuid m \<noteq> Some generation
         then (ClearPartition, m\<lparr>last_uuid := Some generation, last_seq := seq\<rparr>)
         else if sat_add (last_seq m) 1 < seq then (InvalidateConservatively, m\<lparr>last_seq := seq\<rparr>)
         else (ApplyFrame, m\<lparr>last_seq := max (last_seq m) seq\<rparr>))"

section \<open>The owner is the greatest member\<close>

text \<open>Members are compared by score, then by node id.\<close>

definition owner_rank :: "string \<Rightarrow> cluster_node_id \<Rightarrow> u64 \<times> cluster_node_id" where
  "owner_rank key node = (rendezvous_score key node, node)"

lemma owner_rank_inject [simp]: "owner_rank key a = owner_rank key b \<longleftrightarrow> a = b"
  by (auto simp: owner_rank_def)

definition member_ids :: "cluster_member list \<Rightarrow> cluster_node_id list" where
  "member_ids ps = map mem_node_id (filter is_member ps)"

definition best_node :: "string \<Rightarrow> cluster_node_id set \<Rightarrow> cluster_node_id option \<Rightarrow> bool" where
  "best_node key ids r \<longleftrightarrow> (case r of
     None \<Rightarrow> ids = {}
   | Some n \<Rightarrow> n \<in> ids \<and> (\<forall>n' \<in> ids. owner_rank key n' \<le> owner_rank key n))"

lemma best_node_unique: "best_node key ids r \<Longrightarrow> best_node key ids r' \<Longrightarrow> r = r'"
  unfolding best_node_def
  by (auto split: option.splits) (metis order.antisym owner_rank_inject)

lemma best_node_insert:
  "best_node key ids r \<Longrightarrow> best_node key (insert n ids)
    (case r of Some b \<Rightarrow> if owner_rank key b < owner_rank key n then Some n else r | None \<Rightarrow> Some n)"
  by (auto simp: best_node_def split: option.splits intro: order_trans less_imp_le)

lemma best_node_remove:
  "best_node key ids r \<Longrightarrow> r \<noteq> Some n \<Longrightarrow> best_node key (ids - {n}) r"
  by (auto simp: best_node_def split: option.splits)

lemma owner_step_count: "owner_step key p (k, best) = (usize_sat_add k 1, snd (owner_step key p (k, best)))"
  by (simp add: owner_step_def Let_def)

lemma owner_fold:
  assumes "fold (owner_step key) ps (k, best) = (k', best')"
    and "best_node key ids (map_option (mem_node_id \<circ> snd) best)"
    and "\<And>sc m. best = Some (sc, m) \<Longrightarrow> sc = rendezvous_score key (mem_node_id m)"
  shows "best_node key (ids \<union> mem_node_id ` set ps) (map_option (mem_node_id \<circ> snd) best')"
  using assms
proof (induction ps arbitrary: k best ids)
  case (Cons p ps)
  define best1 where "best1 = snd (owner_step key p (k, best))"
  have rest: "fold (owner_step key) ps (usize_sat_add k 1, best1) = (k', best')"
    using Cons.prems(1) owner_step_count [of key p k best] by (simp add: best1_def)
  have b1: "map_option (mem_node_id \<circ> snd) best1 =
      (case map_option (mem_node_id \<circ> snd) best of
         Some b \<Rightarrow> if owner_rank key b < owner_rank key (mem_node_id p) then Some (mem_node_id p)
           else map_option (mem_node_id \<circ> snd) best
       | None \<Rightarrow> Some (mem_node_id p))"
    using Cons.prems(3) by (auto simp: best1_def owner_step_def owner_rank_def Let_def split: option.splits)
  have sc1: "sc = rendezvous_score key (mem_node_id m)" if "best1 = Some (sc, m)" for sc m
    using Cons.prems(3) that by (auto simp: best1_def owner_step_def Let_def split: if_splits option.splits)
  have "best_node key (insert (mem_node_id p) ids) (map_option (mem_node_id \<circ> snd) best1)"
    unfolding b1 using Cons.prems(2) by (rule best_node_insert)
  from Cons.IH [OF rest this sc1] show ?case by simp
qed simp

lemma best_node_empty [simp]: "best_node key {} None"
  by (simp add: best_node_def)

lemma resolve_owner_best: "best_node key (set (member_ids ps)) (owner_node_id (resolve_owner key ps))"
proof -
  obtain k best where f: "fold (owner_step key) (filter is_member ps) (0, None) = (k, best)"
    by (cases "fold (owner_step key) (filter is_member ps) (0, None)")
  have "best_node key ({} \<union> mem_node_id ` set (filter is_member ps)) (map_option (mem_node_id \<circ> snd) best)"
    by (rule owner_fold [OF f]) simp_all
  moreover have "owner_node_id (resolve_owner key ps) = map_option (mem_node_id \<circ> snd) best"
    by (simp add: resolve_owner_def owner_node_id_def f option.map_comp)
  ultimately show ?thesis by (simp add: member_ids_def)
qed

section \<open>Partitions\<close>

lemma partition_for_key_bound: "partition_for_key key n < max n 1"
proof -
  let ?n = "max n 1"
  have pos: "0 < unat ?n"
    by (auto simp: max_def word_le_nat_alt intro!: gr0I)
  have up: "unat (ucast ?n :: u64) = unat ?n"
    using unat_bound [of ?n] by (simp add: unsigned_ucast_eq take_bit_nat_eq_self)
  have "unat (stable_key_hash key mod ucast ?n) < unat ?n"
    using pos by (simp add: unat_mod up)
  then show ?thesis
    using unat_bound [of ?n]
    by (simp add: partition_for_key_def Let_def word_less_nat_alt unsigned_ucast_eq take_bit_nat_eq_self)
qed

section \<open>Fence\<close>

lemma fence_commit_mono: "committed_epoch f \<le> committed_epoch (fence_commit e f)"
  by (auto simp: fence_commit_def)

lemma fence_commit_admits: "fence_admit e' (fence_commit e f) \<longleftrightarrow> fence_admit e' f \<and> e \<le> e'"
  by (auto simp: fence_commit_def fence_admit_def)

lemma fence_commits: "fence_admit e' (fold fence_commit es f) \<longleftrightarrow> fence_admit e' f \<and> (\<forall>e \<in> set es. e \<le> e')"
  by (induction es arbitrary: f) (auto simp: fence_commit_admits)

end
