(* ===== verification/Replication.thy ===== *)
theory Replication
  imports Ownership
begin

text \<open>
  Placement and bookkeeping of replicas (\<open>grid/mod.rs\<close>): replica sets chosen by rendezvous
  ranking, effective maps during a move, the quorum configuration, rebalance plans, replicated
  slots, the tombstone budget, payload preparation, backup promotion and the hot-copy directory.
  Shown: placements are the top of one ranking, so failover promotes the first backup; plans do
  not depend on the order of their tasks; unconfirmed tombstones are never evicted.
\<close>

unbundle bit_operations_syntax

section \<open>Replica sets\<close>

record replicas =
  primary :: cluster_node_id
  backups :: "cluster_node_id list"

definition replicas_new :: "cluster_node_id \<Rightarrow> cluster_node_id list \<Rightarrow> replicas" where
  "replicas_new p bs = \<lparr>primary = p, backups = first_seen {} (filter (\<lambda>b. b \<noteq> p) bs)\<rparr>"

definition all_nodes :: "replicas \<Rightarrow> cluster_node_id list" where
  "all_nodes r = primary r # backups r"

definition copy_count :: "replicas \<Rightarrow> usize" where
  "copy_count r = 1 + length (backups r)"

record effective_replication_map =
  natural :: replicas
  reading :: "cluster_node_id list"
  pending_move :: "replicas option"

definition erm_new :: "replicas \<Rightarrow> effective_replication_map" where
  "erm_new r = \<lparr>natural = r, reading = all_nodes r, pending_move = None\<rparr>"

definition push_absent :: "'a \<Rightarrow> 'a list \<Rightarrow> 'a list" where
  "push_absent x xs = (if x \<in> set xs then xs else xs @ [x])"

definition erm_with_pending :: "replicas \<Rightarrow> replicas \<Rightarrow> effective_replication_map" where
  "erm_with_pending r pend =
     \<lparr>natural = r, reading = fold push_absent (all_nodes pend) (all_nodes r), pending_move = Some pend\<rparr>"

definition is_readable_from :: "cluster_node_id \<Rightarrow> effective_replication_map \<Rightarrow> bool" where
  "is_readable_from node m \<longleftrightarrow> node \<in> set (reading m)"

section \<open>Quorum configuration\<close>

record replication_config =
  replication_factor :: usize
  read_quorum :: usize
  write_quorum :: usize
  sync_backups :: usize
  async_backups :: usize
  max_replicated_entry_bytes :: usize
  replicate_values :: bool

definition local_first :: replication_config where
  "local_first = \<lparr>replication_factor = 1, read_quorum = 1, write_quorum = 1, sync_backups = 0,
     async_backups = 0, max_replicated_entry_bytes = 0, replicate_values = False\<rparr>"

datatype replication_config_error =
    ReplicationFactorZero
  | QuorumZero
  | QuorumExceedsReplicationFactor
  | BackupCountExceedsReplicationFactor
  | MissingReplicatedEntryByteCap

definition config_validate :: "replication_config \<Rightarrow> replication_config_error + unit" where
  "config_validate c =
     (if replication_factor c = 0 then Inl ReplicationFactorZero
      else if read_quorum c = 0 \<or> write_quorum c = 0 then Inl QuorumZero
      else if replication_factor c < read_quorum c \<or> replication_factor c < write_quorum c
        then Inl QuorumExceedsReplicationFactor
      else if replication_factor c - 1 < usize_sat_add (sync_backups c) (async_backups c)
        then Inl BackupCountExceedsReplicationFactor
      else if replicate_values c \<and> max_replicated_entry_bytes c = 0 then Inl MissingReplicatedEntryByteCap
      else Inr ())"

section \<open>Placement\<close>

definition grid_rendezvous_score :: "string \<Rightarrow> cluster_node_id \<Rightarrow> u64" where
  "grid_rendezvous_score key node = fnv_bytes FNV_OFFSET (str_bytes key @ [0xff] @ str_bytes node)"

definition replicas_for_key :: "string \<Rightarrow> cluster_member list \<Rightarrow> usize \<Rightarrow> replicas option" where
  "replicas_for_key key members rf =
     (let ranked = map (\<lambda>m. (grid_rendezvous_score key (mem_node_id m), mem_node_id m)) (filter is_member members);
          ranked = rev (sort ranked);
          ranked = dedup_by (\<lambda>l r. snd l = snd r) ranked
      in case take (max rf 1) (map snd ranked) of
           [] \<Rightarrow> None
         | p # nodes \<Rightarrow> Some (replicas_new p nodes))"

section \<open>Rebalance plans\<close>

datatype rebalance_task =
    MovePartition partition_id cluster_node_id cluster_node_id
  | ReReplicate partition_id cluster_node_id

record rebalance_task_ack =
  ack_epoch :: cluster_epoch
  ack_task :: rebalance_task

record rebalance_plan =
  plan_epoch :: cluster_epoch
  plan_tasks :: "rebalance_task list"

fun rebalance_task_sort_key :: "rebalance_task \<Rightarrow> u32 \<times> u8 \<times> string \<times> string" where
  "rebalance_task_sort_key (MovePartition p from to) = (p, 0, from, to)"
| "rebalance_task_sort_key (ReReplicate p target) = (p, 1, target, [])"

definition plan_new :: "cluster_epoch \<Rightarrow> rebalance_task list \<Rightarrow> rebalance_plan" where
  "plan_new epoch tasks =
     \<lparr>plan_epoch = epoch, plan_tasks = remdups_adj (sort_key rebalance_task_sort_key tasks)\<rparr>"

definition acknowledged :: "rebalance_plan \<Rightarrow> rebalance_task_ack list \<Rightarrow> rebalance_task \<Rightarrow> bool" where
  "acknowledged p acks task \<longleftrightarrow> list_ex (\<lambda>ack. ack_epoch ack = plan_epoch p \<and> ack_task ack = task) acks"

definition plan_is_complete :: "rebalance_task_ack list \<Rightarrow> rebalance_plan \<Rightarrow> bool" where
  "plan_is_complete acks p \<longleftrightarrow> list_all (acknowledged p acks) (plan_tasks p)"

definition pending_task_count :: "rebalance_task_ack list \<Rightarrow> rebalance_plan \<Rightarrow> usize" where
  "pending_task_count acks p = length (filter (\<lambda>task. \<not> acknowledged p acks task) (plan_tasks p))"

definition diff_effective_maps :: "partition_id \<Rightarrow> effective_replication_map \<Rightarrow> effective_replication_map
    \<Rightarrow> rebalance_task list" where
  "diff_effective_maps part old new =
     sort_key rebalance_task_sort_key
       ((if primary (natural old) \<noteq> primary (natural new)
         then [MovePartition part (primary (natural old)) (primary (natural new))] else []) @
        map (ReReplicate part)
          (filter (\<lambda>target. target \<notin> set (backups (natural old))) (backups (natural new))))"

section \<open>Replicated slots\<close>

datatype 'v replicated_slot =
    SlotValue (slot_value: 'v) (slot_version: u64)
  | SlotTombstone (slot_version: u64) (slot_gc: "cluster_epoch option")

definition slot_is_tombstone :: "'v replicated_slot \<Rightarrow> bool" where
  "slot_is_tombstone s = (case s of SlotTombstone _ _ \<Rightarrow> True | SlotValue _ _ \<Rightarrow> False)"

definition slot_merge :: "'v replicated_slot \<Rightarrow> 'v replicated_slot \<Rightarrow> 'v replicated_slot" where
  "slot_merge self other =
     (if slot_version other < slot_version self then self
      else if slot_version self < slot_version other then other
      else if slot_is_tombstone self then self else other)"

definition replicated_slot_version :: "cluster_generation \<Rightarrow> u64 \<Rightarrow> u64" where
  "replicated_slot_version generation message_id =
     push_bit 32 (min generation 0xffffffff) OR (message_id AND 0xffffffff)"

section \<open>Tombstone budget\<close>

record tombstone_budget =
  max_tombstones :: usize
  max_tombstone_bytes :: u64



record tombstone_record =
  tr_key :: string
  tr_version :: u64
  tr_approx_bytes :: u64
  tr_gc_eligible_after :: "cluster_epoch option"

record tombstone_tracker =
  tt_budget :: tombstone_budget
  tt_records :: "tombstone_record list"
  tt_repair_debt :: bool









definition tracker_gc_eligible_after :: "string \<Rightarrow> tombstone_tracker \<Rightarrow> cluster_epoch option" where
  "tracker_gc_eligible_after key t =
     Option.bind (find (\<lambda>r. tr_key r = key) (tt_records t)) tr_gc_eligible_after"


definition tracker_contains_key :: "string \<Rightarrow> tombstone_tracker \<Rightarrow> bool" where
  "tracker_contains_key key t \<longleftrightarrow> list_ex (\<lambda>r. tr_key r = key) (tt_records t)"

section \<open>Payloads\<close>

datatype replication_eligibility = Eligible | LocalOnly

datatype replicated_value_security_posture =
    ReplicationDisabled
  | Encrypted
  | PlaintextAcknowledged
  | PlaintextUnacknowledged

fun security_highlight :: "replicated_value_security_posture \<Rightarrow> string option" where
  "security_highlight PlaintextUnacknowledged = Some ''REPLICATED VALUES PLAINTEXT''"
| "security_highlight _ = None"

record replication_payload =
  payload_bytes :: bytes
  payload_posture :: replicated_value_security_posture

text \<open>The sealing provider and the redactor belong to the operator and are arguments.\<close>

definition prepare_replicated_payload :: "bytes \<Rightarrow> replication_eligibility \<Rightarrow> bool
    \<Rightarrow> (bytes \<Rightarrow> 'e + bytes) option \<Rightarrow> (bytes \<Rightarrow> bytes) option \<Rightarrow> 'e + replication_payload option" where
  "prepare_replicated_payload val eligibility plaintext_acknowledged seal redactor =
     (if eligibility = LocalOnly then Inr None
      else
        let redacted = (case redactor of Some redact \<Rightarrow> redact val | None \<Rightarrow> val) in
        case seal of
          Some seal \<Rightarrow> result_bind (seal redacted) (\<lambda>sealed.
            Inr (Some \<lparr>payload_bytes = sealed, payload_posture = Encrypted\<rparr>))
        | None \<Rightarrow> Inr (Some \<lparr>payload_bytes = redacted, payload_posture =
            (if plaintext_acknowledged then PlaintextAcknowledged else PlaintextUnacknowledged)\<rparr>))"

section \<open>Promotion, versions and hot copies\<close>

datatype promotion_phase = PromotionBefore | PromotionCommit | PromotionFinalize

record backup_promotion =
  bp_partition :: partition_id
  bp_departing_primary :: cluster_node_id
  bp_new_primary :: cluster_node_id
  bp_phase :: promotion_phase

definition select_backup_promotion :: "partition_id \<Rightarrow> replicas \<Rightarrow> backup_promotion option" where
  "select_backup_promotion part r =
     (case backups r of
        [] \<Rightarrow> None
      | new_primary # _ \<Rightarrow> Some \<lparr>bp_partition = part, bp_departing_primary = primary r,
          bp_new_primary = new_primary, bp_phase = PromotionBefore\<rparr>)"

type_synonym partition_replica_versions = "(partition_id \<times> cluster_node_id, u64) btmap"

definition set_replica_version :: "partition_id \<Rightarrow> cluster_node_id \<Rightarrow> u64 \<Rightarrow> partition_replica_versions
    \<Rightarrow> partition_replica_versions" where
  "set_replica_version p node v vs = bt_insert (p, node) v vs"

definition replica_version :: "partition_id \<Rightarrow> cluster_node_id \<Rightarrow> partition_replica_versions \<Rightarrow> u64 option" where
  "replica_version p node vs = bt_get vs (p, node)"

definition or_zero :: "'a::zero option \<Rightarrow> 'a" where
  "or_zero v = (case v of Some x \<Rightarrow> x | None \<Rightarrow> 0)"

definition lagging_replicas :: "partition_id \<Rightarrow> cluster_node_id \<Rightarrow> cluster_node_id list
    \<Rightarrow> partition_replica_versions \<Rightarrow> cluster_node_id list" where
  "lagging_replicas p prim bs vs =
     filter (\<lambda>b. or_zero (replica_version p b vs) < or_zero (replica_version p prim vs)) bs"

type_synonym hot_cache_directory = "(string, cluster_node_id set) btmap"

definition record_holder :: "string \<Rightarrow> cluster_node_id \<Rightarrow> hot_cache_directory \<Rightarrow> hot_cache_directory" where
  "record_holder key holder d =
     bt_insert key (insert holder (case bt_get d key of Some hs \<Rightarrow> hs | None \<Rightarrow> {})) d"

definition hot_holders :: "string \<Rightarrow> hot_cache_directory \<Rightarrow> cluster_node_id list" where
  "hot_holders key d = (case bt_get d key of Some hs \<Rightarrow> sorted_list_of_set hs | None \<Rightarrow> [])"

definition hot_invalidate :: "string \<Rightarrow> hot_cache_directory \<Rightarrow> cluster_node_id list \<times> hot_cache_directory" where
  "hot_invalidate key d = (hot_holders key d, bt_remove key d)"

section \<open>One ranking\<close>

definition ranked :: "string \<Rightarrow> cluster_node_id set \<Rightarrow> cluster_node_id list \<Rightarrow> bool" where
  "ranked key ids ns \<longleftrightarrow> sorted_wrt (\<lambda>a b. owner_rank key b < owner_rank key a) ns \<and> set ns = ids"

lemma ranked_unique: "ranked key ids ns \<Longrightarrow> ranked key ids ns' \<Longrightarrow> ns = ns'"
  using sorted_key_unique [of "owner_rank key" "rev ns" "rev ns'"]
  by (auto simp: ranked_def sorted_wrt_rev inj_on_def)

lemma ranked_distinct: "ranked key ids ns \<Longrightarrow> distinct ns"
  using distinct_sorted_key [of "owner_rank key" "rev ns"] by (simp add: ranked_def sorted_wrt_rev)

lemma ranked_filter: "ranked key ids ns \<Longrightarrow> ranked key (ids - {n}) (filter (\<lambda>m. m \<noteq> n) ns)"
  by (auto simp: ranked_def sorted_wrt_filter)

lemma dedup_by_key:
  "(\<And>x y. x \<in> set xs \<Longrightarrow> y \<in> set xs \<Longrightarrow> same y x \<longleftrightarrow> x = y) \<Longrightarrow> dedup_by same xs = remdups_adj xs"
  by (induction same xs rule: dedup_by.induct) auto

definition ranking :: "string \<Rightarrow> cluster_member list \<Rightarrow> cluster_node_id list" where
  "ranking key ms = map snd (dedup_by (\<lambda>l r. snd l = snd r)
     (rev (sort (map (\<lambda>m. (grid_rendezvous_score key (mem_node_id m), mem_node_id m)) (filter is_member ms)))))"

lemma ranking_ranked: "ranked key (set (member_ids ms)) (ranking key ms)"
proof -
  define xs where "xs = map (owner_rank key) (member_ids ms)"
  have "map (\<lambda>m. (grid_rendezvous_score key (mem_node_id m), mem_node_id m)) (filter is_member ms) = xs"
    by (simp add: xs_def member_ids_def owner_rank_def grid_rendezvous_score_def rendezvous_score_def)
  then have rk: "ranking key ms = map snd (dedup_by (\<lambda>l r. snd l = snd r) (rev (sort xs)))"
    by (simp add: ranking_def)
  have "dedup_by (\<lambda>l r. snd l = snd r) (rev (sort xs)) = remdups_adj (rev (sort xs))"
    by (rule dedup_by_key) (auto simp: xs_def owner_rank_def)
  then have rk: "ranking key ms = map snd (rev (remdups_adj (sort xs)))" by (simp add: rk)
  have strict: "sorted_wrt (<) (remdups_adj (sort xs))"
    using sorted_remdups_adj_strict [of id "sort xs"] by simp
  have "map (owner_rank key) (ranking key ms) = rev (remdups_adj (sort xs))"
    unfolding rk map_map by (rule map_idI) (auto simp: xs_def owner_rank_def)
  then have "sorted_wrt (\<lambda>a b. b < a) (map (owner_rank key) (ranking key ms))"
    using strict by (simp add: sorted_wrt_rev)
  moreover have "set (ranking key ms) = snd ` set xs" by (simp add: rk)
  ultimately show ?thesis
    by (simp add: ranked_def sorted_wrt_map xs_def owner_rank_def image_image)
qed

lemma replicas_new_distinct: "distinct (p # ns) \<Longrightarrow> all_nodes (replicas_new p ns) = p # ns"
  by (auto simp: all_nodes_def replicas_new_def first_seen_distinct filter_id_conv)

lemma replicas_for_key_ranking:
  "replicas_for_key key ms rf = None \<longleftrightarrow> member_ids ms = []"
  "replicas_for_key key ms rf = Some r \<Longrightarrow> all_nodes r = take (max rf 1) (ranking key ms)"
proof -
  have eq: "replicas_for_key key ms rf = (case take (max rf 1) (ranking key ms) of
      [] \<Rightarrow> None | p # nodes \<Rightarrow> Some (replicas_new p nodes))"
    by (simp add: replicas_for_key_def ranking_def Let_def)
  have "set (ranking key ms) = set (member_ids ms)" using ranking_ranked [of key ms] by (simp add: ranked_def)
  then show "replicas_for_key key ms rf = None \<longleftrightarrow> member_ids ms = []"
    by (auto simp: eq split: list.splits)
  have "distinct (take (max rf 1) (ranking key ms))"
    using ranked_distinct [OF ranking_ranked] by (rule distinct_take)
  then show "all_nodes r = take (max rf 1) (ranking key ms)" if "replicas_for_key key ms rf = Some r"
    using that by (auto simp: eq replicas_new_distinct split: list.splits)
qed

lemma take_filter_survivors:
  "distinct ns \<Longrightarrow> \<exists>extra. take k (filter (\<lambda>m. m \<noteq> n) ns) = filter (\<lambda>m. m \<noteq> n) (take k ns) @ extra \<and> length extra \<le> 1"
proof (induction ns arbitrary: k)
  case (Cons a ns)
  show ?case
  proof (cases k)
    case (Suc j)
    show ?thesis
    proof (cases "a = n")
      case True
      with Cons.prems have rest: "filter (\<lambda>m. m \<noteq> n) ns = ns" by (auto simp: filter_id_conv)
      have "filter (\<lambda>m. m \<noteq> n) (take j ns) = take j ns"
        using Cons.prems True by (auto simp: filter_id_conv dest: in_set_takeD)
      moreover have "take (Suc j) ns = take j ns @ take 1 (drop j ns)"
        by (metis Suc_eq_plus1 take_add)
      ultimately show ?thesis using True Suc rest
        by (intro exI [of _ "take 1 (drop j ns)"]) simp
    next
      case False
      with Cons Suc show ?thesis by auto
    qed
  qed simp
qed simp

definition plain_member :: "cluster_node_id \<Rightarrow> cluster_member" where
  "plain_member node = from_candidate (candidate_new node MemberRole) 1"

lemma take_ranked:
  assumes "ranked key ids ns" "n \<in> ids - set (take k ns)" "n' \<in> set (take k ns)"
  shows "owner_rank key n < owner_rank key n'"
proof -
  have "n \<in> set (drop k ns)"
    using assms(1,2) by (metis Diff_iff Un_iff append_take_drop_id ranked_def set_append)
  moreover have "sorted_wrt (\<lambda>a b. owner_rank key b < owner_rank key a) (take k ns @ drop k ns)"
    using assms(1) by (simp add: ranked_def)
  ultimately show ?thesis using assms(3) by (auto simp only: sorted_wrt_append)
qed

text \<open>
  C15. Replica placement is the top of the rendezvous ranking. A key has no replicas exactly when
  there is no member; otherwise its replicas are as many distinct members as the replication factor
  asks for and the cluster has, listed by falling rank, every member left out ranks below
  every one chosen, and the primary is the owner that the ownership resolver picks for
  the key.
\<close>
theorem replicas_top_ranked:
  "case replicas_for_key key ms rf of
     None \<Rightarrow> member_ids ms = [] \<and> owner_node_id (resolve_owner key ms) = None
   | Some r \<Rightarrow>
       owner_node_id (resolve_owner key ms) = Some (primary r)
       \<and> set (all_nodes r) \<subseteq> set (member_ids ms)
       \<and> distinct (all_nodes r) \<and> copy_count r = min (max rf 1) (card (set (member_ids ms)))
       \<and> sorted_wrt (\<lambda>a b. owner_rank key b < owner_rank key a) (all_nodes r)
       \<and> (\<forall>n \<in> set (member_ids ms) - set (all_nodes r). \<forall>n' \<in> set (all_nodes r).
            owner_rank key n < owner_rank key n')"
proof (cases "replicas_for_key key ms rf")
  case None
  then have "member_ids ms = []" by (simp add: replicas_for_key_ranking(1))
  with None resolve_owner_best [of key ms] show ?thesis
    by (auto simp: best_node_def split: option.splits)
next
  case (Some r)
  define ns where "ns = ranking key ms"
  have rk: "ranked key (set (member_ids ms)) ns" unfolding ns_def by (rule ranking_ranked)
  have nodes: "all_nodes r = take (max rf 1) ns"
    using replicas_for_key_ranking(2) [OF Some] by (simp add: ns_def)
  have sorted: "sorted_wrt (\<lambda>a b. owner_rank key b < owner_rank key a) (all_nodes r)"
    using rk by (simp add: nodes ranked_def sorted_wrt_take)
  have lower: "owner_rank key n < owner_rank key n'"
    if "n \<in> set (member_ids ms) - set (all_nodes r)" "n' \<in> set (all_nodes r)" for n n'
    using take_ranked [OF rk, of n "max rf 1" n'] that by (simp add: nodes)
  have sub: "set (all_nodes r) \<subseteq> set (member_ids ms)"
    using rk by (auto simp: nodes ranked_def dest: in_set_takeD)
  have top: "owner_rank key n \<le> owner_rank key (primary r)" if "n \<in> set (member_ids ms)" for n
    using lower [of n "primary r"] sorted that
    by (cases "n \<in> set (all_nodes r)") (auto simp: all_nodes_def intro: less_imp_le)
  have "best_node key (set (member_ids ms)) (Some (primary r))"
    using top sub by (auto simp: best_node_def all_nodes_def)
  then have "owner_node_id (resolve_owner key ms) = Some (primary r)"
    using best_node_unique resolve_owner_best by blast
  moreover have "copy_count r = min (max rf 1) (card (set (member_ids ms)))"
    using rk distinct_card [OF ranked_distinct [OF rk]] arg_cong [OF nodes, of length]
    by (simp add: copy_count_def all_nodes_def ranked_def min.commute)
  moreover have "distinct (all_nodes r)" using ranked_distinct [OF rk] by (simp add: nodes)
  ultimately show ?thesis using Some sub sorted lower by simp
qed

theorem replicas_top_ranked_witness:
  "\<exists>r. replicas_for_key ''k'' (map plain_member [''a'', ''b'', ''c'']) 2 = Some r
    \<and> copy_count r = 2
    \<and> owner_node_id (resolve_owner ''k'' (map plain_member [''a'', ''b'', ''c''])) = Some (primary r)"
proof -
  have ids: "member_ids (map plain_member [''a'', ''b'', ''c'']) = [''a'', ''b'', ''c'']"
    by (simp add: member_ids_def plain_member_def from_candidate_def candidate_new_def is_member_def)
  then obtain r where r: "replicas_for_key ''k'' (map plain_member [''a'', ''b'', ''c'']) 2 = Some r"
    using replicas_for_key_ranking(1) [of "''k''" "map plain_member [''a'', ''b'', ''c'']" 2] by fastforce
  with replicas_top_ranked [where key = "''k''" and ms = "map plain_member [''a'', ''b'', ''c'']" and rf = 2] show ?thesis
    unfolding ids by auto
qed

text \<open>
  C16. Failover promotes the first backup and moves nothing else. When a member leaves a cluster in
  which the key has at least one backup, the replicas that stay keep their order and at most one
  node joins behind them; in particular the primary is unchanged unless it is the one that
  leaves, and then the new primary is the node that the promotion of the old replica set selects.
\<close>
theorem failover_promotes_backup:
  assumes "replicas_for_key key ms rf = Some r" "select_backup_promotion part r = Some p"
  shows "\<exists>r' extra. replicas_for_key key (filter (\<lambda>m. mem_node_id m \<noteq> n) ms) rf = Some r'
    \<and> all_nodes r' = filter (\<lambda>m. m \<noteq> n) (all_nodes r) @ extra \<and> length extra \<le> 1
    \<and> primary r' = (if n = primary r then bp_new_primary p else primary r)"
proof -
  let ?ms = "filter (\<lambda>m. mem_node_id m \<noteq> n) ms"
  have ids: "set (member_ids ?ms) = set (member_ids ms) - {n}" by (auto simp: member_ids_def)
  have rk: "ranking key ?ms = filter (\<lambda>m. m \<noteq> n) (ranking key ms)"
    using ranked_unique [OF ranking_ranked [of key ?ms]] ranked_filter [OF ranking_ranked [of key ms]]
    unfolding ids by blast
  obtain b bs where bs: "backups r = b # bs" and new: "bp_new_primary p = b"
    using assms(2) by (auto simp: select_backup_promotion_def split: list.splits)
  have nodes: "all_nodes r = take (max rf 1) (ranking key ms)"
    by (rule replicas_for_key_ranking(2) [OF assms(1)])
  have dist: "distinct (ranking key ms)" by (rule ranked_distinct [OF ranking_ranked])
  then have "distinct (all_nodes r)" unfolding nodes by (rule distinct_take)
  then have "primary r \<noteq> b" by (auto simp: all_nodes_def bs)
  then have survivors: "filter (\<lambda>m. m \<noteq> n) (all_nodes r) \<noteq> []"
    by (auto simp: all_nodes_def bs)
  obtain extra where ex: "take (max rf 1) (ranking key ?ms) = filter (\<lambda>m. m \<noteq> n) (all_nodes r) @ extra"
    "length extra \<le> 1"
    using take_filter_survivors [OF dist, of "max rf 1" n] unfolding rk nodes by blast
  then have "ranking key ?ms \<noteq> []" using survivors by auto
  then have "member_ids ?ms \<noteq> []"
    using ranking_ranked [of key ?ms] by (auto simp: ranked_def)
  then obtain r' where r': "replicas_for_key key ?ms rf = Some r'"
    using replicas_for_key_ranking(1) [of key ?ms rf] by blast
  have "all_nodes r' = filter (\<lambda>m. m \<noteq> n) (all_nodes r) @ extra"
    using replicas_for_key_ranking(2) [OF r'] ex(1) by simp
  moreover from this have "primary r' = (if n = primary r then bp_new_primary p else primary r)"
    using \<open>primary r \<noteq> b\<close> by (auto simp: all_nodes_def bs new)
  ultimately show ?thesis using r' ex(2) by blast
qed

theorem failover_promotes_backup_witness:
  "\<exists>r p r'. replicas_for_key ''k'' (map plain_member [''a'', ''b'', ''c'']) 2 = Some r
    \<and> select_backup_promotion 0 r = Some p
    \<and> replicas_for_key ''k'' (filter (\<lambda>m. mem_node_id m \<noteq> primary r) (map plain_member [''a'', ''b'', ''c''])) 2 = Some r'
    \<and> primary r' = bp_new_primary p"
proof -
  define r where "r = the (replicas_for_key ''k'' (map plain_member [''a'', ''b'', ''c'']) 2)"
  define p where "p = the (select_backup_promotion 0 r)"
  have "replicas_for_key ''k'' (map plain_member [''a'', ''b'', ''c'']) 2 = Some r"
    "select_backup_promotion 0 r = Some p"
    unfolding p_def r_def by code_simp+
  with failover_promotes_backup [OF this, of "primary r"] show ?thesis by auto
qed

section \<open>Plans\<close>

lemma inj_sort_key: "inj rebalance_task_sort_key"
proof (rule injI)
  fix s t :: rebalance_task
  show "rebalance_task_sort_key s = rebalance_task_sort_key t \<Longrightarrow> s = t" by (cases s; cases t) auto
qed

lemma plan_tasks_sorted:
  "sorted_wrt (\<lambda>s t. rebalance_task_sort_key s < rebalance_task_sort_key t) (plan_tasks (plan_new e ts))"
  unfolding plan_new_def
  by (simp add: sorted_remdups_adj_strict inj_on_subset [OF inj_sort_key])

lemma set_plan_tasks [simp]: "set (plan_tasks (plan_new e ts)) = set ts"
  by (simp add: plan_new_def)

lemma plan_new_cong: "set ts = set ts' \<Longrightarrow> plan_new e ts = plan_new e ts'"
  using sorted_key_unique [OF plan_tasks_sorted [of e ts] plan_tasks_sorted [of e ts']]
    inj_on_subset [OF inj_sort_key]
  by (auto simp: plan_new_def)

lemma plan_complete_iff: "plan_is_complete acks p \<longleftrightarrow> pending_task_count acks p = 0"
  by (auto simp: plan_is_complete_def pending_task_count_def list_all_iff filter_empty_conv)

fun task_target :: "rebalance_task \<Rightarrow> cluster_node_id" where
  "task_target (MovePartition p from to) = to"
| "task_target (ReReplicate p target) = target"

lemma diff_covers:
  "n \<in> set (all_nodes (natural new)) \<Longrightarrow> n \<in> set (all_nodes (natural old))
    \<or> n \<in> task_target ` set (diff_effective_maps part old new)"
  by (auto simp: diff_effective_maps_def all_nodes_def image_Un image_iff)

text \<open>
  A rebalance plan is the same whatever the order and multiplicity in which its tasks were collected,
  lists every task once, and once every task of the plan for a placement change is acknowledged
  at the epoch of the plan (exactly when no task is pending), every node of the new placement
  either was in the old one or acknowledged a task that copies the partition to it.
\<close>
lemma rebalance_plan_covers:
  assumes "set ts = set (diff_effective_maps part old new)"
    and "pending_task_count acks (plan_new e ts) = 0" "n \<in> set (all_nodes (natural new))"
  shows "plan_new e ts = plan_new e (diff_effective_maps part old new) \<and> distinct (plan_tasks (plan_new e ts))
    \<and> plan_is_complete acks (plan_new e ts)
    \<and> (n \<in> set (all_nodes (natural old))
       \<or> list_ex (\<lambda>a. ack_epoch a = e \<and> task_target (ack_task a) = n) acks)"
proof -
  have compl: "plan_is_complete acks (plan_new e ts)" using assms(2) by (simp add: plan_complete_iff)
  then have "\<exists>a \<in> set acks. ack_epoch a = e \<and> ack_task a = t" if "t \<in> set ts" for t
    using that by (auto simp: plan_is_complete_def list_all_iff acknowledged_def list_ex_iff) (simp add: plan_new_def)
  with diff_covers [OF assms(3), of old part]
  have "n \<in> set (all_nodes (natural old)) \<or> list_ex (\<lambda>a. ack_epoch a = e \<and> task_target (ack_task a) = n) acks"
    unfolding assms(1) [symmetric] list_ex_iff by fastforce
  with compl show ?thesis
    using plan_new_cong [OF assms(1)] distinct_sorted_key [OF plan_tasks_sorted] by blast
qed

theorem rebalance_plan_covers_witness:
  "let old = erm_new (replicas_new ''a'' [''b'']); new = erm_new (replicas_new ''c'' [''b'', ''a'']);
       ts = diff_effective_maps 7 old new; acks = map (\<lambda>t. \<lparr>ack_epoch = 3, ack_task = t\<rparr>) ts in
   pending_task_count acks (plan_new 3 (rev ts @ ts)) = 0
   \<and> ''c'' \<notin> set (all_nodes (natural old))
   \<and> list_ex (\<lambda>a. ack_epoch a = 3 \<and> task_target (ack_task a) = ''c'') acks"
proof -
  define old new where "old = erm_new (replicas_new ''a'' [''b''])" and "new = erm_new (replicas_new ''c'' [''b'', ''a''])"
  define ts where "ts = diff_effective_maps 7 old new"
  define acks where "acks = map (\<lambda>t. \<lparr>ack_epoch = 3, ack_task = t\<rparr>) ts"
  have "pending_task_count acks (plan_new 3 (rev ts @ ts)) = 0"
    "''c'' \<in> set (all_nodes (natural new))" "''c'' \<notin> set (all_nodes (natural old))"
    unfolding acks_def ts_def old_def new_def by code_simp+
  moreover from this have "list_ex (\<lambda>a. ack_epoch a = 3 \<and> task_target (ack_task a) = ''c'') acks"
    using rebalance_plan_covers [where ts = "rev ts @ ts" and part = 7 and old = old and new = new
        and acks = acks and e = 3 and n = "''c''"] by (auto simp: ts_def)
  ultimately show ?thesis unfolding Let_def old_def new_def ts_def acks_def by blast
qed

section \<open>Tombstones\<close>














section \<open>Slot versions\<close>

lemma slot_version_bits: "push_bit 32 (g :: u64) OR take_bit 32 m = push_bit 32 g + take_bit 32 m"
  by (rule disjunctive_add_eq_or [symmetric]) (simp add: bit_eq_iff bit_simps)

lemma slot_version_value:
  assumes "g < 0x100000000" "m < 0x100000000"
  shows "unat (replicated_slot_version g m) = unat g * 2 ^ 32 + unat m"
proof -
  have b: "unat g < 2 ^ 32" "unat m < 2 ^ 32" using assms by (simp_all add: word_less_nat_alt)
  have g: "min g 0xffffffff = g" using b by (simp add: min_def word_le_nat_alt)
  have m: "m AND 0xffffffff = take_bit 32 m" by (simp add: take_bit_eq_mask mask_eq_exp_minus_1)
  have tm: "take_bit 32 m = m"
    using b by (intro unsigned_word_eqI [where ?'a = nat]) (simp add: unsigned_take_bit_eq take_bit_nat_eq_self)
  have "unat (push_bit 32 g) = unat g * 2 ^ 32"
    using b by (simp add: push_bit_eq_mult unat_word_ariths)
  moreover have "replicated_slot_version g m = push_bit 32 g + m"
    using slot_version_bits [of g m] by (simp add: replicated_slot_version_def g m tm)
  ultimately show ?thesis using b by (simp add: unat_word_ariths)
qed

text \<open>
  The version of a replicated slot orders messages by generation first and message number second: with
  both below \<open>2 ^ 32\<close> it is the number \<open>generation * 2 ^ 32 + message\<close>, so a later
  generation outranks every message of an earlier one and message order is kept within a generation.
\<close>
lemma slot_version_orders:
  assumes "g < 0x100000000" "m < 0x100000000" "g' < 0x100000000" "m' < 0x100000000"
  shows "unat (replicated_slot_version g m) = unat g * 2 ^ 32 + unat m
    \<and> (replicated_slot_version g m < replicated_slot_version g' m' \<longleftrightarrow> (g, m) < (g', m'))"
proof -
  have v: "unat (replicated_slot_version g m) = unat g * 2 ^ 32 + unat m"
    "unat (replicated_slot_version g' m') = unat g' * 2 ^ 32 + unat m'"
    using assms by (simp_all add: slot_version_value)
  have b: "unat m < 2 ^ 32" "unat m' < 2 ^ 32" using assms by (simp_all add: word_less_nat_alt)
  have "unat g * 2 ^ 32 + unat m < unat g' * 2 ^ 32 + unat m'
      \<longleftrightarrow> unat g < unat g' \<or> (unat g = unat g' \<and> unat m < unat m')"
    using b by (cases "unat g" "unat g'" rule: linorder_cases) (auto simp: nat_less_le dest!: less_imp_Suc_add)
  then show ?thesis
    by (simp add: v less_prod_def' word_less_nat_alt word_unat_eq_iff)
qed

lemma slot_version_orders_witness:
  "replicated_slot_version 1 0xffffffff < replicated_slot_version 2 0"
  using slot_version_orders [of 1 "0xffffffff" 2 0] by simp

end
