(* ===== verification/Value_Store.thy ===== *)
theory Value_Store
  imports Replication
begin

text \<open>
  Replicated value records and what is built on them (\<open>grid/hardening.rs\<close>): versioned records and
  their merge, the checksummed durable envelope and its scrubber, the budgeted in-memory value
  store, the adaptive send window, quorum reads, and the merge after a split brain.
\<close>

section \<open>Records\<close>

type_synonym value_version = u64
type_synonym sealed_bytes = bytes

definition REPLICATED_VALUE_RECORD_FORMAT_VERSION :: u32 where
  "REPLICATED_VALUE_RECORD_FORMAT_VERSION = 1"

definition REPLICATED_VALUE_RECORD_CHECKSUM_FORMAT_VERSION :: u32 where
  "REPLICATED_VALUE_RECORD_CHECKSUM_FORMAT_VERSION = 1"

record replicated_value_record =
  rec_partition :: partition_id
  rec_version :: value_version
  rec_epoch :: cluster_epoch
  rec_state :: "sealed_bytes replicated_slot"

definition record_value :: "partition_id \<Rightarrow> value_version \<Rightarrow> cluster_epoch \<Rightarrow> sealed_bytes \<Rightarrow> replicated_value_record" where
  "record_value p v e sealed =
     \<lparr>rec_partition = p, rec_version = v, rec_epoch = e, rec_state = SlotValue sealed v\<rparr>"

definition record_tombstone :: "partition_id \<Rightarrow> value_version \<Rightarrow> cluster_epoch \<Rightarrow> cluster_epoch option
    \<Rightarrow> replicated_value_record" where
  "record_tombstone p v e gc =
     \<lparr>rec_partition = p, rec_version = v, rec_epoch = e, rec_state = SlotTombstone v gc\<rparr>"

definition rec_is_tombstone :: "replicated_value_record \<Rightarrow> bool" where
  "rec_is_tombstone r = slot_is_tombstone (rec_state r)"

definition approx_bytes :: "replicated_value_record \<Rightarrow> u64" where
  "approx_bytes r = (case rec_state r of SlotValue val _ \<Rightarrow> of_nat (max (length val) 1) | SlotTombstone _ _ \<Rightarrow> 1)"

text \<open>The writer of the checksum: the state is the hash, each call feeds bytes to it.\<close>

definition checksum_u8 :: "u8 \<Rightarrow> u64 \<Rightarrow> u64" where
  "checksum_u8 b h = fnv_byte h b"

definition checksum_bytes :: "bytes \<Rightarrow> u64 \<Rightarrow> u64" where
  "checksum_bytes bs h = fold checksum_u8 bs h"

definition checksum_u32 :: "u32 \<Rightarrow> u64 \<Rightarrow> u64" where
  "checksum_u32 v h = checksum_bytes (u32_le_bytes v) h"

definition checksum_u64 :: "u64 \<Rightarrow> u64 \<Rightarrow> u64" where
  "checksum_u64 v h = checksum_bytes (u64_le_bytes v) h"

definition artifact_checksum :: "replicated_value_record \<Rightarrow> u64" where
  "artifact_checksum r =
     (let h = checksum_u32 REPLICATED_VALUE_RECORD_FORMAT_VERSION FNV_OFFSET;
          h = checksum_u32 (rec_partition r) h;
          h = checksum_u64 (rec_version r) h;
          h = checksum_u64 (rec_epoch r) h
      in case rec_state r of
           SlotValue val version \<Rightarrow> checksum_bytes val (checksum_u64 version (checksum_u8 1 h))
         | SlotTombstone version gc \<Rightarrow>
             checksum_u64 (case gc of Some e \<Rightarrow> e | None \<Rightarrow> - 1) (checksum_u64 version (checksum_u8 2 h)))"

definition rec_stamp :: "replicated_value_record \<Rightarrow> value_version \<times> cluster_epoch" where
  "rec_stamp r = (rec_version r, rec_epoch r)"

definition rec_merge :: "replicated_value_record \<Rightarrow> replicated_value_record \<Rightarrow> replicated_value_record" where
  "rec_merge self other =
     (if rec_stamp other < rec_stamp self then self
      else if rec_stamp self < rec_stamp other then other
      else if rec_is_tombstone self then self else other)"

section \<open>Envelopes and scrubbing\<close>

record checksummed_record =
  checksum_format :: u32
  env_record :: replicated_value_record
  env_checksum :: u64

datatype scrub_error_kind =
    UnsupportedChecksumFormat u32
  | ChecksumMismatch u64 u64

record scrub_error =
  scrub_key :: string
  scrub_kind :: scrub_error_kind

definition seal :: "replicated_value_record \<Rightarrow> checksummed_record" where
  "seal r = \<lparr>checksum_format = REPLICATED_VALUE_RECORD_CHECKSUM_FORMAT_VERSION, env_record = r,
     env_checksum = artifact_checksum r\<rparr>"

definition verify :: "checksummed_record \<Rightarrow> scrub_error_kind + unit" where
  "verify c =
     (if checksum_format c \<noteq> REPLICATED_VALUE_RECORD_CHECKSUM_FORMAT_VERSION
      then Inl (UnsupportedChecksumFormat (checksum_format c))
      else let actual = artifact_checksum (env_record c) in
        if actual \<noteq> env_checksum c then Inl (ChecksumMismatch (env_checksum c) actual) else Inr ())"

definition verified_record :: "string \<Rightarrow> checksummed_record \<Rightarrow> scrub_error + replicated_value_record" where
  "verified_record key c =
     (case verify c of
        Inl kind \<Rightarrow> Inl \<lparr>scrub_key = key, scrub_kind = kind\<rparr>
      | Inr _ \<Rightarrow> Inr (env_record c))"

record scrub_report =
  checked_total :: usize
  corrupt_total :: usize
  repaired_total :: usize
  unrepairable_total :: usize
  scrub_errors :: "scrub_error list"

definition scrub_report_default :: scrub_report where
  "scrub_report_default = \<lparr>checked_total = 0, corrupt_total = 0, repaired_total = 0, unrepairable_total = 0,
     scrub_errors = []\<rparr>"

definition scrub_report_is_ok :: "scrub_report \<Rightarrow> bool" where
  "scrub_report_is_ok r \<longleftrightarrow> unrepairable_total r = 0"

type_synonym checksummed_map = "(string, checksummed_record) btmap"

fun find_map :: "('a \<Rightarrow> 'b option) \<Rightarrow> 'a list \<Rightarrow> 'b option" where
  "find_map f [] = None"
| "find_map f (x # xs) = (case f x of Some y \<Rightarrow> Some y | None \<Rightarrow> find_map f xs)"

definition find_repair :: "string \<Rightarrow> checksummed_map list \<Rightarrow> checksummed_record option" where
  "find_repair key peers =
     find_map (\<lambda>peer. case bt_get peer key of
       Some c \<Rightarrow> if is_ok (verify c) then Some c else None | None \<Rightarrow> None) peers"

definition scrub_key_step :: "checksummed_map list \<Rightarrow> string \<Rightarrow> checksummed_map \<times> scrub_report
    \<Rightarrow> checksummed_map \<times> scrub_report" where
  "scrub_key_step peers key = (\<lambda>(prim, report).
     let report = report\<lparr>checked_total := usize_sat_add (checked_total report) 1\<rparr> in
     case bt_get prim key of
       None \<Rightarrow> (prim, report)
     | Some c \<Rightarrow>
         (case verify c of
            Inr _ \<Rightarrow> (prim, report)
          | Inl kind \<Rightarrow>
              let report = report\<lparr>corrupt_total := usize_sat_add (corrupt_total report) 1\<rparr> in
              (case find_repair key peers of
                 Some repair \<Rightarrow>
                   (bt_insert key repair prim, report\<lparr>repaired_total := usize_sat_add (repaired_total report) 1\<rparr>)
               | None \<Rightarrow>
                   (prim, report\<lparr>unrepairable_total := usize_sat_add (unrepairable_total report) 1,
                      scrub_errors := scrub_errors report @ [\<lparr>scrub_key = key, scrub_kind = kind\<rparr>]\<rparr>))))"

record scrubber =
  max_records_per_run :: usize

definition scrubber_new :: "usize \<Rightarrow> scrubber" where
  "scrubber_new n = \<lparr>max_records_per_run = max n 1\<rparr>"

definition scrub_replicated_values :: "scrubber \<Rightarrow> checksummed_map \<Rightarrow> checksummed_map list
    \<Rightarrow> checksummed_map \<times> scrub_report" where
  "scrub_replicated_values s prim peers =
     fold (scrub_key_step peers) (take (max_records_per_run s) (bt_keys prim)) (prim, scrub_report_default)"

definition verified_get :: "checksummed_map \<Rightarrow> string \<Rightarrow> scrub_error + replicated_value_record option" where
  "verified_get records key =
     (case bt_get records key of
        None \<Rightarrow> Inr None
      | Some c \<Rightarrow> result_bind (verified_record key c) (\<lambda>r. Inr (Some r)))"

section \<open>The value store\<close>

record in_memory_store =
  store_records :: "(string, replicated_value_record) btmap"
  max_total_bytes :: u64
  rejected_total :: u64

type_synonym value_store_error = string

definition with_budget :: "u64 \<Rightarrow> in_memory_store" where
  "with_budget b = \<lparr>store_records = bt_empty, max_total_bytes = max b 1, rejected_total = 0\<rparr>"

definition store_total_bytes :: "in_memory_store \<Rightarrow> u64" where
  "store_total_bytes s = sum_list (map approx_bytes (bt_values (store_records s)))"

definition store_snapshot :: "in_memory_store \<Rightarrow> (string, replicated_value_record) btmap" where
  "store_snapshot s = store_records s"

definition reopen_from_snapshot :: "u64 \<Rightarrow> (string, replicated_value_record) btmap \<Rightarrow> in_memory_store" where
  "reopen_from_snapshot b records = \<lparr>store_records = records, max_total_bytes = max b 1, rejected_total = 0\<rparr>"

definition would_fit :: "string \<Rightarrow> replicated_value_record \<Rightarrow> in_memory_store \<Rightarrow> bool" where
  "would_fit key r s \<longleftrightarrow>
     (let existing = (case bt_get (store_records s) key of Some old \<Rightarrow> approx_bytes old | None \<Rightarrow> 0)
      in sat_add (sat_sub (store_total_bytes s) existing) (approx_bytes r) \<le> max_total_bytes s)"

definition store_upsert :: "string \<Rightarrow> replicated_value_record \<Rightarrow> in_memory_store
    \<Rightarrow> (value_store_error + unit) \<times> in_memory_store" where
  "store_upsert key r s =
     (if \<not> would_fit key r s
      then (Inl ''replicated value store total byte budget exceeded'', s\<lparr>rejected_total := sat_add (rejected_total s) 1\<rparr>)
      else
        let merged = (case bt_get (store_records s) key of Some current \<Rightarrow> rec_merge current r | None \<Rightarrow> r)
        in (Inr (), s\<lparr>store_records := bt_insert key merged (bt_remove key (store_records s))\<rparr>))"

definition store_get_record :: "string \<Rightarrow> in_memory_store \<Rightarrow> replicated_value_record option" where
  "store_get_record key s = bt_get (store_records s) key"

definition store_tombstone :: "string \<Rightarrow> partition_id \<Rightarrow> value_version \<Rightarrow> cluster_epoch \<Rightarrow> in_memory_store
    \<Rightarrow> (value_store_error + unit) \<times> in_memory_store" where
  "store_tombstone key p v e s = store_upsert key (record_tombstone p v e None) s"

definition scan_all :: "in_memory_store \<Rightarrow> (string \<times> replicated_value_record) list" where
  "scan_all s = store_records s"

definition scan_owned :: "effective_replication_map \<Rightarrow> in_memory_store \<Rightarrow> (string \<times> replicated_value_record) list" where
  "scan_owned m s = (if reading m = [] then [] else scan_all s)"

definition store_remove :: "string \<Rightarrow> in_memory_store \<Rightarrow> in_memory_store" where
  "store_remove key s = s\<lparr>store_records := bt_remove key (store_records s)\<rparr>"

section \<open>The send window\<close>

record adaptive_window =
  win_in_flight :: usize
  win_max_in_flight :: usize
  win_floor :: usize
  win_ceil :: usize

definition window_new :: "usize \<Rightarrow> usize \<Rightarrow> usize \<Rightarrow> adaptive_window" where
  "window_new floor initial ceil =
     (let floor = max floor 1; ceil = max ceil floor
      in \<lparr>win_in_flight = 0, win_max_in_flight = min (max initial floor) ceil, win_floor = floor, win_ceil = ceil\<rparr>)"

definition window_admit :: "adaptive_window \<Rightarrow> bool" where
  "window_admit w \<longleftrightarrow> win_in_flight w < win_max_in_flight w"

definition try_acquire :: "adaptive_window \<Rightarrow> bool \<times> adaptive_window" where
  "try_acquire w =
     (if \<not> window_admit w then (False, w)
      else (True, w\<lparr>win_in_flight := usize_sat_add (win_in_flight w) 1\<rparr>))"

definition on_ack :: "bool \<Rightarrow> adaptive_window \<Rightarrow> adaptive_window" where
  "on_ack rtt_ok w =
     (let w = w\<lparr>win_in_flight := win_in_flight w - 1\<rparr> in
      if rtt_ok then w\<lparr>win_max_in_flight := min (usize_sat_add (win_max_in_flight w) 1) (win_ceil w)\<rparr>
      else w\<lparr>win_max_in_flight := max (win_max_in_flight w div 2) (win_floor w)\<rparr>)"

section \<open>Quorum reads\<close>

datatype quorum_posture = StrongQuorum | DegradedSessionRyow

definition is_strong_ryow :: "replication_config \<Rightarrow> bool" where
  "is_strong_ryow c \<longleftrightarrow> replication_factor c < usize_sat_add (read_quorum c) (write_quorum c)"

definition quorum_posture_of :: "replication_config \<Rightarrow> quorum_posture" where
  "quorum_posture_of c = (if is_strong_ryow c then StrongQuorum else DegradedSessionRyow)"

record write_watermark =
  wm_partition :: partition_id
  wm_version :: value_version
  wm_epoch :: cluster_epoch

record quorum_read_decision =
  qr_record :: "replicated_value_record option"
  qr_requires_primary_fallback :: bool

definition quorum_read_your_writes :: "write_watermark \<Rightarrow> replicated_value_record list \<Rightarrow> usize
    \<Rightarrow> quorum_read_decision" where
  "quorum_read_your_writes w rs quorum =
     (let candidates = filter (\<lambda>r. (wm_version w, wm_epoch w) \<le> (rec_version r, rec_epoch r))
            (filter (\<lambda>r. rec_partition r = wm_partition w) rs);
          candidates = sort_key (\<lambda>r. (rec_version r, rec_epoch r)) candidates
      in if length candidates < max quorum 1
         then \<lparr>qr_record = None, qr_requires_primary_fallback = True\<rparr>
         else \<lparr>qr_record = Some (last candidates), qr_requires_primary_fallback = False\<rparr>)"

record live_ryow_decision =
  live_posture :: quorum_posture
  live_decision :: quorum_read_decision

definition live_read_your_writes :: "replication_config \<Rightarrow> write_watermark \<Rightarrow> replicated_value_record list
    \<Rightarrow> live_ryow_decision" where
  "live_read_your_writes c w rs =
     \<lparr>live_posture = quorum_posture_of c, live_decision = quorum_read_your_writes w rs (read_quorum c)\<rparr>"

section \<open>Split brain\<close>

record split_brain_report =
  winner_epoch :: cluster_epoch
  loser_epoch :: cluster_epoch
  merged_entries :: u64
  discarded_entries :: u64
  unresolved_conflicts :: u64

type_synonym merge_policy = "replicated_value_record option \<Rightarrow> replicated_value_record \<Rightarrow> replicated_value_record option"
type_synonym record_map = "(string, replicated_value_record) btmap"

definition higher_version_wins :: merge_policy where
  "higher_version_wins winner loser = Some (case winner of Some w \<Rightarrow> rec_merge w loser | None \<Rightarrow> loser)"

definition put_if_absent :: merge_policy where
  "put_if_absent winner loser = (case winner of Some w \<Rightarrow> Some w | None \<Rightarrow> Some loser)"

definition discard_loser :: merge_policy where
  "discard_loser winner loser = None"

record cluster_merge_outcome =
  out_records :: record_map
  out_report :: split_brain_report

definition merge_entry :: "merge_policy \<Rightarrow> string \<times> replicated_value_record \<Rightarrow> record_map \<times> split_brain_report
    \<Rightarrow> record_map \<times> split_brain_report" where
  "merge_entry policy = (\<lambda>(key, loser) (winner, report).
     case policy (bt_get winner key) loser of
       Some r \<Rightarrow>
         (bt_insert key r winner,
          if bt_get winner key \<noteq> Some r then report\<lparr>merged_entries := sat_add (merged_entries report) 1\<rparr> else report)
     | None \<Rightarrow> (winner, report\<lparr>discarded_entries := sat_add (discarded_entries report) 1\<rparr>))"

definition merge_split_brain_records :: "cluster_epoch \<Rightarrow> cluster_epoch \<Rightarrow> record_map \<Rightarrow> record_map
    \<Rightarrow> merge_policy \<Rightarrow> cluster_merge_outcome" where
  "merge_split_brain_records we le winner loser policy =
     (case fold (merge_entry policy) loser
        (winner, \<lparr>winner_epoch = we, loser_epoch = le, merged_entries = 0, discarded_entries = 0, unresolved_conflicts = 0\<rparr>) of
        (winner, report) \<Rightarrow> \<lparr>out_records = winner, out_report = report\<rparr>)"

definition split_brain_winner :: "cluster_epoch \<Rightarrow> cluster_epoch \<Rightarrow> cluster_epoch \<times> cluster_epoch" where
  "split_brain_winner l r = (if r \<le> l then (l, r) else (r, l))"

record live_split_brain_resolution =
  res_winner_epoch :: cluster_epoch
  res_loser_epoch :: cluster_epoch
  res_outcome :: cluster_merge_outcome

definition resolve_live_split_brain :: "cluster_epoch \<Rightarrow> record_map \<Rightarrow> cluster_epoch \<Rightarrow> record_map
    \<Rightarrow> merge_policy \<Rightarrow> live_split_brain_resolution" where
  "resolve_live_split_brain le lrecords re rrecords policy =
     (let left_wins = re \<le> le;
          (we, loser) = split_brain_winner le re;
          (wrecords, lorecords) = (if left_wins then (lrecords, rrecords) else (rrecords, lrecords))
      in \<lparr>res_winner_epoch = we, res_loser_epoch = loser,
           res_outcome = merge_split_brain_records we loser wrecords lorecords policy\<rparr>)"

section \<open>Live replication\<close>

record live_replication_send =
  send_admitted :: bool
  send_max_in_flight :: usize

record live_replication_peer =
  peer_node :: cluster_node_id
  peer_window :: adaptive_window

text \<open>
  Both routines are generic in the store they write to (the trait \<open>ReplicatedValueStore\<close>), so its upsert
  is an argument.
\<close>

type_synonym 's upsert_op = "string \<Rightarrow> replicated_value_record \<Rightarrow> 's \<Rightarrow> (value_store_error + unit) \<times> 's"

definition send_record :: "'s upsert_op \<Rightarrow> string \<Rightarrow> replicated_value_record \<Rightarrow> bool \<Rightarrow> live_replication_peer \<times> 's
    \<Rightarrow> (value_store_error + live_replication_send) \<times> live_replication_peer \<times> 's" where
  "send_record upsert key r rtt_ok = (\<lambda>(peer, backup).
     case try_acquire (peer_window peer) of
       (False, w) \<Rightarrow>
         (Inr \<lparr>send_admitted = False, send_max_in_flight = win_max_in_flight w\<rparr>, peer\<lparr>peer_window := w\<rparr>, backup)
     | (True, w) \<Rightarrow>
         (case upsert key r backup of
            (Inl err, backup) \<Rightarrow> (Inl err, peer\<lparr>peer_window := w\<rparr>, backup)
          | (Inr _, backup) \<Rightarrow>
              let w = on_ack rtt_ok w in
              (Inr \<lparr>send_admitted = True, send_max_in_flight = win_max_in_flight w\<rparr>, peer\<lparr>peer_window := w\<rparr>, backup)))"

fun anti_entropy_loop :: "'s upsert_op \<Rightarrow> u64 \<Rightarrow> (string \<times> replicated_value_record) list \<Rightarrow> 's
    \<Rightarrow> (value_store_error + u64) \<times> 's" where
  "anti_entropy_loop upsert repaired [] backup = (Inr repaired, backup)"
| "anti_entropy_loop upsert repaired ((key, r) # records) backup =
     (case upsert key r backup of
        (Inl err, backup) \<Rightarrow> (Inl err, backup)
      | (Inr _, backup) \<Rightarrow> anti_entropy_loop upsert (sat_add repaired 1) records backup)"

definition anti_entropy_repair :: "'s upsert_op \<Rightarrow> (string \<times> replicated_value_record) list \<Rightarrow> 's
    \<Rightarrow> (value_store_error + u64) \<times> 's" where
  "anti_entropy_repair upsert records backup = anti_entropy_loop upsert 0 records backup"

end
