(* ===== verification/Value_Store_Props.thy ===== *)
theory Value_Store_Props
  imports Value_Store
begin

text \<open>
  Properties of the replicated value records: what the checksum detects, what the scrubber repairs,
  that merging never goes back and never revives a deleted key, the byte budget of the store, the
  bounds of the send window, and what quorum reads and split-brain merges return. The locale
  \<open>value_store\<close> is the contract replication relies on; the in-memory store implements it.
\<close>

section \<open>Checksums\<close>

definition record_encoding :: "replicated_value_record \<Rightarrow> bytes" where
  "record_encoding r =
     u32_le_bytes REPLICATED_VALUE_RECORD_FORMAT_VERSION @ u32_le_bytes (rec_partition r)
     @ u64_le_bytes (rec_version r) @ u64_le_bytes (rec_epoch r)
     @ (case rec_state r of
          SlotValue val version \<Rightarrow> 1 # u64_le_bytes version @ val
        | SlotTombstone version gc \<Rightarrow> 2 # u64_le_bytes version @ u64_le_bytes (case gc of Some e \<Rightarrow> e | None \<Rightarrow> - 1))"

lemma checksum_bytes_fnv: "checksum_bytes bs h = fnv_bytes h bs"
  by (induction bs arbitrary: h) (auto simp: checksum_bytes_def checksum_u8_def)

lemma artifact_checksum_fnv: "artifact_checksum r = fnv_bytes FNV_OFFSET (record_encoding r)"
  by (simp add: artifact_checksum_def record_encoding_def checksum_u32_def checksum_u64_def checksum_u8_def
      checksum_bytes_fnv Let_def split: replicated_slot.split)

text \<open>
  C23. A sealed record reads back, and a corrupted byte is always noticed. Verifying a freshly sealed envelope
  returns its record; and if any one byte of the encoding of the record (partition, version,
  epoch, kind or payload) is changed afterwards, verification fails with a checksum mismatch.
\<close>
theorem corrupted_byte_detected:
  assumes "record_encoding r' = (record_encoding r)[i := b]" "i < length (record_encoding r)" "b \<noteq> record_encoding r ! i"
  shows "verified_record key (seal r) = Inr r
    \<and> verified_record key ((seal r)\<lparr>env_record := r'\<rparr>) =
        Inl \<lparr>scrub_key = key, scrub_kind = ChecksumMismatch (artifact_checksum r) (artifact_checksum r')\<rparr>"
proof -
  have "artifact_checksum r' \<noteq> artifact_checksum r"
    unfolding artifact_checksum_fnv assms(1) using assms(2,3) by (rule fnv_detects_byte)
  then show ?thesis by (simp add: verified_record_def verify_def seal_def)
qed

theorem corrupted_byte_detected_witness:
  "let r = record_value 3 7 1 [10, 20]; r' = record_value 3 7 1 [10, 21] in
   verified_record ''k'' ((seal r)\<lparr>env_record := r'\<rparr>) =
     Inl \<lparr>scrub_key = ''k'', scrub_kind = ChecksumMismatch (artifact_checksum r) (artifact_checksum r')\<rparr>"
proof -
  have "record_encoding (record_value 3 7 1 [10, 21]) = (record_encoding (record_value 3 7 1 [10, 20]))[34 := 21]"
    "34 < length (record_encoding (record_value 3 7 1 [10, 20]))"
    "21 \<noteq> record_encoding (record_value 3 7 1 [10, 20]) ! 34"
    by code_simp+
  from corrupted_byte_detected [OF this] show ?thesis by simp
qed

section \<open>Scrubbing\<close>

definition env_ok :: "checksummed_record \<Rightarrow> bool" where
  "env_ok c \<longleftrightarrow> is_ok (verify c)"

lemma find_map_Some: "find_map f xs = Some y \<Longrightarrow> \<exists>x \<in> set xs. f x = Some y"
  by (induction xs) (auto split: option.splits)

lemma find_map_None: "find_map f xs = None \<longleftrightarrow> (\<forall>x \<in> set xs. f x = None)"
  by (induction xs) (auto split: option.splits)

lemma find_repair_ok: "find_repair key peers = Some c \<Longrightarrow> env_ok c \<and> (\<exists>p \<in> set peers. bt_get p key = Some c)"
  unfolding find_repair_def env_ok_def by (auto dest!: find_map_Some split: option.splits if_splits)

lemma find_repair_None:
  "find_repair key peers = None \<Longrightarrow> p \<in> set peers \<Longrightarrow> bt_get p key = Some c \<Longrightarrow> \<not> env_ok c"
  unfolding find_repair_def env_ok_def by (auto simp: find_map_None split: option.splits if_splits)

text \<open>What one run may change, key by key.\<close>

definition scrubbed :: "checksummed_map list \<Rightarrow> string set \<Rightarrow> checksummed_map \<Rightarrow> checksummed_map \<Rightarrow> bool" where
  "scrubbed peers keys prim prim' \<longleftrightarrow> (\<forall>k. bt_get prim' k =
     (case bt_get prim k of
        None \<Rightarrow> None
      | Some c \<Rightarrow> if k \<in> keys \<and> \<not> env_ok c then
            (case find_repair k peers of Some c' \<Rightarrow> Some c' | None \<Rightarrow> Some c)
          else Some c))"

definition unrepairable :: "checksummed_map list \<Rightarrow> checksummed_map \<Rightarrow> string \<Rightarrow> bool" where
  "unrepairable peers prim k \<longleftrightarrow>
     (case bt_get prim k of Some c \<Rightarrow> \<not> env_ok c \<and> find_repair k peers = None | None \<Rightarrow> False)"

lemma verify_cases:
  obtains "verify c = Inr ()" "env_ok c" | kind where "verify c = Inl kind" "\<not> env_ok c"
  by (cases "verify c") (auto simp: env_ok_def)

lemma scrub_fold:
  assumes "fold (scrub_key_step peers) keys (prim, report) = (prim', report')" "distinct keys"
  shows "scrubbed peers (set keys) prim prim'
    \<and> map scrub_key (scrub_errors report') = map scrub_key (scrub_errors report) @ filter (unrepairable peers prim) keys"
  using assms
proof (induction keys arbitrary: prim report)
  case Nil
  then show ?case by (auto simp: scrubbed_def split: option.splits)
next
  case (Cons k keys)
  obtain prim1 report1 where s1: "scrub_key_step peers k (prim, report) = (prim1, report1)" by force
  have ih: "scrubbed peers (set keys) prim1 prim'"
    "map scrub_key (scrub_errors report') = map scrub_key (scrub_errors report1) @ filter (unrepairable peers prim1) keys"
    using Cons s1 by auto
  have one: "scrubbed peers {k} prim prim1"
    "map scrub_key (scrub_errors report1) = map scrub_key (scrub_errors report) @ (if unrepairable peers prim k then [k] else [])"
    using s1 by (auto simp: scrub_key_step_def scrubbed_def unrepairable_def Let_def env_ok_def
        split: option.splits sum.splits if_splits)
  have same: "bt_get prim1 k' = bt_get prim k'" if "k' \<noteq> k" for k'
    using one(1) that by (auto simp: scrubbed_def split: option.splits)
  have "unrepairable peers prim1 x = unrepairable peers prim x" if "x \<in> set keys" for x
    using same [of x] Cons.prems(2) that by (cases "x = k") (auto simp: unrepairable_def)
  then have "filter (unrepairable peers prim1) keys = filter (unrepairable peers prim) keys"
    by (intro filter_cong) auto
  moreover have "scrubbed peers (set (k # keys)) prim prim'"
    unfolding scrubbed_def
  proof
    fix k'
    show "bt_get prim' k' = (case bt_get prim k' of
        None \<Rightarrow> None
      | Some c \<Rightarrow> if k' \<in> set (k # keys) \<and> \<not> env_ok c then
            (case find_repair k' peers of Some c' \<Rightarrow> Some c' | None \<Rightarrow> Some c)
          else Some c)"
      using ih(1) one(1) same [of k'] Cons.prems(2)
      by (cases "k' = k") (auto simp: scrubbed_def split: option.splits)
  qed
  ultimately show ?case using ih(2) one(2) by simp
qed

text \<open>
  C28. A scrub run repairs what it can and reports the rest. It never touches a record that verifies
  and never drops a key; a record it replaces is replaced by a verified copy of a peer; and
  after the run every scanned record verifies, unless no peer has a verified copy, and then its key
  is among the reported errors.
\<close>
theorem scrub_sound:
  assumes "scrub_replicated_values s prim peers = (prim', report)" "bt_ok prim" "bt_get prim k = Some c"
  shows "\<exists>c'. bt_get prim' k = Some c' \<and> (env_ok c \<longrightarrow> c' = c)
    \<and> (c' = c \<or> env_ok c' \<and> (\<exists>p \<in> set peers. bt_get p k = Some c'))
    \<and> (k \<in> set (take (max_records_per_run s) (bt_keys prim)) \<longrightarrow>
         env_ok c' \<or> (k \<in> scrub_key ` set (scrub_errors report)
           \<and> (\<forall>p \<in> set peers. \<forall>d. bt_get p k = Some d \<longrightarrow> \<not> env_ok d)))"
proof -
  let ?keys = "take (max_records_per_run s) (bt_keys prim)"
  have "distinct ?keys" using bt_ok_distinct [OF assms(2)] by (simp add: bt_keys_def)
  with scrub_fold [of peers ?keys prim scrub_report_default prim' report] assms(1)
  have sc: "scrubbed peers (set ?keys) prim prim'"
    and errs: "map scrub_key (scrub_errors report) = filter (unrepairable peers prim) ?keys"
    by (simp_all add: scrub_replicated_values_def scrub_report_default_def)
  have rep: "k \<in> scrub_key ` set (scrub_errors report)" if "k \<in> set ?keys" "\<not> env_ok c" "find_repair k peers = None"
    using arg_cong [OF errs, of set] that assms(3) by (auto simp: unrepairable_def)
  show ?thesis
  proof (cases "find_repair k peers")
    case None
    then have "bt_get prim' k = Some c" using sc assms(3) by (auto simp: scrubbed_def)
    with rep None find_repair_None [OF None] show ?thesis by blast
  next
    case (Some d)
    with find_repair_ok [OF Some] sc assms(3) show ?thesis
      by (cases "k \<in> set ?keys \<and> \<not> env_ok c") (auto simp: scrubbed_def)
  qed
qed

theorem scrub_sound_witness:
  "let good = seal (record_value 0 1 1 [1]); bad = good\<lparr>env_checksum := 0\<rparr>;
       (prim', report) = scrub_replicated_values (scrubber_new 5) [(''a'', bad), (''b'', bad)] [[(''a'', good)]] in
   bt_get prim' ''a'' = Some good \<and> scrub_errors report \<noteq> []"
proof -
  define good bad where "good = seal (record_value 0 1 1 [1])" and "bad = good\<lparr>env_checksum := 0\<rparr>"
  obtain prim' report where run: "scrub_replicated_values (scrubber_new 5) [(''a'', bad), (''b'', bad)] [[(''a'', good)]]
      = (prim', report)" by force
  have ok: "bt_ok [(''a'', bad), (''b'', bad)]" by code_simp
  have e: "env_ok good" "\<not> env_ok bad" unfolding good_def bad_def by code_simp+
  have "bt_get prim' ''a'' = Some good"
    using scrub_sound [OF run ok, of "''a''" bad] e by (auto simp: bt_keys_def scrubber_new_def)
  moreover have "scrub_errors report \<noteq> []"
    using scrub_sound [OF run ok, of "''b''" bad] e by (auto simp: bt_keys_def scrubber_new_def)
  ultimately show ?thesis unfolding Let_def good_def [symmetric] bad_def [symmetric] run by simp
qed

section \<open>Merging records\<close>

text \<open>Records are ranked by version, then epoch, then tombstones above values.\<close>

definition rec_rank :: "replicated_value_record \<Rightarrow> (value_version \<times> cluster_epoch) \<times> bool" where
  "rec_rank r = (rec_stamp r, rec_is_tombstone r)"

lemma rec_rank_merge: "rec_rank (rec_merge a b) = max (rec_rank a) (rec_rank b)"
  by (auto simp: rec_merge_def rec_rank_def max_def)

lemma rec_rank_merge_ge: "rec_rank a \<le> rec_rank (rec_merge a b)" "rec_rank b \<le> rec_rank (rec_merge a b)"
  by (simp_all add: rec_rank_merge)

lemma rec_merge_choice: "rec_merge a b = a \<or> rec_merge a b = b"
  by (auto simp: rec_merge_def)

lemma rec_merge_idem [simp]: "rec_merge a a = a"
  by (auto simp: rec_merge_def)

lemma rec_merge_assoc: "rec_merge (rec_merge a b) c = rec_merge a (rec_merge b c)"
  by (auto simp: rec_merge_def)

lemma rec_merge_commute: "rec_rank a \<noteq> rec_rank b \<Longrightarrow> rec_merge a b = rec_merge b a"
  by (auto simp: rec_merge_def rec_rank_def)

lemma rec_rank_live: "rec_rank t \<le> rec_rank r \<Longrightarrow> rec_is_tombstone t \<Longrightarrow> \<not> rec_is_tombstone r \<Longrightarrow> rec_stamp t < rec_stamp r"
  by (auto simp: rec_rank_def)

section \<open>The contract of a value store\<close>

locale value_store =
  fixes upsert :: "string \<Rightarrow> replicated_value_record \<Rightarrow> 's \<Rightarrow> (value_store_error + unit) \<times> 's"
    and lookup :: "string \<Rightarrow> 's \<Rightarrow> replicated_value_record option"
  assumes upsert_ok: "upsert k r s = (Inr u, s') \<Longrightarrow> lookup k' s' =
      (if k' = k then Some (case lookup k s of Some c \<Rightarrow> rec_merge c r | None \<Rightarrow> r) else lookup k' s)"
    and upsert_err: "upsert k r s = (Inl e, s') \<Longrightarrow> lookup k' s' = lookup k' s"
begin

lemma upsert_cases:
  assumes "upsert k r s = (res, s')" "lookup k' s = Some c"
  shows "\<exists>c'. lookup k' s' = Some c' \<and> rec_rank c \<le> rec_rank c' \<and> (c' = c \<or> k' = k \<and> c' = r)"
proof (cases res)
  case (Inl e)
  with assms upsert_err show ?thesis by simp
next
  case (Inr u)
  with assms upsert_ok [of k r s u s' k'] rec_rank_merge_ge [of c r] rec_merge_choice [of c r] show ?thesis by auto
qed

lemma upserts_mono:
  "lookup k s = Some c \<Longrightarrow> \<exists>c'. lookup k (fold (\<lambda>(k, r) s. snd (upsert k r s)) us s) = Some c'
    \<and> rec_rank c \<le> rec_rank c' \<and> (c' = c \<or> (k, c') \<in> set us)"
proof (induction us arbitrary: s c)
  case (Cons u us)
  obtain k1 r1 where u: "u = (k1, r1)" by force
  obtain res s1 where s1: "upsert k1 r1 s = (res, s1)" by force
  obtain c1 where c1: "lookup k s1 = Some c1" "rec_rank c \<le> rec_rank c1" "c1 = c \<or> k = k1 \<and> c1 = r1"
    using upsert_cases [OF s1 Cons.prems] by blast
  from Cons.IH [OF c1(1)] c1(2,3) show ?case by (fastforce simp: u s1)
qed auto

lemma anti_entropy_mono:
  "anti_entropy_loop upsert n rs s = (res, s') \<Longrightarrow> lookup k s = Some c \<Longrightarrow>
    \<exists>c'. lookup k s' = Some c' \<and> rec_rank c \<le> rec_rank c'"
proof (induction rs arbitrary: n s c)
  case (Cons u us)
  obtain k1 r1 where u: "u = (k1, r1)" by force
  obtain res1 s1 where s1: "upsert k1 r1 s = (res1, s1)" by force
  obtain c1 where "lookup k s1 = Some c1" "rec_rank c \<le> rec_rank c1"
    using upsert_cases [OF s1 Cons.prems(2)] by blast
  with Cons.IH [of "sat_add n 1" s1 c1] Cons.prems(1) show ?case
    by (cases res1) (auto simp: u s1 intro: order_trans)
qed auto

lemma anti_entropy_catches_up:
  "anti_entropy_loop upsert n rs s = (Inr m, s') \<Longrightarrow> (k, r) \<in> set rs \<Longrightarrow>
    \<exists>c. lookup k s' = Some c \<and> rec_rank r \<le> rec_rank c"
proof (induction rs arbitrary: n s)
  case (Cons u us)
  obtain k1 r1 where u: "u = (k1, r1)" by force
  from Cons.prems(1) obtain x s1 where s1: "upsert k1 r1 s = (Inr x, s1)"
    and rest: "anti_entropy_loop upsert (sat_add n 1) us s1 = (Inr m, s')"
    by (auto simp: u split: prod.splits sum.splits)
  show ?case
  proof (cases "(k, r) = (k1, r1)")
    case True
    with upsert_ok [OF s1, of k] obtain c where "lookup k s1 = Some c" "rec_rank r \<le> rec_rank c"
      by (auto simp: rec_rank_merge split: option.splits)
    with anti_entropy_mono [OF rest] show ?thesis by (meson order_trans)
  next
    case False
    with Cons.prems(2) u Cons.IH [OF rest] show ?thesis by auto
  qed
qed simp

end

interpretation mem: value_store store_upsert store_get_record
  by unfold_locales
    (auto simp: store_upsert_def store_get_record_def Let_def split: if_splits option.splits)

text \<open>
  C8. A deleted key stays deleted. If the store holds a tombstone for a key, then after any sequence
  of writes the store still holds a record for it with at least that version and epoch; and if the record is a live
  value again, it is one of the values written in the sequence, with a version and epoch strictly above the
  tombstone.
\<close>
theorem deleted_stays_deleted:
  assumes "store_get_record key s = Some t" "rec_is_tombstone t"
  shows "\<exists>c. store_get_record key (fold (\<lambda>(k, r) s. snd (store_upsert k r s)) us s) = Some c
    \<and> rec_stamp t \<le> rec_stamp c
    \<and> (\<not> rec_is_tombstone c \<longrightarrow> rec_stamp t < rec_stamp c \<and> (key, c) \<in> set us)"
proof -
  obtain c where c: "store_get_record key (fold (\<lambda>(k, r) s. snd (store_upsert k r s)) us s) = Some c"
    "rec_rank t \<le> rec_rank c" "c = t \<or> (key, c) \<in> set us"
    using mem.upserts_mono [OF assms(1), of us] by blast
  then have "rec_stamp t \<le> rec_stamp c" by (auto simp: rec_rank_def)
  with c rec_rank_live [OF c(2) assms(2)] assms(2) show ?thesis by blast
qed

theorem deleted_stays_deleted_witness:
  "let s = snd (store_tombstone ''k'' 0 5 2 (with_budget 100));
       us = [(''k'', record_value 0 5 2 [1]), (''k'', record_value 0 4 9 [2]), (''k'', record_value 0 6 1 [3])] in
   \<exists>c. store_get_record ''k'' (fold (\<lambda>(k, r) s. snd (store_upsert k r s)) us s) = Some c
     \<and> (5, 2) \<le> rec_stamp c"
proof -
  define s where "s = snd (store_tombstone ''k'' 0 5 2 (with_budget 100))"
  have "store_get_record ''k'' s = Some (record_tombstone 0 5 2 None)" "rec_is_tombstone (record_tombstone 0 5 2 None)"
    "rec_stamp (record_tombstone 0 5 2 None) = (5, 2)"
    unfolding s_def by code_simp+
  with deleted_stays_deleted [where key = "''k''" and s = s and us = "[(''k'', record_value 0 5 2 [1]),
      (''k'', record_value 0 4 9 [2]), (''k'', record_value 0 6 1 [3])]"] show ?thesis
    unfolding s_def [symmetric] Let_def by (metis (no_types, lifting))
qed

text \<open>
  C30. Anti-entropy repair catches a backup up. When a repair of the in-memory store from a snapshot of
  the primary succeeds, the backup holds for every key of the snapshot a record at least as new as
  the one of the primary, a tombstone counting as newer than a value at the same version and epoch; and
  whether it succeeds or stops at an error, no record of the backup went back.
\<close>
theorem anti_entropy_sound:
  assumes "anti_entropy_repair store_upsert rs s = (res, s')"
  shows "(is_ok res \<longrightarrow> (\<forall>(k, r) \<in> set rs. \<exists>c. store_get_record k s' = Some c \<and> rec_rank r \<le> rec_rank c))
    \<and> (\<forall>k c. store_get_record k s = Some c \<longrightarrow>
         (\<exists>c'. store_get_record k s' = Some c' \<and> rec_rank c \<le> rec_rank c'))"
  using assms mem.anti_entropy_catches_up [of 0 rs s _ s'] mem.anti_entropy_mono [of 0 rs s res s']
  by (cases res) (auto simp: anti_entropy_repair_def)

theorem anti_entropy_sound_witness:
  "let rs = [(''a'', record_value 0 2 1 [1]), (''b'', record_tombstone 0 3 1 None)];
       s = snd (store_upsert ''a'' (record_value 0 1 1 [9]) (with_budget 10));
       (res, s') = anti_entropy_repair store_upsert rs s in
   res = Inr 2 \<and> (\<exists>c. store_get_record ''b'' s' = Some c \<and> rec_rank (record_tombstone 0 3 1 None) \<le> rec_rank c)"
proof -
  define rs where "rs = [(''a'', record_value 0 2 1 [1]), (''b'', record_tombstone 0 3 1 None)]"
  define s where "s = snd (store_upsert ''a'' (record_value 0 1 1 [9]) (with_budget 10))"
  obtain res s' where run: "anti_entropy_repair store_upsert rs s = (res, s')" by force
  have "fst (anti_entropy_repair store_upsert rs s) = Inr 2" unfolding rs_def s_def by code_simp
  with run have "res = Inr 2" by simp
  with anti_entropy_sound [OF run] show ?thesis
    unfolding Let_def rs_def [symmetric] s_def [symmetric] run by (simp add: rs_def)
qed

section \<open>The byte budget\<close>

datatype store_op =
    StoreUpsert string replicated_value_record
  | StoreTombstone string partition_id value_version cluster_epoch
  | StoreRemove string

fun store_step :: "store_op \<Rightarrow> in_memory_store \<Rightarrow> in_memory_store" where
  "store_step (StoreUpsert k r) s = snd (store_upsert k r s)"
| "store_step (StoreTombstone k p v e) s = snd (store_tombstone k p v e s)"
| "store_step (StoreRemove k) s = store_remove k s"

definition stored_bytes :: "in_memory_store \<Rightarrow> nat" where
  "stored_bytes s = bt_weight (unat \<circ> approx_bytes) (store_records s)"

definition store_ok :: "in_memory_store \<Rightarrow> bool" where
  "store_ok s \<longleftrightarrow> bt_ok (store_records s) \<and> stored_bytes s \<le> unat (max_total_bytes s) \<and> max_total_bytes s < - 1"

lemma sum_list_words: "sum_list (ws :: 'a::len word list) = of_nat (sum_list (map unat ws))"
  by (induction ws) auto

lemma total_bytes_exact: "store_ok s \<Longrightarrow> unat (store_total_bytes s) = stored_bytes s"
  using unat_bound [of "max_total_bytes s"]
  by (simp add: store_ok_def store_total_bytes_def sum_list_words unat_of_nat stored_bytes_def bt_weight_def
      bt_values_def comp_def)

lemma store_ok_upsert:
  assumes "store_ok s"
  shows "store_ok (snd (store_upsert k r s))"
proof (cases "would_fit k r s")
  case False
  with assms show ?thesis by (simp add: store_upsert_def store_ok_def stored_bytes_def)
next
  case True
  let ?f = "unat \<circ> approx_bytes" and ?m = "store_records s"
  define old where "old = (case bt_get ?m k of Some c \<Rightarrow> unat (approx_bytes c) | None \<Rightarrow> 0)"
  define merged where "merged = (case bt_get ?m k of Some c \<Rightarrow> rec_merge c r | None \<Rightarrow> r)"
  have ok: "bt_ok ?m" using assms by (simp add: store_ok_def)
  have s': "snd (store_upsert k r s) = s\<lparr>store_records := bt_insert k merged ?m\<rparr>"
    using True bt.put_remove [OF ok] by (simp add: store_upsert_def merged_def Let_def)
  have w: "bt_weight ?f (bt_insert k merged ?m) + old = bt_weight ?f ?m + unat (approx_bytes merged)"
    using bt_weight_insert [OF ok, of ?f k merged] by (simp add: old_def split: option.splits)
  have fit: "stored_bytes s - old + unat (approx_bytes r) \<le> unat (max_total_bytes s)"
    using True total_bytes_exact [OF assms] assms
    by (auto simp: would_fit_def Let_def word_le_nat_alt unat_sat_add unat_sat_sub old_def min_def
        store_ok_def word_less_nat_alt split: option.splits if_splits)
  have "merged = r \<or> (\<exists>c. bt_get ?m k = Some c \<and> merged = c)"
    unfolding merged_def by (cases "bt_get ?m k") (auto dest: rec_merge_choice [THEN disjE] simp: rec_merge_def)
  moreover have "bt_get ?m k = Some c \<Longrightarrow> unat (approx_bytes c) \<le> bt_weight ?f ?m" for c
    using bt_weight_get_le [OF ok, of k c ?f] by simp
  ultimately have "bt_weight ?f (bt_insert k merged ?m) \<le> unat (max_total_bytes s)"
    using w fit assms by (auto simp: stored_bytes_def store_ok_def old_def)
  then show ?thesis using assms ok by (simp add: s' store_ok_def stored_bytes_def)
qed

lemma store_ok_remove: "store_ok s \<Longrightarrow> store_ok (store_remove k s)"
  using bt_weight_remove [of "store_records s" "unat \<circ> approx_bytes" k]
  by (auto simp: store_ok_def store_remove_def stored_bytes_def)

lemma store_ok_step: "store_ok s \<Longrightarrow> store_ok (store_step op s)"
  by (cases op) (auto simp: store_tombstone_def store_ok_upsert store_ok_remove)

lemma store_ok_run: "store_ok s \<Longrightarrow> store_ok (fold store_step ops s)"
  by (induction ops arbitrary: s) (auto simp: store_ok_step)

lemma max_total_bytes_run: "max_total_bytes (fold store_step ops s) = max_total_bytes s"
proof (induction ops arbitrary: s)
  case (Cons op ops)
  have "max_total_bytes (store_step op s) = max_total_bytes s"
    by (cases op) (auto simp: store_tombstone_def store_upsert_def store_remove_def Let_def)
  with Cons show ?case by simp
qed simp

text \<open>
  C32. The value store never exceeds its byte budget. After any sequence of upserts, tombstones and
  removals on a new store, the true sum of the sizes of its records is within the budget, and the 64-bit
  total the code computes is that sum. (A budget of \<open>u64::MAX\<close> is excluded: there the saturated sum in the admission
  test can never exceed it.)
\<close>
theorem store_budget_kept:
  "b < - 1 \<Longrightarrow> let s = fold store_step ops (with_budget b) in
   stored_bytes s \<le> unat (max b 1) \<and> unat (store_total_bytes s) = stored_bytes s \<and> bt_ok (store_records s)"
proof -
  assume "b < - 1"
  then have "store_ok (with_budget b)"
    by (auto simp: store_ok_def with_budget_def stored_bytes_def bt_empty_def max_def word_less_nat_alt)
  from store_ok_run [OF this, of ops] show ?thesis
    using max_total_bytes_run [of ops "with_budget b"]
    by (auto simp: Let_def total_bytes_exact) (auto simp: store_ok_def with_budget_def)
qed

theorem store_budget_kept_witness:
  "let s = fold store_step [StoreUpsert ''a'' (record_value 0 1 1 [1, 2, 3]), StoreTombstone ''a'' 0 2 1,
     StoreUpsert ''b'' (record_value 0 1 1 [7, 8])] (with_budget 4) in
   stored_bytes s = 3 \<and> unat (store_total_bytes s) = 3"
proof -
  let ?s = "fold store_step [StoreUpsert ''a'' (record_value 0 1 1 [1, 2, 3]), StoreTombstone ''a'' 0 2 1,
     StoreUpsert ''b'' (record_value 0 1 1 [7, 8])] (with_budget 4)"
  have "stored_bytes ?s = 3" by code_simp
  with store_budget_kept [of 4 "[StoreUpsert ''a'' (record_value 0 1 1 [1, 2, 3]), StoreTombstone ''a'' 0 2 1,
     StoreUpsert ''b'' (record_value 0 1 1 [7, 8])]"] show ?thesis by (simp add: Let_def)
qed

section \<open>The send window\<close>

datatype window_op = WindowAcquire | WindowAck bool

fun window_step :: "window_op \<Rightarrow> adaptive_window \<Rightarrow> adaptive_window" where
  "window_step WindowAcquire w = snd (try_acquire w)"
| "window_step (WindowAck rtt_ok) w = on_ack rtt_ok w"

definition window_ok :: "adaptive_window \<Rightarrow> bool" where
  "window_ok w \<longleftrightarrow> 0 < win_floor w \<and> win_floor w \<le> win_max_in_flight w \<and> win_max_in_flight w \<le> win_ceil w
     \<and> win_in_flight w \<le> win_ceil w \<and> win_ceil w \<le> usize_max"

lemma window_ok_step: "window_ok w \<Longrightarrow> window_ok (window_step op w)"
  by (cases op) (auto simp: window_ok_def try_acquire_def window_admit_def on_ack_def usize_sat_add_def Let_def)

lemma window_ok_run: "window_ok w \<Longrightarrow> window_ok (fold window_step ops w)"
  by (induction ops arbitrary: w) (auto simp: window_ok_step)

lemma window_limits_run: "win_floor (fold window_step ops w) = win_floor w \<and> win_ceil (fold window_step ops w) = win_ceil w"
proof (induction ops arbitrary: w)
  case (Cons op ops)
  have "win_floor (window_step op w) = win_floor w \<and> win_ceil (window_step op w) = win_ceil w"
    by (cases op) (auto simp: try_acquire_def on_ack_def Let_def)
  with Cons show ?case by simp
qed simp

lemma acks_in_flight: "win_in_flight (fold window_step (map WindowAck oks) w) = win_in_flight w - length oks"
  by (induction oks arbitrary: w) (auto simp: on_ack_def Let_def)

text \<open>
  C33. The adaptive send window stays within its limits and never closes for good. Over any sequence of
  sends and acknowledgements, the limit stays between the floor and the ceiling and no more
  sends than the ceiling are in flight; and once the sends in flight have been acknowledged, with
  whatever round-trip results, the window admits a send.
\<close>
theorem window_bounded_and_live:
  assumes "ceil \<le> usize_max" "floor \<le> usize_max" "w = fold window_step ops (window_new floor initial ceil)"
  shows "max floor 1 \<le> win_max_in_flight w \<and> win_max_in_flight w \<le> max ceil (max floor 1)
    \<and> win_in_flight w \<le> max ceil (max floor 1)
    \<and> (win_in_flight w \<le> length oks \<longrightarrow> window_admit (fold window_step (map WindowAck oks) w))"
proof -
  have "1 \<le> usize_max" by (simp add: usize_max_def)
  with assms(1,2) have new: "window_ok (window_new floor initial ceil)"
    by (auto simp: window_ok_def window_new_def Let_def)
  then have ok: "window_ok w" unfolding assms(3) by (rule window_ok_run)
  moreover have "win_floor w = max floor 1" "win_ceil w = max ceil (max floor 1)"
    using window_limits_run [of ops "window_new floor initial ceil"]
    by (simp_all add: assms(3) window_new_def Let_def)
  moreover have "window_admit (fold window_step (map WindowAck oks) w)" if "win_in_flight w \<le> length oks"
    using window_ok_run [OF ok, of "map WindowAck oks"] acks_in_flight [of oks w] that
    by (auto simp: window_admit_def window_ok_def)
  ultimately show ?thesis by (auto simp: window_ok_def)
qed

theorem window_bounded_and_live_witness:
  "let w = fold window_step [WindowAcquire, WindowAcquire, WindowAck False, WindowAcquire] (window_new 1 2 4) in
   win_max_in_flight w \<le> 4 \<and> window_admit (fold window_step (map WindowAck [False, False]) w)"
  using window_bounded_and_live [where ceil = 4 and floor = 1 and initial = 2 and oks = "[False, False]"
      and ops = "[WindowAcquire, WindowAcquire, WindowAck False, WindowAcquire]", OF _ _ refl]
  by (simp add: usize_max_def try_acquire_def window_admit_def on_ack_def window_new_def usize_sat_add_def Let_def)

text \<open>A run of sends to one peer, keeping the answers.\<close>

fun send_all :: "'s upsert_op \<Rightarrow> (string \<times> replicated_value_record \<times> bool) list \<Rightarrow> live_replication_peer \<times> 's
    \<Rightarrow> (value_store_error + live_replication_send) list \<times> live_replication_peer \<times> 's" where
  "send_all upsert [] st = ([], st)"
| "send_all upsert ((k, r, ok) # sends) st =
     (case send_record upsert k r ok st of
        (res, st) \<Rightarrow> (case send_all upsert sends st of (ress, st) \<Rightarrow> (res # ress, st)))"

lemma send_rejected:
  assumes "send_record upsert k r ok (peer, backup) = (Inl e, peer', backup')" "win_max_in_flight (peer_window peer) \<le> usize_max"
  shows "win_in_flight (peer_window peer') = Suc (win_in_flight (peer_window peer))
    \<and> win_max_in_flight (peer_window peer') = win_max_in_flight (peer_window peer)"
  using assms by (auto simp: send_record_def try_acquire_def window_admit_def usize_sat_add_def Let_def
      split: if_splits prod.splits sum.splits)

lemma sends_rejected:
  assumes "send_all upsert sends (peer, backup) = (ress, peer', backup')" "list_all (\<lambda>r. \<not> is_ok r) ress"
    "win_max_in_flight (peer_window peer) \<le> usize_max"
  shows "win_in_flight (peer_window peer') = win_in_flight (peer_window peer) + length sends
    \<and> win_max_in_flight (peer_window peer') = win_max_in_flight (peer_window peer)"
  using assms
proof (induction sends arbitrary: peer backup ress)
  case (Cons x sends)
  obtain k r ok where x: "x = (k, r, ok)" by (cases x)
  obtain res peer1 backup1 where s1: "send_record upsert k r ok (peer, backup) = (res, peer1, backup1)"
    by (cases "send_record upsert k r ok (peer, backup)") auto
  obtain ress1 where rest: "send_all upsert sends (peer1, backup1) = (ress1, peer', backup')" "ress = res # ress1"
    using Cons.prems(1) by (auto simp: x s1 split: prod.splits)
  obtain e where res: "res = Inl e" using Cons.prems(2) rest(2) by (cases res) auto
  have one: "win_in_flight (peer_window peer1) = Suc (win_in_flight (peer_window peer))"
    "win_max_in_flight (peer_window peer1) = win_max_in_flight (peer_window peer)"
    using send_rejected [OF s1 [unfolded res] Cons.prems(3)] by auto
  then show ?case using Cons.IH [OF rest(1)] Cons.prems(2,3) rest(2) by simp
qed simp

lemma send_closed:
  assumes "\<not> window_admit (peer_window peer)"
  shows "send_all upsert sends (peer, backup) =
    (map (\<lambda>_. Inr \<lparr>send_admitted = False, send_max_in_flight = win_max_in_flight (peer_window peer)\<rparr>) sends, peer, backup)"
  using assms by (induction sends) (auto simp: send_record_def try_acquire_def)

text \<open>
  C38. A send that the backup store rejects keeps its slot of the window for ever. On a new peer whose window admits
  \<open>n\<close> sends, after \<open>n\<close> sends that the store answered with an error, every later
  send is refused without reaching the store, whatever is sent.
\<close>
theorem rejected_sends_close_window:
  assumes "send_all upsert sends (\<lparr>peer_node = node, peer_window = window_new floor initial ceil\<rparr>, backup) = (ress, peer', backup')"
    and "list_all (\<lambda>r. \<not> is_ok r) ress" "win_max_in_flight (window_new floor initial ceil) \<le> length sends"
    and "win_max_in_flight (window_new floor initial ceil) \<le> usize_max"
  shows "send_all upsert later (peer', backup') =
    (map (\<lambda>_. Inr \<lparr>send_admitted = False, send_max_in_flight = win_max_in_flight (peer_window peer')\<rparr>) later, peer', backup')"
  using sends_rejected [OF assms(1,2)] assms(3,4)
  by (intro send_closed) (simp add: window_admit_def)

theorem rejected_sends_close_window_witness:
  "let big = record_value 0 1 1 [1, 2, 3]; small = record_value 0 1 1 [1];
       peer = \<lparr>peer_node = ''n'', peer_window = window_new 1 1 4\<rparr>;
       (ress, peer', s') = send_all store_upsert [(''k'', big, True)] (peer, with_budget 2) in
   fst (send_all store_upsert [(''k'', small, True)] (peer', s')) =
     [Inr \<lparr>send_admitted = False, send_max_in_flight = 1\<rparr>]"
proof -
  define peer where "peer = \<lparr>peer_node = ''n'', peer_window = window_new 1 1 4\<rparr>"
  obtain ress peer' s' where run: "send_all store_upsert [(''k'', record_value 0 1 1 [1, 2, 3], True)] (peer, with_budget 2)
      = (ress, peer', s')" by (metis prod_cases3)
  have "list_all (\<lambda>r. \<not> is_ok r) (fst (send_all store_upsert [(''k'', record_value 0 1 1 [1, 2, 3], True)] (peer, with_budget 2)))"
    "win_max_in_flight (peer_window (fst (snd (send_all store_upsert [(''k'', record_value 0 1 1 [1, 2, 3], True)] (peer, with_budget 2))))) = 1"
    by (simp_all add: peer_def send_record_def try_acquire_def window_admit_def window_new_def usize_sat_add_def
        usize_max_def store_upsert_def would_fit_def with_budget_def store_total_bytes_def bt_values_def
        bt_empty_def approx_bytes_def record_value_def sat_sub_def sat_add_def Let_def)
  moreover have "win_max_in_flight (window_new 1 1 4) \<le> usize_max"
    by (simp add: window_new_def usize_max_def Let_def)
  ultimately have "send_all store_upsert [(''k'', record_value 0 1 1 [1], True)] (peer', s') =
      ([Inr \<lparr>send_admitted = False, send_max_in_flight = 1\<rparr>], peer', s')"
    using rejected_sends_close_window [OF run [unfolded peer_def], of "[(''k'', record_value 0 1 1 [1], True)]"] run
    by (simp add: window_new_def Let_def del: send_all.simps)
  then show ?thesis unfolding Let_def peer_def [symmetric] run prod.case by simp
qed

section \<open>Quorum reads\<close>

lemma last_sort_key_max:
  assumes "xs \<noteq> []"
  shows "last (sort_key f xs) \<in> set xs \<and> (\<forall>x \<in> set xs. f x \<le> f (last (sort_key f xs)))"
proof -
  let ?ys = "sort_key f xs"
  have ne: "?ys \<noteq> []" using assms by (simp flip: set_empty)
  have "f x \<le> f (last ?ys)" if "x \<in> set xs" for x
  proof -
    have "x \<in> set ?ys" using that by simp
    then obtain i where i: "i < length ?ys" "?ys ! i = x" unfolding in_set_conv_nth by blast
    have "map f ?ys ! i \<le> map f ?ys ! (length ?ys - 1)"
      using i(1) by (intro sorted_nth_mono) auto
    then show ?thesis using i ne by (simp add: last_conv_nth)
  qed
  moreover have "last ?ys \<in> set xs" using last_in_set [OF ne] by simp
  ultimately show ?thesis by blast
qed

definition fresh :: "write_watermark \<Rightarrow> replicated_value_record \<Rightarrow> bool" where
  "fresh w r \<longleftrightarrow> rec_partition r = wm_partition w \<and> (wm_version w, wm_epoch w) \<le> rec_stamp r"

lemma quorum_read_spec:
  "case qr_record (quorum_read_your_writes w rs q) of
     None \<Rightarrow> length (filter (fresh w) rs) < max q 1
   | Some r \<Rightarrow> r \<in> set rs \<and> fresh w r \<and> (\<forall>r' \<in> set rs. fresh w r' \<longrightarrow> rec_stamp r' \<le> rec_stamp r)
       \<and> max q 1 \<le> length (filter (fresh w) rs)"
  "qr_requires_primary_fallback (quorum_read_your_writes w rs q) \<longleftrightarrow> qr_record (quorum_read_your_writes w rs q) = None"
proof -
  let ?cs = "filter (fresh w) rs"
  have cs: "filter (\<lambda>r. (wm_version w, wm_epoch w) \<le> (rec_version r, rec_epoch r))
      (filter (\<lambda>r. rec_partition r = wm_partition w) rs) = ?cs"
    unfolding filter_filter by (rule filter_cong) (auto simp: fresh_def rec_stamp_def)
  have key: "(\<lambda>r. (rec_version r, rec_epoch r)) = rec_stamp" by (simp add: rec_stamp_def fun_eq_iff)
  have q: "quorum_read_your_writes w rs q = (if length ?cs < max q 1
      then \<lparr>qr_record = None, qr_requires_primary_fallback = True\<rparr>
      else \<lparr>qr_record = Some (last (sort_key rec_stamp ?cs)), qr_requires_primary_fallback = False\<rparr>)"
    unfolding quorum_read_your_writes_def cs key Let_def by simp
  show "qr_requires_primary_fallback (quorum_read_your_writes w rs q) \<longleftrightarrow> qr_record (quorum_read_your_writes w rs q) = None"
    by (simp add: q)
  show "case qr_record (quorum_read_your_writes w rs q) of
     None \<Rightarrow> length ?cs < max q 1
   | Some r \<Rightarrow> r \<in> set rs \<and> fresh w r \<and> (\<forall>r' \<in> set rs. fresh w r' \<longrightarrow> rec_stamp r' \<le> rec_stamp r)
       \<and> max q 1 \<le> length ?cs"
  proof (cases "length ?cs < max q 1")
    case False
    then have "?cs \<noteq> []" by auto
    from last_sort_key_max [OF this, of rec_stamp] False show ?thesis
      unfolding q if_not_P [OF False] by auto
  qed (simp add: q)
qed

lemma quorums_meet:
  assumes "is_strong_ryow c" "R \<subseteq> set ns" "W \<subseteq> set ns" "length ns = replication_factor c"
    "read_quorum c \<le> card R" "write_quorum c \<le> card W"
  shows "R \<inter> W \<noteq> {}"
proof
  assume "R \<inter> W = {}"
  then have "card (R \<union> W) = card R + card W"
    using assms(2,3) by (intro card_Un_disjoint) (auto dest: finite_subset)
  moreover have "card (R \<union> W) \<le> length ns"
    using assms(2,3) card_mono [of "set ns" "R \<union> W"] card_length [of ns] by auto
  ultimately show False
    using assms(1,4-6) by (simp add: is_strong_ryow_def usize_sat_add_def)
qed

text \<open>
  C9. Strong quorums read their own writes. Take a configuration with overlapping quorums and a replica set of
  the configured size, let a write be stored (at its version or a later one) on at least a write quorum of the replicas,
  and read at least a read quorum of them. Then some replica that was read has the write, and the live
  read returns a record of a replica that was read, at or above the write and newest among the
  replicas that were read, unless it asks for the primary, which it does exactly when fewer replicas than the read
  quorum are that fresh.
\<close>
theorem strong_read_your_writes:
  assumes "is_strong_ryow c" "copy_count rs = replication_factor c"
    and "W \<subseteq> set (all_nodes rs)" "write_quorum c \<le> card W" "\<forall>n \<in> W. fresh w (stored n)"
    and "distinct R" "set R \<subseteq> set (all_nodes rs)" "read_quorum c \<le> length R"
    and "d = live_decision (live_read_your_writes c w (map stored R))"
  shows "(\<exists>n \<in> set R. fresh w (stored n))
    \<and> (case qr_record d of
         Some r \<Rightarrow> \<not> qr_requires_primary_fallback d \<and> r \<in> stored ` set R \<and> fresh w r
           \<and> (\<forall>n \<in> set R. fresh w (stored n) \<longrightarrow> rec_stamp (stored n) \<le> rec_stamp r)
       | None \<Rightarrow> qr_requires_primary_fallback d \<and> length (filter (fresh w \<circ> stored) R) < max (read_quorum c) 1)"
proof -
  have "set R \<inter> W \<noteq> {}"
    using quorums_meet [OF assms(1,7,3)] assms(2,4,6,8) by (simp add: copy_count_def all_nodes_def distinct_card)
  then have "\<exists>n \<in> set R. fresh w (stored n)" using assms(5) by auto
  moreover have d: "d = quorum_read_your_writes w (map stored R) (read_quorum c)"
    by (simp add: assms(9) live_read_your_writes_def)
  ultimately show ?thesis
    using quorum_read_spec(1) [of w "map stored R" "read_quorum c"] quorum_read_spec(2) [of w "map stored R" "read_quorum c"]
    by (auto simp: d filter_map split: option.splits)
qed

theorem strong_read_your_writes_witness:
  "let c = local_first\<lparr>replication_factor := 3, read_quorum := 2, write_quorum := 2\<rparr>;
       stored = (\<lambda>n. if n = ''a'' then record_value 0 1 1 [1] else record_value 0 2 1 [2]);
       w = \<lparr>wm_partition = 0, wm_version = 2, wm_epoch = 1\<rparr>;
       d = live_decision (live_read_your_writes c w (map stored [''b'', ''c'']))
   in \<exists>r. qr_record d = Some r \<and> fresh w r"
proof -
  define c where "c = local_first\<lparr>replication_factor := 3, read_quorum := 2, write_quorum := 2\<rparr>"
  define stored where "stored = (\<lambda>n. if n = ''a'' then record_value 0 1 1 [1] else record_value 0 2 1 [2])"
  define w where "w = \<lparr>wm_partition = 0, wm_version = 2, wm_epoch = 1\<rparr>"
  define d where "d = live_decision (live_read_your_writes c w (map stored [''b'', ''c'']))"
  have "is_strong_ryow c" by (simp add: is_strong_ryow_def c_def local_first_def usize_sat_add_def usize_max_def)
  moreover have d: "d = quorum_read_your_writes w (map stored [''b'', ''c'']) 2"
    by (simp add: d_def live_read_your_writes_def c_def)
  moreover have "copy_count (replicas_new ''a'' [''b'', ''c'']) = 3"
    "set [''b'', ''c''] \<subseteq> set (all_nodes (replicas_new ''a'' [''b'', ''c'']))"
    "\<forall>n \<in> {''b'', ''c''}. fresh w (stored n)" "qr_record d \<noteq> None"
    unfolding d c_def w_def stored_def by code_simp+
  ultimately have "case qr_record d of Some r \<Rightarrow> fresh w r | None \<Rightarrow> True"
    using strong_read_your_writes [of c "replicas_new ''a'' [''b'', ''c'']" "{''b'', ''c''}" w stored "[''b'', ''c'']" d]
    by (auto simp: d_def c_def local_first_def split: option.splits)
  with \<open>qr_record d \<noteq> None\<close> have "\<exists>r. qr_record d = Some r \<and> fresh w r" by auto
  then show ?thesis unfolding Let_def c_def [symmetric] stored_def [symmetric] w_def [symmetric] d_def [symmetric] .
qed

section \<open>Split brain\<close>

lemma merge_fold:
  assumes "fold (merge_entry higher_version_wins) loser (winner, report) = (winner', report')" "distinct (map fst loser)"
  shows "bt_get winner' k = (case (bt_get winner k, bt_get loser k) of
      (Some a, Some b) \<Rightarrow> Some (rec_merge a b) | (None, b) \<Rightarrow> b | (a, None) \<Rightarrow> a)"
  using assms
proof (induction loser arbitrary: winner report)
  case (Cons e loser)
  obtain k1 r1 where e: "e = (k1, r1)" by force
  let ?w = "bt_insert k1 (case bt_get winner k1 of Some w \<Rightarrow> rec_merge w r1 | None \<Rightarrow> r1) winner"
  obtain report1 where "merge_entry higher_version_wins (k1, r1) (winner, report) = (?w, report1)"
    by (simp add: merge_entry_def higher_version_wins_def)
  then have "bt_get winner' k = (case (bt_get ?w k, bt_get loser k) of
      (Some a, Some b) \<Rightarrow> Some (rec_merge a b) | (None, b) \<Rightarrow> b | (a, None) \<Rightarrow> a)"
    using Cons by (simp add: e)
  moreover have "k1 \<notin> dom (bt_get loser)" using Cons.prems(2) by (simp add: e dom_map_of_conv_image_fst)
  ultimately show ?case by (auto simp: e split: option.splits)
qed (auto split: option.splits)

lemma rec_merge_either:
  assumes "x = rec_merge a b \<or> x = rec_merge b a"
  shows "\<exists>y \<in> {a, b}. x = y \<and> rec_rank y = max (rec_rank a) (rec_rank b) \<and> (rec_rank a = rec_rank b \<or> y = rec_merge a b)"
  using assms rec_merge_choice [of a b] rec_merge_choice [of b a] rec_merge_commute [of a b]
    rec_rank_merge [of a b] rec_rank_merge [of b a]
  by (auto simp: max.commute)

text \<open>
  C25. Healing a split brain with the default policy loses no key and no newest write. Whichever side has the
  higher epoch, the merged records have the keys of both sides; the record of a key is the record of one of the
  sides, with the greater version and epoch of the two, and a tombstone wins over a value at the same version and epoch. Where the two
  sides rank differently, the result does not depend on which side won.
\<close>
theorem split_brain_keeps_newest:
  assumes "bt_ok l" "bt_ok r"
    and "m = out_records (res_outcome (resolve_live_split_brain le l re r higher_version_wins))"
  shows "case (bt_get l k, bt_get r k) of
      (None, None) \<Rightarrow> bt_get m k = None
    | (Some a, None) \<Rightarrow> bt_get m k = Some a
    | (None, Some b) \<Rightarrow> bt_get m k = Some b
    | (Some a, Some b) \<Rightarrow> \<exists>x \<in> {a, b}. bt_get m k = Some x \<and> rec_rank x = max (rec_rank a) (rec_rank b)
        \<and> (rec_rank a = rec_rank b \<or> x = rec_merge a b)"
proof -
  define winner loser where "winner = (if re \<le> le then l else r)" and "loser = (if re \<le> le then r else l)"
  define rep where "rep = \<lparr>winner_epoch = fst (split_brain_winner le re), loser_epoch = snd (split_brain_winner le re),
    merged_entries = 0, discarded_entries = 0, unresolved_conflicts = 0\<rparr>"
  obtain m' rep' where f: "fold (merge_entry higher_version_wins) loser (winner, rep) = (m', rep')"
    by (meson surj_pair)
  have m: "m = m'"
    unfolding assms(3) resolve_live_split_brain_def Let_def merge_split_brain_records_def split_beta
      rep_def [symmetric] using f by (simp add: winner_def loser_def split: if_splits)
  have "distinct (map fst loser)" using assms(1,2) by (simp add: loser_def bt_ok_distinct)
  note pick = merge_fold [OF f this, of k]
  show ?thesis
  proof (cases "bt_get l k"; cases "bt_get r k")
    fix a b assume ab: "bt_get l k = Some a" "bt_get r k = Some b"
    then obtain x where x: "bt_get m k = Some x" "x = rec_merge a b \<or> x = rec_merge b a"
      using pick by (cases "re \<le> le") (simp_all add: m winner_def loser_def)
    from rec_merge_either [OF x(2)] show ?thesis by (simp add: ab x(1))
  qed (use pick in \<open>cases "re \<le> le"; simp add: m winner_def loser_def\<close>)+
qed

theorem split_brain_keeps_newest_witness:
  "let l = [(''a'', record_value 0 1 1 [1]), (''b'', record_value 0 3 1 [1])];
       r = [(''a'', record_tombstone 0 1 1 None), (''c'', record_value 0 1 1 [5])];
       m = out_records (res_outcome (resolve_live_split_brain 4 l 9 r higher_version_wins))
   in bt_get m ''b'' = Some (record_value 0 3 1 [1])
    \<and> (\<exists>x. bt_get m ''a'' = Some x \<and> rec_rank x = max (rec_rank (record_value 0 1 1 [1])) (rec_rank (record_tombstone 0 1 1 None)))"
proof -
  define l r where "l = [(''a'', record_value 0 1 1 [1]), (''b'', record_value 0 3 1 [1])]"
    and "r = [(''a'', record_tombstone 0 1 1 None), (''c'', record_value 0 1 1 [5])]"
  have ok: "bt_ok l" "bt_ok r" unfolding l_def r_def by code_simp+
  show ?thesis
    using split_brain_keeps_newest [OF ok refl, where k = "''a''" and le = 4 and re = 9]
      split_brain_keeps_newest [OF ok refl, where k = "''b''" and le = 4 and re = 9]
    unfolding Let_def l_def [symmetric] r_def [symmetric] by (auto simp: l_def r_def)
qed

end
