(* ===== verification/Hinted_Handoff.thy ===== *)
theory Hinted_Handoff
  imports Value_Store_Props
begin

text \<open>
  Hinted handoff (\<open>grid/hinted_handoff.rs\<close>): writes missed by a replica are kept as hints within a budget and
  replayed when the replica returns. Shown: a missed write is never lost silently, the budget holds,
  and a replay neither overwrites a newer record nor revives a deleted key.
\<close>

section \<open>Hints\<close>

record hint =
  hint_target :: cluster_node_id
  hint_key :: string
  hint_partition :: partition_id
  hint_version :: value_version
  hint_epoch :: cluster_epoch
  hint_sealed :: sealed_bytes
  hint_created_at_millis :: u64

record hint_budget =
  max_hints :: usize
  max_hint_bytes :: u64
  max_hint_age :: duration

definition hint_budget_new :: "usize \<Rightarrow> u64 \<Rightarrow> duration \<Rightarrow> hint_budget" where
  "hint_budget_new n b age = \<lparr>max_hints = max n 1, max_hint_bytes = max b 1,
     max_hint_age = (if age = 0 then 1000000 else age)\<rparr>"

definition hint_approx_bytes :: "hint \<Rightarrow> u64" where
  "hint_approx_bytes h = of_nat (max (usize_sat_add (length (hint_key h)) (length (hint_sealed h))) 1)"

definition hint_is_expired :: "u64 \<Rightarrow> hint_budget \<Rightarrow> hint \<Rightarrow> bool" where
  "hint_is_expired now_millis budget h \<longleftrightarrow>
     (let max_age_millis = of_nat (min (max_hint_age budget div 1000000) (2 ^ 64 - 1))
      in max_age_millis < sat_sub now_millis (hint_created_at_millis h))"

definition hint_to_record :: "hint \<Rightarrow> replicated_value_record" where
  "hint_to_record h = record_value (hint_partition h) (hint_version h) (hint_epoch h) (hint_sealed h)"

datatype hint_outcome = HintStored | HintReplayed | DroppedOverBudget | DroppedExpired | RequiredReplicaMiss

datatype hint_replay_decision =
    Replayed replicated_value_record
  | SuppressedByNewerValue replicated_value_record
  | SuppressedByTombstone replicated_value_record

fun decision_outcome :: "hint_replay_decision \<Rightarrow> hint_outcome" where
  "decision_outcome (Replayed r) = HintReplayed"
| "decision_outcome (SuppressedByNewerValue c) = DroppedExpired"
| "decision_outcome (SuppressedByTombstone c) = DroppedExpired"

section \<open>The store\<close>

record hint_metrics =
  hints_stored_total :: u64
  hints_replayed_total :: u64
  hints_dropped_total :: u64
  hint_store_bytes :: u64

record hint_store =
  hs_budget :: hint_budget
  hs_hints :: "(cluster_node_id, hint list) btmap"
  hs_repair_marks :: "string set"
  hs_metrics :: hint_metrics

definition hint_store_new :: "hint_budget \<Rightarrow> hint_store" where
  "hint_store_new b = \<lparr>hs_budget = b, hs_hints = bt_empty, hs_repair_marks = {},
     hs_metrics = \<lparr>hints_stored_total = 0, hints_replayed_total = 0, hints_dropped_total = 0, hint_store_bytes = 0\<rparr>\<rparr>"

definition hint_total_bytes :: "hint_store \<Rightarrow> u64" where
  "hint_total_bytes s = sum_list (map hint_approx_bytes (concat (bt_values (hs_hints s))))"

definition hint_store_metrics :: "hint_store \<Rightarrow> hint_metrics" where
  "hint_store_metrics s = (hs_metrics s)\<lparr>hint_store_bytes := hint_total_bytes s\<rparr>"

definition is_marked_for_repair :: "string \<Rightarrow> hint_store \<Rightarrow> bool" where
  "is_marked_for_repair key s \<longleftrightarrow> key \<in> hs_repair_marks s"

definition hint_store_len :: "hint_store \<Rightarrow> usize" where
  "hint_store_len s = sum_list (map length (bt_values (hs_hints s)))"

definition mark_for_repair :: "string \<Rightarrow> hint_store \<Rightarrow> hint_store" where
  "mark_for_repair key s = s\<lparr>hs_repair_marks := insert key (hs_repair_marks s)\<rparr>"

definition count_dropped :: "hint_store \<Rightarrow> hint_store" where
  "count_dropped s = s\<lparr>hs_metrics := (hs_metrics s)\<lparr>hints_dropped_total := sat_add (hints_dropped_total (hs_metrics s)) 1\<rparr>\<rparr>"

definition store_hint :: "hint \<Rightarrow> bool \<Rightarrow> u64 \<Rightarrow> hint_store \<Rightarrow> hint_outcome \<times> hint_store" where
  "store_hint h required_by_consistency now_millis s =
     (if required_by_consistency then (RequiredReplicaMiss, s)
      else if hint_is_expired now_millis (hs_budget s) h
      then (DroppedExpired, mark_for_repair (hint_key h) (count_dropped s))
      else
        let next_count = usize_sat_add (hint_store_len s) 1;
            next_bytes = sat_add (hint_total_bytes s) (hint_approx_bytes h)
        in if max_hints (hs_budget s) < next_count \<or> max_hint_bytes (hs_budget s) < next_bytes
           then (DroppedOverBudget, mark_for_repair (hint_key h) (count_dropped s))
           else
             let queue = (case bt_get (hs_hints s) (hint_target h) of Some q \<Rightarrow> q | None \<Rightarrow> [])
             in (HintStored, s\<lparr>hs_hints := bt_insert (hint_target h) (queue @ [h]) (hs_hints s),
                   hs_metrics := (hs_metrics s)\<lparr>hints_stored_total := sat_add (hints_stored_total (hs_metrics s)) 1\<rparr>\<rparr>))"

definition drain_for :: "cluster_node_id \<Rightarrow> hint_store \<Rightarrow> hint list \<times> hint_store" where
  "drain_for target s =
     (case bt_get (hs_hints s) target of
        None \<Rightarrow> ([], s)
      | Some q \<Rightarrow> (q, s\<lparr>hs_hints := bt_remove target (hs_hints s)\<rparr>))"

section \<open>Replay\<close>

definition apply_hint :: "replicated_value_record option \<Rightarrow> hint \<Rightarrow> hint_replay_decision" where
  "apply_hint current h =
     (let candidate = hint_to_record h in
      case current of
        None \<Rightarrow> Replayed candidate
      | Some c \<Rightarrow>
          if rec_is_tombstone c \<and> (hint_version h, hint_epoch h) \<le> (rec_version c, rec_epoch c)
          then SuppressedByTombstone c
          else if rec_merge c candidate = candidate then Replayed candidate
          else SuppressedByNewerValue c)"

definition replay_hints :: "hint list \<Rightarrow> (string, replicated_value_record) btmap \<Rightarrow> hint_replay_decision list" where
  "replay_hints hints current_by_key = map (\<lambda>h. apply_hint (bt_get current_by_key (hint_key h)) h) hints"

section \<open>No write is lost silently\<close>

definition held_hints :: "hint_store \<Rightarrow> hint set" where
  "held_hints s = (\<Union>q \<in> set (bt_values (hs_hints s)). set q)"

lemma held_hints_get: "bt_ok (hs_hints s) \<Longrightarrow> held_hints s = (\<Union>q \<in> ran (bt_get (hs_hints s)). set q)"
  by (simp add: held_hints_def bt_values_def ran_distinct bt_ok_distinct)

datatype hint_op = HintStore hint bool u64 | HintDrain cluster_node_id

fun hint_step :: "hint_op \<Rightarrow> hint_store \<times> hint set \<Rightarrow> hint_store \<times> hint set" where
  "hint_step (HintStore h req now) (s, drained) = (snd (store_hint h req now s), drained)"
| "hint_step (HintDrain t) (s, drained) = (snd (drain_for t s), drained \<union> set (fst (drain_for t s)))"

fun offered :: "hint_op \<Rightarrow> hint option" where
  "offered (HintStore h False now) = Some h"
| "offered _ = None"

definition queues_ok :: "hint_store \<Rightarrow> bool" where
  "queues_ok s \<longleftrightarrow> bt_ok (hs_hints s) \<and> (\<forall>t q. bt_get (hs_hints s) t = Some q \<longrightarrow> (\<forall>h \<in> set q. hint_target h = t))"

lemma held_iff:
  "queues_ok s \<Longrightarrow> h \<in> held_hints s \<longleftrightarrow> (\<exists>q. bt_get (hs_hints s) (hint_target h) = Some q \<and> h \<in> set q)"
  by (auto simp: queues_ok_def held_hints_get ran_def)

lemma store_hint_cases:
  assumes "store_hint h req now s = (out, s')"
  obtains (refused) "req" "out = RequiredReplicaMiss" "s' = s"
  | (dropped) "\<not> req" "out \<noteq> HintStored" "hs_hints s' = hs_hints s" "hs_budget s' = hs_budget s"
      "hs_repair_marks s' = insert (hint_key h) (hs_repair_marks s)"
  | (stored) "\<not> req" "out = HintStored" "hs_budget s' = hs_budget s" "hs_repair_marks s' = hs_repair_marks s"
      "hs_hints s' = bt_insert (hint_target h)
        ((case bt_get (hs_hints s) (hint_target h) of Some q \<Rightarrow> q | None \<Rightarrow> []) @ [h]) (hs_hints s)"
      "usize_sat_add (hint_store_len s) 1 \<le> max_hints (hs_budget s)"
      "sat_add (hint_total_bytes s) (hint_approx_bytes h) \<le> max_hint_bytes (hs_budget s)"
  using assms
  by (auto simp: store_hint_def mark_for_repair_def count_dropped_def Let_def split: if_splits)

lemma queues_ok_store: "queues_ok s \<Longrightarrow> store_hint h req now s = (out, s') \<Longrightarrow> queues_ok s'"
  by (erule store_hint_cases) (auto simp: queues_ok_def split: option.splits if_splits)

lemma queues_ok_drain: "queues_ok s \<Longrightarrow> queues_ok (snd (drain_for t s))"
  by (auto simp: queues_ok_def drain_for_def split: option.splits)

definition accounted :: "hint \<Rightarrow> hint_store \<times> hint set \<Rightarrow> bool" where
  "accounted h = (\<lambda>(s, drained). h \<in> held_hints s \<or> h \<in> drained \<or> is_marked_for_repair (hint_key h) s)"

lemma accounted_step:
  assumes "queues_ok s" "accounted h (s, d) \<or> offered op = Some h"
  shows "accounted h (hint_step op (s, d))"
proof (cases op)
  case (HintStore h' req now)
  obtain out s' where st: "store_hint h' req now s = (out, s')" by force
  have ok: "queues_ok s'" by (rule queues_ok_store [OF assms(1) st])
  from st show ?thesis
  proof (cases rule: store_hint_cases)
    case refused
    then show ?thesis using assms HintStore st by auto
  next
    case dropped
    then have "held_hints s' = held_hints s" by (simp add: held_hints_def)
    with dropped assms HintStore st show ?thesis
      by (auto simp: accounted_def is_marked_for_repair_def split: bool.splits)
  next
    case stored
    then show ?thesis
      using assms HintStore st held_iff [OF ok, of h] held_iff [OF assms(1), of h]
      by (auto simp: accounted_def is_marked_for_repair_def split: option.splits bool.splits)
  qed
next
  case (HintDrain t)
  have "h \<in> held_hints (snd (drain_for t s)) \<or> h \<in> set (fst (drain_for t s))" if "h \<in> held_hints s"
    using that held_iff [OF assms(1), of h] held_iff [OF queues_ok_drain [OF assms(1), of t], of h]
    by (auto simp: drain_for_def split: option.splits)
  moreover have "hs_repair_marks (snd (drain_for t s)) = hs_repair_marks s"
    by (simp add: drain_for_def split: option.splits)
  ultimately show ?thesis using assms(2) HintDrain by (auto simp: accounted_def is_marked_for_repair_def)
qed

lemma queues_ok_step: "queues_ok s \<Longrightarrow> queues_ok (fst (hint_step op (s, d)))"
  by (cases op) (auto intro: queues_ok_store [OF _ prod.collapse [symmetric]] queues_ok_drain)

lemma hints_accounted:
  "queues_ok s \<Longrightarrow> accounted h (s, d) \<or> h \<in> set (List.map_filter offered ops) \<Longrightarrow> accounted h (fold hint_step ops (s, d))"
proof (induction ops arbitrary: s d)
  case (Cons op ops)
  obtain s1 d1 where s1: "hint_step op (s, d) = (s1, d1)" by force
  have ok: "queues_ok s1" using queues_ok_step [OF Cons.prems(1), of op d] by (simp add: s1)
  have "accounted h (s1, d1) \<or> h \<in> set (List.map_filter offered ops)"
    using Cons.prems(2) accounted_step [OF Cons.prems(1), of h d op] s1
    by (auto simp: map_filter_simps split: option.splits)
  with Cons.IH [OF ok, of d1] show ?case by (simp add: s1)
qed (simp add: map_filter_simps)

text \<open>
  C17. No missed write is lost silently. Over any history of hints offered to a new store and of drains, a hint
  that was offered for a replica the write did not depend on is afterwards still held, or was handed
  out by a drain, or its key is marked for repair.
\<close>
theorem missed_write_accounted:
  assumes "HintStore h False now \<in> set ops"
    and "fold hint_step ops (hint_store_new budget, {}) = (s, drained)"
  shows "h \<in> held_hints s \<or> h \<in> drained \<or> is_marked_for_repair (hint_key h) s"
proof -
  have "queues_ok (hint_store_new budget)" by (simp add: queues_ok_def hint_store_new_def)
  moreover have "h \<in> set (List.map_filter offered ops)"
    using assms(1) by (force simp: List.map_filter_def)
  ultimately show ?thesis
    using hints_accounted [of "hint_store_new budget" h "{}" ops] assms(2) by (simp add: accounted_def)
qed

section \<open>The budget\<close>

definition held_bytes :: "hint_store \<Rightarrow> nat" where
  "held_bytes s = bt_weight (\<lambda>q. sum_list (map (unat \<circ> hint_approx_bytes) q)) (hs_hints s)"

lemma hint_len_weight: "hint_store_len s = bt_weight length (hs_hints s)"
  by (simp add: hint_store_len_def bt_weight_def bt_values_def)

lemma hint_total_words: "hint_total_bytes s = of_nat (held_bytes s)"
proof -
  have "sum_list (map unat (map hint_approx_bytes (concat qs))) = sum_list (map (\<lambda>q. sum_list (map (unat \<circ> hint_approx_bytes) q)) qs)"
    for qs by (induction qs) (auto simp: comp_def)
  then show ?thesis
    by (simp add: hint_total_bytes_def sum_list_words held_bytes_def bt_weight_def bt_values_def comp_def)
qed

definition budget_ok :: "hint_store \<Rightarrow> bool" where
  "budget_ok s \<longleftrightarrow> bt_ok (hs_hints s) \<and> hint_store_len s \<le> max_hints (hs_budget s)
     \<and> held_bytes s \<le> unat (max_hint_bytes (hs_budget s))
     \<and> max_hints (hs_budget s) < usize_max \<and> max_hint_bytes (hs_budget s) < - 1"

lemma hint_total_exact: "budget_ok s \<Longrightarrow> unat (hint_total_bytes s) = held_bytes s"
  using unat_bound [of "max_hint_bytes (hs_budget s)"]
  by (simp add: budget_ok_def hint_total_words unat_of_nat)

lemma weight_enqueue:
  assumes "bt_ok m" "f [] = 0" "\<And>q. f (q @ [h]) = f q + f [h]"
  shows "bt_weight f (bt_insert t ((case bt_get m t of Some q \<Rightarrow> q | None \<Rightarrow> []) @ [h]) m) = bt_weight f m + (f [h] :: nat)"
  using bt_weight_insert [OF assms(1), of f t "(case bt_get m t of Some q \<Rightarrow> q | None \<Rightarrow> []) @ [h]"] assms(2)
  by (auto simp: assms(3) split: option.splits)

lemma budget_ok_store:
  assumes "budget_ok s" "store_hint h req now s = (out, s')"
  shows "budget_ok s' \<and> hs_budget s' = hs_budget s"
  using assms(2)
proof (cases rule: store_hint_cases)
  case stored
  have ok: "bt_ok (hs_hints s)" using assms(1) by (simp add: budget_ok_def)
  have len: "hint_store_len s' = hint_store_len s + 1"
    using weight_enqueue [OF ok, of length h "hint_target h"] stored(5) by (simp add: hint_len_weight)
  have bytes: "held_bytes s' = held_bytes s + unat (hint_approx_bytes h)"
    using weight_enqueue [OF ok, of "\<lambda>q. sum_list (map (unat \<circ> hint_approx_bytes) q)" h "hint_target h"] stored(5)
    by (simp add: held_bytes_def)
  have "held_bytes s + unat (hint_approx_bytes h) \<le> unat (max_hint_bytes (hs_budget s))"
    using stored(7) hint_total_exact [OF assms(1)] assms(1)
    by (auto simp: word_le_nat_alt word_less_nat_alt unat_sat_add budget_ok_def min_def split: if_splits)
  moreover have "hint_store_len s + 1 \<le> max_hints (hs_budget s)"
    using stored(6) assms(1) by (simp add: budget_ok_def usize_sat_add_def min_def split: if_splits)
  ultimately show ?thesis using assms(1) stored(3,5) len bytes by (simp add: budget_ok_def)
qed (use assms(1) in \<open>auto simp: budget_ok_def held_bytes_def hint_store_len_def\<close>)

lemma budget_ok_drain: "budget_ok s \<Longrightarrow> budget_ok (snd (drain_for t s)) \<and> hs_budget (snd (drain_for t s)) = hs_budget s"
  using bt_weight_remove [of "hs_hints s" length t]
    bt_weight_remove [of "hs_hints s" "\<lambda>q. sum_list (map (unat \<circ> hint_approx_bytes) q)" t]
  by (auto simp: budget_ok_def drain_for_def hint_len_weight held_bytes_def split: option.splits)

lemma budget_ok_run:
  "budget_ok s \<Longrightarrow> budget_ok (fst (fold hint_step ops (s, d))) \<and> hs_budget (fst (fold hint_step ops (s, d))) = hs_budget s"
proof (induction ops arbitrary: s d)
  case (Cons op ops)
  have "budget_ok (fst (hint_step op (s, d))) \<and> hs_budget (fst (hint_step op (s, d))) = hs_budget s"
    using budget_ok_store [OF Cons.prems prod.collapse [symmetric]] budget_ok_drain [OF Cons.prems]
    by (cases op) auto
  with Cons.IH [of "fst (hint_step op (s, d))" "snd (hint_step op (s, d))"] show ?case by simp
qed simp

text \<open>
  C34. The hint store keeps its budget. Over any history the number of hints held and the true sum of their
  sizes stay within the limits, and the 64-bit size that the store reports is that sum, for limits below
  the largest machine numbers.
\<close>
theorem hint_budget_kept:
  assumes "n < usize_max" "b < - 1"
    and "fold hint_step ops (hint_store_new (hint_budget_new n b age), {}) = (s, drained)"
  shows "hint_store_len s \<le> max n 1 \<and> held_bytes s \<le> unat (max b 1)
    \<and> unat (hint_store_bytes (hint_store_metrics s)) = held_bytes s"
proof -
  have "budget_ok (hint_store_new (hint_budget_new n b age))"
    using assms(1,2)
    by (auto simp: budget_ok_def hint_store_new_def hint_budget_new_def hint_len_weight held_bytes_def
        bt_empty_def usize_max_def max_def word_less_nat_alt)
  from budget_ok_run [OF this, of ops "{}"] assms(3) have "budget_ok s"
    "hs_budget s = hint_budget_new n b age" by (simp_all add: hint_store_new_def)
  then show ?thesis
    using hint_total_exact by (auto simp: budget_ok_def hint_store_metrics_def hint_budget_new_def)
qed

section \<open>Replay\<close>

text \<open>
  Replaying a hint neither regresses nor revives. The decision is to suppress the hint exactly when
  the target already has a record that ranks above it (a newer one, or a tombstone at the same version and
  epoch); otherwise the record to apply is the hinted write.
\<close>
lemma hint_replay_safe:
  "case apply_hint current h of
     Replayed r \<Rightarrow> r = hint_to_record h \<and> (\<forall>c. current = Some c \<longrightarrow> \<not> rec_rank r < rec_rank c)
   | SuppressedByNewerValue c \<Rightarrow> current = Some c \<and> rec_rank (hint_to_record h) < rec_rank c
   | SuppressedByTombstone c \<Rightarrow> current = Some c \<and> rec_is_tombstone c \<and> rec_rank (hint_to_record h) < rec_rank c"
proof (cases current)
  case (Some c)
  have st: "rec_stamp (hint_to_record h) = (hint_version h, hint_epoch h)" "\<not> rec_is_tombstone (hint_to_record h)"
    by (simp_all add: hint_to_record_def record_value_def rec_stamp_def rec_is_tombstone_def slot_is_tombstone_def)
  show ?thesis
  proof (cases "rec_is_tombstone c \<and> (hint_version h, hint_epoch h) \<le> (rec_version c, rec_epoch c)")
    case True
    then have "apply_hint current h = SuppressedByTombstone c" by (simp add: apply_hint_def Some)
    with True st show ?thesis by (auto simp: Some rec_rank_def rec_stamp_def)
  next
    case False
    then have ap: "apply_hint current h = (if rec_merge c (hint_to_record h) = hint_to_record h
        then Replayed (hint_to_record h) else SuppressedByNewerValue c)"
      by (auto simp: apply_hint_def Some Let_def)
    have "rec_merge c (hint_to_record h) = hint_to_record h \<longleftrightarrow> \<not> rec_rank (hint_to_record h) < rec_rank c"
    proof
      assume "rec_merge c (hint_to_record h) = hint_to_record h"
      then show "\<not> rec_rank (hint_to_record h) < rec_rank c"
        using rec_rank_merge_ge(1) [of c "hint_to_record h"] by simp
    next
      assume "\<not> rec_rank (hint_to_record h) < rec_rank c"
      with False st show "rec_merge c (hint_to_record h) = hint_to_record h"
        by (auto simp: rec_rank_def rec_merge_def rec_stamp_def)
    qed
    then show ?thesis unfolding ap using Some by auto
  qed
qed (simp add: apply_hint_def)

definition sample_hint :: "u64 \<Rightarrow> hint" where
  "sample_hint v = \<lparr>hint_target = ''n'', hint_key = ''k'', hint_partition = 0, hint_version = v, hint_epoch = 1,
     hint_sealed = [1], hint_created_at_millis = 10\<rparr>"

lemmas hint_eval = sample_hint_def store_hint_def hint_is_expired_def hint_store_new_def hint_budget_new_def
  usize_sat_add_def usize_max_def hint_store_len_def hint_total_bytes_def hint_approx_bytes_def
  mark_for_repair_def count_dropped_def bt_values_def bt_empty_def sat_sub_def sat_add_def drain_for_def Let_def

theorem missed_write_accounted_witness:
  "is_marked_for_repair ''k'' (fst (fold hint_step [HintStore (sample_hint 1) False 10, HintStore (sample_hint 2) False 11,
     HintDrain ''n''] (hint_store_new (hint_budget_new 1 100 0), {})))"
proof -
  define ops where "ops = [HintStore (sample_hint 1) False 10, HintStore (sample_hint 2) False 11, HintDrain ''n'']"
  obtain s d where run: "fold hint_step ops (hint_store_new (hint_budget_new 1 100 0), {}) = (s, d)" by force
  then have "d = {sample_hint 1}" "held_hints s = {}"
    by (auto simp: ops_def hint_eval held_hints_def bt_remove_def)
  with missed_write_accounted [of "sample_hint 2" 11, OF _ run] show ?thesis
    using run by (auto simp: ops_def sample_hint_def)
qed

theorem hint_budget_kept_witness:
  "hint_store_len (fst (fold hint_step [HintStore (sample_hint 1) False 10, HintStore (sample_hint 2) False 11]
     (hint_store_new (hint_budget_new 1 100 0), {}))) \<le> 1"
  using hint_budget_kept [where n = 1 and b = 100 and age = 0 and
      ops = "[HintStore (sample_hint 1) False 10, HintStore (sample_hint 2) False 11]", OF _ _ prod.collapse [symmetric]]
  by (simp add: usize_max_def)

lemma hint_replay_safe_witness:
  "apply_hint (Some (record_tombstone 0 2 1 None)) (sample_hint 2) = SuppressedByTombstone (record_tombstone 0 2 1 None)
   \<and> rec_rank (hint_to_record (sample_hint 2)) < rec_rank (record_tombstone 0 2 1 None)"
proof -
  have "apply_hint (Some (record_tombstone 0 2 1 None)) (sample_hint 2) = SuppressedByTombstone (record_tombstone 0 2 1 None)"
    by code_simp
  with hint_replay_safe [where current = "Some (record_tombstone 0 2 1 None)" and h = "sample_hint 2"] show ?thesis by simp
qed

end
