(* ===== verification/Invalidation_Ring.thy ===== *)
theory Invalidation_Ring
  imports Local_Cache Ownership
begin

text \<open>
  The replayable invalidation ring of a partition (\<open>grid/invalidation_ring.rs\<close>): invalidations get sequence
  numbers, the newest ones are retained, and a subscriber that comes back gets exactly what it missed
  or is told to clear the partition.
\<close>

section \<open>The ring\<close>

record invalidation_event =
  ev_sequence :: u64
  ev_partition :: partition_id
  ev_invalidation :: cache_invalidation
  ev_source_generation :: "cluster_generation option"

datatype replay_result =
    ReplayRange "invalidation_event list"
  | FellBehind partition_id

record ring_metrics =
  invalidation_ring_depth :: u64
  invalidation_replayed_total :: u64
  invalidation_fell_behind_total :: u64
  invalidation_ring_overrun_total :: u64

definition ring_metrics_default :: ring_metrics where
  "ring_metrics_default = \<lparr>invalidation_ring_depth = 0, invalidation_replayed_total = 0,
     invalidation_fell_behind_total = 0, invalidation_ring_overrun_total = 0\<rparr>"

record invalidation_ring =
  ring_partition :: partition_id
  ring_capacity :: usize
  ring_head_seq :: u64
  ring_next_seq :: u64
  ring_events :: "invalidation_event list"
  ring_counters :: ring_metrics

definition ring_new :: "partition_id \<Rightarrow> usize \<Rightarrow> invalidation_ring" where
  "ring_new p capacity = \<lparr>ring_partition = p, ring_capacity = max capacity 1, ring_head_seq = 0, ring_next_seq = 0,
     ring_events = [], ring_counters = ring_metrics_default\<rparr>"

definition ring_metrics_of :: "invalidation_ring \<Rightarrow> ring_metrics" where
  "ring_metrics_of r = (ring_counters r)\<lparr>invalidation_ring_depth := of_nat (length (ring_events r))\<rparr>"

definition publish_with_generation :: "cache_invalidation \<Rightarrow> cluster_generation option \<Rightarrow> invalidation_ring
    \<Rightarrow> u64 \<times> invalidation_ring" where
  "publish_with_generation what generation r =
     (let sequence = ring_next_seq r;
          r = r\<lparr>ring_next_seq := sat_add (ring_next_seq r) 1\<rparr>;
          r = (if length (ring_events r) = ring_capacity r
               then r\<lparr>ring_events := tl (ring_events r),
                      ring_counters := (ring_counters r)\<lparr>invalidation_ring_overrun_total :=
                        sat_add (invalidation_ring_overrun_total (ring_counters r)) 1\<rparr>\<rparr>
               else r);
          r = r\<lparr>ring_events := ring_events r @ [\<lparr>ev_sequence = sequence, ev_partition = ring_partition r,
                  ev_invalidation = what, ev_source_generation = generation\<rparr>]\<rparr>;
          r = r\<lparr>ring_head_seq := (case ring_events r of e # _ \<Rightarrow> ev_sequence e | [] \<Rightarrow> ring_next_seq r)\<rparr>
      in (sequence, r))"

definition ring_publish :: "cache_invalidation \<Rightarrow> invalidation_ring \<Rightarrow> u64 \<times> invalidation_ring" where
  "ring_publish what r = publish_with_generation what None r"

definition replay_from :: "u64 \<Rightarrow> invalidation_ring \<Rightarrow> replay_result \<times> invalidation_ring" where
  "replay_from last_seen r =
     (if ring_events r = [] then (ReplayRange [], r)
      else if sat_add last_seen 1 < ring_head_seq r
      then (FellBehind (ring_partition r),
            r\<lparr>ring_counters := (ring_counters r)\<lparr>invalidation_fell_behind_total :=
              sat_add (invalidation_fell_behind_total (ring_counters r)) 1\<rparr>\<rparr>)
      else
        let range = filter (\<lambda>e. last_seen < ev_sequence e) (ring_events r)
        in (ReplayRange range,
            r\<lparr>ring_counters := (ring_counters r)\<lparr>invalidation_replayed_total :=
              sat_add (invalidation_replayed_total (ring_counters r)) (of_nat (length range))\<rparr>\<rparr>))"

record ring_snapshot =
  snap_partition :: partition_id
  snap_capacity :: usize
  snap_head_seq :: u64
  snap_next_seq :: u64
  snap_events :: "invalidation_event list"

definition ring_snapshot_of :: "invalidation_ring \<Rightarrow> ring_snapshot" where
  "ring_snapshot_of r = \<lparr>snap_partition = ring_partition r, snap_capacity = ring_capacity r,
     snap_head_seq = ring_head_seq r, snap_next_seq = ring_next_seq r, snap_events = ring_events r\<rparr>"

definition ring_restore :: "ring_snapshot \<Rightarrow> invalidation_ring" where
  "ring_restore s = \<lparr>ring_partition = snap_partition s, ring_capacity = max (snap_capacity s) 1,
     ring_head_seq = snap_head_seq s, ring_next_seq = snap_next_seq s, ring_events = snap_events s,
     ring_counters = ring_metrics_default\<rparr>"

section \<open>What the ring holds\<close>

type_synonym publication = "cache_invalidation \<times> cluster_generation option"

text \<open>Everything published so far, numbered from 0.\<close>

definition published :: "partition_id \<Rightarrow> publication list \<Rightarrow> invalidation_event list" where
  "published p xs = map (\<lambda>(i, what, g). \<lparr>ev_sequence = of_nat i, ev_partition = p, ev_invalidation = what,
     ev_source_generation = g\<rparr>) (enumerate 0 xs)"

definition publish_all :: "publication list \<Rightarrow> invalidation_ring \<Rightarrow> invalidation_ring" where
  "publish_all xs r = fold (\<lambda>(what, g) r. snd (publish_with_generation what g r)) xs r"

definition holds_published :: "publication list \<Rightarrow> invalidation_ring \<Rightarrow> bool" where
  "holds_published xs r \<longleftrightarrow> 0 < ring_capacity r \<and> ring_next_seq r = of_nat (length xs)
     \<and> ring_events r = drop (length xs - ring_capacity r) (published (ring_partition r) xs)
     \<and> (xs \<noteq> [] \<longrightarrow> ring_head_seq r = of_nat (length xs - ring_capacity r))"

lemma of_nat_u64_inject: "a < 2 ^ 64 \<Longrightarrow> b < 2 ^ 64 \<Longrightarrow> (of_nat a :: u64) = of_nat b \<longleftrightarrow> a = b"
  by (auto dest!: arg_cong [where f = unat] simp: unat_of_nat)

lemma length_published [simp]: "length (published p xs) = length xs"
  by (simp add: published_def)

lemma nth_published: "i < length xs \<Longrightarrow> ev_sequence (published p xs ! i) = of_nat i"
  by (simp add: published_def nth_enumerate_eq split: prod.splits)

lemma published_snoc:
  "published p (xs @ [(what, g)]) = published p xs @ [\<lparr>ev_sequence = of_nat (length xs), ev_partition = p,
     ev_invalidation = what, ev_source_generation = g\<rparr>]"
  by (simp add: published_def enumerate_append_eq)

lemma hd_drop_published:
  assumes "k < length xs"
  shows "(case drop k (published p xs) of e # _ \<Rightarrow> ev_sequence e | [] \<Rightarrow> z) = of_nat k"
  using assms nth_published [OF assms, of p] by (simp flip: Cons_nth_drop_Suc)

lemma publish_holds:
  assumes "holds_published xs r" "Suc (length xs) < 2 ^ 64"
  shows "holds_published (xs @ [(what, g)]) (snd (publish_with_generation what g r))"
proof -
  let ?n = "length xs" and ?c = "ring_capacity r" and ?P = "published (ring_partition r)"
  have "(of_nat ?n :: u64) \<le> of_nat ?n + 1" unfolding le_add_iff using assms(2) by (simp add: unat_of_nat)
  then have seq: "sat_add (of_nat ?n :: u64) 1 = 1 + of_nat ?n"
    unfolding sat_add_def by (simp only: if_True add.commute)
  have len: "length (ring_events r) = min ?n ?c" using assms(1) by (auto simp: holds_published_def)
  have evs: "(if length (ring_events r) = ?c then tl (ring_events r) else ring_events r) =
      drop (Suc ?n - ?c) (?P xs)"
    using assms(1) len by (auto simp: holds_published_def min_def tl_drop Suc_diff_le simp flip: drop_Suc split: if_splits)
  have "Suc ?n - ?c \<le> ?n" using assms(1) unfolding holds_published_def by linarith
  then have all: "drop (Suc ?n - ?c) (?P xs) @ [\<lparr>ev_sequence = of_nat ?n, ev_partition = ring_partition r,
      ev_invalidation = what, ev_source_generation = g\<rparr>] = drop (Suc ?n - ?c) (?P (xs @ [(what, g)]))"
    by (simp add: published_snoc)
  have "ring_next_seq r = of_nat ?n" "0 < ?c" using assms(1) by (simp_all add: holds_published_def)
  then show ?thesis
    using evs all hd_drop_published [where k = "Suc ?n - ?c" and xs = "xs @ [(what, g)]" and p = "ring_partition r"]
    by (auto simp: holds_published_def publish_with_generation_def Let_def seq split: if_splits)
qed

lemma publish_all_holds:
  "holds_published xs r \<Longrightarrow> length xs + length ys < 2 ^ 64 \<Longrightarrow> holds_published (xs @ ys) (publish_all ys r)"
proof (induction ys arbitrary: xs r)
  case (Cons y ys)
  obtain what g where y: "y = (what, g)" by force
  have "holds_published (xs @ [y]) (snd (publish_with_generation what g r))"
    using publish_holds [of xs r what g] Cons.prems by (simp add: y)
  from Cons.IH [OF this] Cons.prems(2) show ?case by (simp add: y publish_all_def)
qed (simp add: publish_all_def)

lemma publish_all_keeps: "ring_partition (publish_all ys r) = ring_partition r \<and> ring_capacity (publish_all ys r) = ring_capacity r"
proof (induction ys arbitrary: r)
  case (Cons y ys)
  then show ?case by (cases y) (simp add: publish_all_def publish_with_generation_def Let_def)
qed (simp add: publish_all_def)

lemma holds_restore: "holds_published xs r \<Longrightarrow> holds_published xs (ring_restore (ring_snapshot_of r))"
  by (auto simp: holds_published_def ring_restore_def ring_snapshot_of_def max_def le_Suc_eq)

lemma sequence_after:
  assumes "length xs < 2 ^ 64" "i < length xs"
  shows "last_seen < ev_sequence (published p xs ! i) \<longleftrightarrow> unat last_seen < i"
  using assms by (simp add: nth_published word_less_nat_alt unat_of_nat)

lemma filter_drop_all:
  assumes "\<And>i. i < k \<Longrightarrow> i < length xs \<Longrightarrow> \<not> P (xs ! i)"
  shows "filter P (drop k xs) = filter P xs"
proof -
  have "filter P (take k xs) = []" using assms by (auto simp: filter_empty_conv in_set_conv_nth)
  then show ?thesis by (metis append_Nil append_take_drop_id filter_append)
qed

lemma replay_spec:
  assumes "holds_published xs r" "length xs < 2 ^ 64 - 1"
  shows "fst (replay_from last_seen r) =
    (if Suc (unat last_seen) < length xs - ring_capacity r then FellBehind (ring_partition r)
     else ReplayRange (filter (\<lambda>e. last_seen < ev_sequence e) (published (ring_partition r) xs)))"
proof (cases "xs = []")
  case True
  with assms show ?thesis by (simp add: replay_from_def holds_published_def published_def)
next
  case False
  let ?k = "length xs - ring_capacity r"
  have pos: "0 < ring_capacity r" and head: "ring_head_seq r = of_nat ?k"
    and evs: "ring_events r = drop ?k (published (ring_partition r) xs)"
    using assms(1) False by (simp_all add: holds_published_def)
  have ne: "ring_events r \<noteq> []" using False pos by (cases "length xs") (auto simp: evs)
  have behind: "sat_add last_seen 1 < ring_head_seq r \<longleftrightarrow> Suc (unat last_seen) < ?k"
    using assms(2) unat_bound [of last_seen] by (auto simp: head word_less_nat_alt unat_sat_add unat_of_nat min_def)
  have "filter (\<lambda>e. last_seen < ev_sequence e) (ring_events r) =
      filter (\<lambda>e. last_seen < ev_sequence e) (published (ring_partition r) xs)" if "\<not> Suc (unat last_seen) < ?k"
    unfolding evs using that assms(2) sequence_after [of xs _ last_seen "ring_partition r"]
    by (intro filter_drop_all) auto
  then show ?thesis using ne behind by (simp add: replay_from_def Let_def)
qed

text \<open>
  C20. The ring replays exactly what was missed. Publish any invalidations, restart the ring from its snapshot, publish more, and let a
  subscriber ask for what came after some sequence number. It gets precisely the invalidations published after
  that number, in order, across the restart, as long as all of them are retained; when one of them was
  overwritten it is told to clear the partition instead.
\<close>
theorem ring_replay_exact:
  assumes "length xs + length ys < 2 ^ 64 - 1"
    and "r = publish_all ys (ring_restore (ring_snapshot_of (publish_all xs (ring_new p capacity))))"
  shows "fst (replay_from last_seen r) =
    (if list_all (\<lambda>e. last_seen < ev_sequence e \<longrightarrow> e \<in> set (ring_events r)) (published p (xs @ ys))
     then ReplayRange (filter (\<lambda>e. last_seen < ev_sequence e) (published p (xs @ ys)))
     else FellBehind p)
    \<and> length (ring_events r) = min (length xs + length ys) (max capacity 1)"
proof -
  let ?zs = "xs @ ys" and ?r1 = "publish_all xs (ring_new p capacity)"
  have "holds_published [] (ring_new p capacity)" by (simp add: holds_published_def ring_new_def published_def)
  then have "holds_published xs ?r1" using publish_all_holds [of "[]" _ xs] assms(1) by simp
  then have "holds_published ?zs r"
    unfolding assms(2) using assms(1) by (intro publish_all_holds holds_restore) auto
  moreover have cap: "ring_partition r = p" "ring_capacity r = max capacity 1"
    using publish_all_keeps [of ys "ring_restore (ring_snapshot_of ?r1)"] publish_all_keeps [of xs "ring_new p capacity"]
    by (simp_all add: assms(2) ring_restore_def ring_snapshot_of_def ring_new_def)
  moreover define k where "k = length ?zs - ring_capacity r"
  ultimately have evs: "ring_events r = drop k (published p ?zs)" and ok: "holds_published ?zs r"
    by (simp_all add: holds_published_def)
  have small: "length ?zs < 2 ^ 64" using assms(1) by simp
  have mem: "published p ?zs ! i \<in> set (drop k (published p ?zs)) \<longleftrightarrow> k \<le> i" if "i < length ?zs" for i
  proof
    assume "published p ?zs ! i \<in> set (drop k (published p ?zs))"
    then obtain j where j: "j + k < length ?zs" "published p ?zs ! i = published p ?zs ! (k + j)"
      by (auto simp: in_set_conv_nth) (metis add.commute less_diff_conv)
    then have "(of_nat i :: u64) = of_nat (k + j)"
      using arg_cong [OF j(2), of ev_sequence] that nth_published [of i ?zs p] nth_published [of "k + j" ?zs p] j(1)
      by (simp del: of_nat_add add: add.commute)
    then have "i = k + j"
      using that j(1) small of_nat_u64_inject [of i "k + j"] by (simp del: of_nat_add)
    then show "k \<le> i" by simp
  qed (use that in \<open>auto simp: in_set_conv_nth intro!: exI [of _ "i - k"]\<close>)
  have "list_all (\<lambda>e. last_seen < ev_sequence e \<longrightarrow> e \<in> set (ring_events r)) (published p ?zs)
      \<longleftrightarrow> \<not> Suc (unat last_seen) < k"
  proof -
    have "list_all (\<lambda>e. last_seen < ev_sequence e \<longrightarrow> e \<in> set (ring_events r)) (published p ?zs)
        \<longleftrightarrow> (\<forall>i < length ?zs. unat last_seen < i \<longrightarrow> k \<le> i)"
      using mem small by (auto simp: list_all_length evs sequence_after)
    moreover have "k \<le> length ?zs" by (simp add: k_def)
    ultimately show ?thesis by (auto simp: not_less dest: spec [of _ "Suc (unat last_seen)"])
  qed
  then show ?thesis
    using replay_spec [OF ok, of last_seen] assms(1) cap by (auto simp: k_def evs)
qed

theorem ring_replay_exact_witness:
  "let r = publish_all [(InvalidateTag ''t'', None)] (ring_restore (ring_snapshot_of
         (publish_all [(InvalidateKey ''a'', None), (InvalidateKey ''b'', Some 2)] (ring_new 7 2)))) in
   fst (replay_from 1 r) = ReplayRange [\<lparr>ev_sequence = 2, ev_partition = 7, ev_invalidation = InvalidateTag ''t'',
      ev_source_generation = None\<rparr>]"
  using ring_replay_exact [where xs = "[(InvalidateKey ''a'', None), (InvalidateKey ''b'', Some 2)]"
      and ys = "[(InvalidateTag ''t'', None)]" and p = 7 and capacity = 2 and last_seen = 1, OF _ refl]
  by (simp add: published_def publish_all_def publish_with_generation_def ring_new_def ring_restore_def
      ring_snapshot_of_def sat_add_def Let_def)

end
