(* ===== verification/Hybrid_Clock.thy ===== *)
theory Hybrid_Clock
  imports Value_Store_Props
begin

text \<open>
  The hybrid logical clock of \<open>grid/active_active.rs\<close>: a timestamp of a wall component and a logical
  counter, ordered lexicographically, advanced by local events and by the timestamps of remote ones.
\<close>

datatype hybrid_logical_clock = HybridLogicalClock (hlc_wall: u64) (hlc_logical: u32)

instantiation hybrid_logical_clock :: linorder
begin

definition less_eq_hybrid_logical_clock :: "hybrid_logical_clock \<Rightarrow> hybrid_logical_clock \<Rightarrow> bool" where
  "less_eq_hybrid_logical_clock a b \<longleftrightarrow> (hlc_wall a, hlc_logical a) \<le> (hlc_wall b, hlc_logical b)"

definition less_hybrid_logical_clock :: "hybrid_logical_clock \<Rightarrow> hybrid_logical_clock \<Rightarrow> bool" where
  "less_hybrid_logical_clock a b \<longleftrightarrow> (hlc_wall a, hlc_logical a) < (hlc_wall b, hlc_logical b)"

instance
proof
  fix a b c :: hybrid_logical_clock
  show "a < b \<longleftrightarrow> a \<le> b \<and> \<not> b \<le> a"
    unfolding less_eq_hybrid_logical_clock_def less_hybrid_logical_clock_def by (rule less_le_not_le)
  show "a \<le> a" unfolding less_eq_hybrid_logical_clock_def by (rule order_refl)
  show "a \<le> b \<Longrightarrow> b \<le> c \<Longrightarrow> a \<le> c"
    unfolding less_eq_hybrid_logical_clock_def by (rule order_trans)
  show "a \<le> b \<Longrightarrow> b \<le> a \<Longrightarrow> a = b"
    unfolding less_eq_hybrid_logical_clock_def by (drule (1) order_antisym) (simp add: hybrid_logical_clock.expand)
  show "a \<le> b \<or> b \<le> a"
    unfolding less_eq_hybrid_logical_clock_def by (rule linear)
qed

end

lemma hlc_less_iff:
  "HybridLogicalClock w l < HybridLogicalClock w' l' \<longleftrightarrow> w < w' \<or> w = w' \<and> l < l'"
  by (auto simp: less_hybrid_logical_clock_def less_prod_simp)

lemma hlc_le_iff:
  "HybridLogicalClock w l \<le> HybridLogicalClock w' l' \<longleftrightarrow> w < w' \<or> w = w' \<and> l \<le> l'"
  by (auto simp: less_eq_hybrid_logical_clock_def less_eq_prod_simp)

definition tick :: "u64 \<Rightarrow> hybrid_logical_clock \<Rightarrow> hybrid_logical_clock" where
  "tick observed_wall self =
     (if hlc_wall self < observed_wall then HybridLogicalClock observed_wall 0
      else HybridLogicalClock (hlc_wall self) (sat_add (hlc_logical self) 1))"

definition observe :: "hybrid_logical_clock \<Rightarrow> u64 \<Rightarrow> hybrid_logical_clock \<Rightarrow> hybrid_logical_clock" where
  "observe remote observed_wall self =
     (let max_wall = max (max (hlc_wall self) (hlc_wall remote)) observed_wall;
          logical = (if max_wall = hlc_wall self \<and> max_wall = hlc_wall remote
                     then sat_add (max (hlc_logical self) (hlc_logical remote)) 1
                     else if max_wall = hlc_wall self then sat_add (hlc_logical self) 1
                     else if max_wall = hlc_wall remote then sat_add (hlc_logical remote) 1
                     else 0)
      in HybridLogicalClock max_wall logical)"

lemma tick_ge: "self \<le> tick w self"
  by (cases self) (simp add: tick_def hlc_le_iff)

lemma tick_gt: "hlc_logical self \<noteq> - 1 \<Longrightarrow> self < tick w self"
  by (cases self) (auto simp: tick_def hlc_less_iff sat_add_one_gt)

lemma observe_ge: "self \<le> observe remote w self" "remote \<le> observe remote w self"
proof -
  have "a \<le> sat_add (max a b) 1" "b \<le> sat_add (max a b) 1" for a b :: u32
    by (meson max.cobounded1 max.cobounded2 order_trans sat_add_ge)+
  then show "self \<le> observe remote w self" "remote \<le> observe remote w self"
    by (cases self; cases remote; auto simp: observe_def hlc_le_iff Let_def max_def)+
qed

lemma observe_gt:
  assumes "hlc_logical self \<noteq> - 1" "hlc_logical remote \<noteq> - 1"
  shows "self < observe remote w self \<and> remote < observe remote w self"
proof -
  have "a < sat_add (max a b) 1 \<and> b < sat_add (max a b) 1" if "a \<noteq> - 1" "b \<noteq> - 1" for a b :: u32
    using that sat_add_one_gt [of "max a b"] by (auto simp: max_def split: if_splits)
  then show ?thesis
    using assms by (cases self; cases remote) (auto simp: observe_def hlc_less_iff Let_def max_def sat_add_one_gt)
qed

section \<open>Runs of the clock\<close>

datatype clock_event = LocalEvent u64 | RemoteEvent hybrid_logical_clock u64

fun clock_step :: "clock_event \<Rightarrow> hybrid_logical_clock \<Rightarrow> hybrid_logical_clock" where
  "clock_step (LocalEvent w) c = tick w c"
| "clock_step (RemoteEvent remote w) c = observe remote w c"

fun clock_trace :: "hybrid_logical_clock \<Rightarrow> clock_event list \<Rightarrow> hybrid_logical_clock list" where
  "clock_trace c [] = []"
| "clock_trace c (e # es) = clock_step e c # clock_trace (clock_step e c) es"

lemma clock_step_ge: "c \<le> clock_step e c"
  by (cases e) (simp_all add: tick_ge observe_ge)

lemma clock_step_logical:
  assumes "unat (hlc_logical c) \<le> n" "\<And>r w. e = RemoteEvent r w \<Longrightarrow> unat (hlc_logical r) \<le> n"
  shows "unat (hlc_logical (clock_step e c)) \<le> Suc n"
  using assms by (cases e) (auto simp: tick_def observe_def Let_def unat_sat_add max_def word_le_nat_alt)

lemma clock_trace_ge: "t \<in> set (clock_trace c es) \<Longrightarrow> c \<le> t"
  by (induction es arbitrary: c) (auto intro: clock_step_ge order_trans [OF clock_step_ge])

lemma clock_step_gt:
  assumes "hlc_logical c \<noteq> - 1" "\<And>r w. e = RemoteEvent r w \<Longrightarrow> hlc_logical r \<noteq> - 1"
  shows "c < clock_step e c" "e = RemoteEvent r w \<Longrightarrow> r < clock_step e c"
  using assms by (cases e; simp add: tick_gt observe_gt)+

lemma clock_trace_gt:
  assumes "unat (hlc_logical c) \<le> n" "n + length es < 2 ^ 32"
    "\<And>r w. RemoteEvent r w \<in> set es \<Longrightarrow> unat (hlc_logical r) \<le> n"
  shows "sorted_wrt (<) (c # clock_trace c es) \<and> (\<forall>i < length es. \<forall>r w. es ! i = RemoteEvent r w \<longrightarrow> r < clock_trace c es ! i)"
  using assms
proof (induction es arbitrary: c n)
  case (Cons e es)
  have ne: "l \<noteq> - 1" if "unat l \<le> n" for l :: u32
  proof
    assume "l = - 1"
    with that Cons.prems(2) show False by simp
  qed
  have gt: "c < clock_step e c" "\<And>r w. e = RemoteEvent r w \<Longrightarrow> r < clock_step e c"
  proof -
    have a: "hlc_logical c \<noteq> - 1" "\<And>r w. e = RemoteEvent r w \<Longrightarrow> hlc_logical r \<noteq> - 1"
      using Cons.prems(1,3) ne by auto
    show "c < clock_step e c" "\<And>r w. e = RemoteEvent r w \<Longrightarrow> r < clock_step e c"
      by (rule clock_step_gt [OF a]; assumption)+
  qed
  have IH: "sorted_wrt (<) (clock_step e c # clock_trace (clock_step e c) es)"
    "\<forall>i < length es. \<forall>r w. es ! i = RemoteEvent r w \<longrightarrow> r < clock_trace (clock_step e c) es ! i"
  proof -
    have "unat (hlc_logical (clock_step e c)) \<le> Suc n"
      using Cons.prems(1,3) by (intro clock_step_logical) auto
    moreover have "Suc n + length es < 2 ^ 32" using Cons.prems(2) by simp
    moreover have "\<And>r w. RemoteEvent r w \<in> set es \<Longrightarrow> unat (hlc_logical r) \<le> Suc n"
      using Cons.prems(3) by (meson le_SucI list.set_intros(2))
    ultimately show "sorted_wrt (<) (clock_step e c # clock_trace (clock_step e c) es)"
      "\<forall>i < length es. \<forall>r w. es ! i = RemoteEvent r w \<longrightarrow> r < clock_trace (clock_step e c) es ! i"
      using Cons.IH [of "clock_step e c" "Suc n"] by blast+
  qed
  have "\<forall>t \<in> set (clock_trace c (e # es)). c < t"
    using gt(1) clock_trace_ge by (auto intro: less_le_trans)
  moreover have "r < clock_trace c (e # es) ! i" if "i < length (e # es)" "(e # es) ! i = RemoteEvent r w" for i r w
    using that gt(2) IH(2) by (cases i) simp_all
  ultimately show ?case using IH(1) by simp
qed simp

text \<open>
  Timestamps of one node never repeat and follow causality. Over any run of local and remote
  events whose logical counters stay below the 32-bit bound, each timestamp is later than all those before it, whatever the
  wall clock does (it may stand still or go backwards), and later than the remote timestamp that caused it.
\<close>
lemma clock_run_monotone:
  assumes "unat (hlc_logical c) \<le> n" "n + length es < 2 ^ 32"
    and "\<And>r w. RemoteEvent r w \<in> set es \<Longrightarrow> unat (hlc_logical r) \<le> n"
  shows "sorted_wrt (<) (c # clock_trace c es)
    \<and> (\<forall>i < length es. \<forall>r w. es ! i = RemoteEvent r w \<longrightarrow> r < clock_trace c es ! i)"
  using assms by (rule clock_trace_gt)

theorem clock_run_monotone_witness:
  "let c = HybridLogicalClock 7 0; es = [LocalEvent 5, RemoteEvent (HybridLogicalClock 9 4) 9, LocalEvent 3] in
   clock_trace c es = [HybridLogicalClock 7 1, HybridLogicalClock 9 5, HybridLogicalClock 9 6]
   \<and> sorted_wrt (<) (c # clock_trace c es) \<and> HybridLogicalClock 9 4 < clock_trace c es ! 1"
proof -
  let ?c = "HybridLogicalClock 7 0" and ?es = "[LocalEvent 5, RemoteEvent (HybridLogicalClock 9 4) 9, LocalEvent 3]"
  have "sorted_wrt (<) (?c # clock_trace ?c ?es)
    \<and> (\<forall>i < length ?es. \<forall>r w. ?es ! i = RemoteEvent r w \<longrightarrow> r < clock_trace ?c ?es ! i)"
    by (rule clock_run_monotone [of _ 4]) auto
  moreover have "clock_trace ?c ?es = [HybridLogicalClock 7 1, HybridLogicalClock 9 5, HybridLogicalClock 9 6]"
    by code_simp
  ultimately show ?thesis by (auto simp: Let_def)
qed

end
