(* ===== verification/Crdt.thy ===== *)
theory Crdt
  imports Hybrid_Clock
begin

text \<open>
  Conflict-free values (\<open>grid/crdt.rs\<close>): the counters, the observed-remove set and the last-writer register, their merges, and the
  locale \<open>convergent\<close> of the laws a merge must have, with its consequence that replicas that have merged the same
  states, in any order and any number of times, are equal. The locale is interpreted on every merge
  of the source.
\<close>

section \<open>Counters\<close>

type_synonym g_counter = "(cluster_node_id, u64) btmap"

definition gc_new :: g_counter where
  "gc_new = bt_empty"

definition gc_component :: "g_counter \<Rightarrow> cluster_node_id \<Rightarrow> u64" where
  "gc_component c node = (case bt_get c node of Some v \<Rightarrow> v | None \<Rightarrow> 0)"

definition gc_increment :: "cluster_node_id \<Rightarrow> u64 \<Rightarrow> g_counter \<Rightarrow> g_counter" where
  "gc_increment node by c = bt_insert node (sat_add (gc_component c node) by) c"

definition gc_value :: "g_counter \<Rightarrow> u64" where
  "gc_value c = sum_list (bt_values c)"

definition gc_metadata_bytes :: "g_counter \<Rightarrow> u64" where
  "gc_metadata_bytes c = sum_list (map (\<lambda>node. of_nat (length node) + 8) (bt_keys c))"

definition gc_merge :: "g_counter \<Rightarrow> g_counter \<Rightarrow> g_counter" where
  "gc_merge self other = fold (\<lambda>(node, v) c. bt_insert node (max (gc_component c node) v) c) other self"

record pn_counter =
  pn_inc :: g_counter
  pn_dec :: g_counter

definition pn_new :: pn_counter where
  "pn_new = \<lparr>pn_inc = gc_new, pn_dec = gc_new\<rparr>"

definition pn_increment :: "cluster_node_id \<Rightarrow> u64 \<Rightarrow> pn_counter \<Rightarrow> pn_counter" where
  "pn_increment node by c = c\<lparr>pn_inc := gc_increment node by (pn_inc c)\<rparr>"

definition pn_decrement :: "cluster_node_id \<Rightarrow> u64 \<Rightarrow> pn_counter \<Rightarrow> pn_counter" where
  "pn_decrement node by c = c\<lparr>pn_dec := gc_increment node by (pn_dec c)\<rparr>"

definition pn_value :: "pn_counter \<Rightarrow> int" where
  "pn_value c = uint (gc_value (pn_inc c)) - uint (gc_value (pn_dec c))"

definition pn_metadata_bytes :: "pn_counter \<Rightarrow> u64" where
  "pn_metadata_bytes c = sat_add (gc_metadata_bytes (pn_inc c)) (gc_metadata_bytes (pn_dec c))"

definition pn_merge :: "pn_counter \<Rightarrow> pn_counter \<Rightarrow> pn_counter" where
  "pn_merge self other = \<lparr>pn_inc = gc_merge (pn_inc self) (pn_inc other), pn_dec = gc_merge (pn_dec self) (pn_dec other)\<rparr>"

section \<open>Sets\<close>

datatype or_set_tag = OrSetTag (tag_node: cluster_node_id) (tag_counter: u64)

record 'a or_set =
  or_adds :: "('a, or_set_tag set) btmap"
  or_removes :: "or_set_tag set"

definition or_new :: "'a or_set" where
  "or_new = \<lparr>or_adds = bt_empty, or_removes = {}\<rparr>"

definition or_tags :: "'a or_set \<Rightarrow> 'a \<Rightarrow> or_set_tag set" where
  "or_tags s v = (case bt_get (or_adds s) v of Some tags \<Rightarrow> tags | None \<Rightarrow> {})"

definition or_add :: "'a::linorder \<Rightarrow> or_set_tag \<Rightarrow> 'a or_set \<Rightarrow> 'a or_set" where
  "or_add v tag s = s\<lparr>or_adds := bt_insert v (insert tag (or_tags s v)) (or_adds s)\<rparr>"

definition or_remove :: "'a \<Rightarrow> 'a or_set \<Rightarrow> 'a or_set" where
  "or_remove v s = (case bt_get (or_adds s) v of Some tags \<Rightarrow> s\<lparr>or_removes := or_removes s \<union> tags\<rparr> | None \<Rightarrow> s)"

definition or_contains :: "'a \<Rightarrow> 'a or_set \<Rightarrow> bool" where
  "or_contains v s \<longleftrightarrow> (case bt_get (or_adds s) v of Some tags \<Rightarrow> (\<exists>tag \<in> tags. tag \<notin> or_removes s) | None \<Rightarrow> False)"

definition or_values :: "'a or_set \<Rightarrow> 'a list" where
  "or_values s = filter (\<lambda>v. or_contains v s) (bt_keys (or_adds s))"

definition or_set_tag_bytes :: u64 where
  "or_set_tag_bytes = 8 * 2"

definition or_metadata_bytes :: "'a or_set \<Rightarrow> u64" where
  "or_metadata_bytes s =
     sat_add (sum_list (map (\<lambda>tags. of_nat (card tags) * or_set_tag_bytes) (bt_values (or_adds s))))
       (of_nat (card (or_removes s)) * or_set_tag_bytes)"

definition or_merge :: "'a::linorder or_set \<Rightarrow> 'a or_set \<Rightarrow> 'a or_set" where
  "or_merge self other =
     (let self = fold (\<lambda>(v, tags) s. s\<lparr>or_adds := bt_insert v (or_tags s v \<union> tags) (or_adds s)\<rparr>) (or_adds other) self
      in self\<lparr>or_removes := or_removes self \<union> or_removes other\<rparr>)"

section \<open>Registers\<close>

record 'a lww_register =
  lww_value :: 'a
  lww_hlc :: hybrid_logical_clock
  lww_writer :: cluster_node_id

definition lww_new :: "'a \<Rightarrow> hybrid_logical_clock \<Rightarrow> cluster_node_id \<Rightarrow> 'a lww_register" where
  "lww_new v hlc writer = \<lparr>lww_value = v, lww_hlc = hlc, lww_writer = writer\<rparr>"

definition lww_stamp :: "'a lww_register \<Rightarrow> hybrid_logical_clock \<times> cluster_node_id" where
  "lww_stamp r = (lww_hlc r, lww_writer r)"

definition lww_merge :: "'a lww_register \<Rightarrow> 'a lww_register \<Rightarrow> 'a lww_register" where
  "lww_merge self other = (if lww_stamp self < lww_stamp other then other else self)"

section \<open>Statistics and tombstones\<close>

record crdt_merge_stats =
  merge_total :: "(string, u64) btmap"
  conflict_resolved_total :: "(string, u64) btmap"
  stats_metadata_bytes :: "(string, u64) btmap"

definition bump :: "string \<Rightarrow> (string, u64) btmap \<Rightarrow> (string, u64) btmap" where
  "bump kind m = bt_insert kind ((case bt_get m kind of Some n \<Rightarrow> n | None \<Rightarrow> 0) + 1) m"

definition record_merge :: "string \<Rightarrow> bool \<Rightarrow> u64 \<Rightarrow> crdt_merge_stats \<Rightarrow> crdt_merge_stats" where
  "record_merge kind conflict metadata_bytes s =
     (let s = s\<lparr>merge_total := bump kind (merge_total s)\<rparr>;
          s = (if conflict then s\<lparr>conflict_resolved_total := bump kind (conflict_resolved_total s)\<rparr> else s)
      in s\<lparr>stats_metadata_bytes := bt_insert kind metadata_bytes (stats_metadata_bytes s)\<rparr>)"

datatype tombstone_crdt_decision = ApplyUpdate | KeepTombstone

definition tombstone_crdt_decision_for :: "replicated_value_record \<Rightarrow> value_version \<Rightarrow> cluster_epoch \<Rightarrow> tombstone_crdt_decision" where
  "tombstone_crdt_decision_for tombstone version epoch =
     (if rec_is_tombstone tombstone \<and> (version, epoch) \<le> rec_stamp tombstone then KeepTombstone else ApplyUpdate)"

section \<open>Convergence\<close>

locale convergent =
  fixes valid :: "'s \<Rightarrow> bool"
    and merge :: "'s \<Rightarrow> 's \<Rightarrow> 's"
  assumes merge_valid: "valid a \<Longrightarrow> valid b \<Longrightarrow> valid (merge a b)"
    and merge_idem: "valid a \<Longrightarrow> merge a a = a"
    and merge_commute: "valid a \<Longrightarrow> valid b \<Longrightarrow> merge a b = merge b a"
    and merge_assoc: "valid a \<Longrightarrow> valid b \<Longrightarrow> valid c \<Longrightarrow> merge (merge a b) c = merge a (merge b c)"
begin

lemma merge_right_commute: "valid a \<Longrightarrow> valid b \<Longrightarrow> valid c \<Longrightarrow> merge (merge a b) c = merge (merge a c) b"
  by (simp add: merge_assoc merge_commute [of b c])

lemma merge_absorb: "valid a \<Longrightarrow> valid b \<Longrightarrow> merge (merge a b) b = merge a b"
  by (simp add: merge_assoc merge_idem)

lemma foldl_valid: "valid s \<Longrightarrow> \<forall>x \<in> set xs. valid x \<Longrightarrow> valid (foldl merge s xs)"
  by (induction xs arbitrary: s) (auto intro: merge_valid)

lemma foldl_merge_out:
  "valid s \<Longrightarrow> valid a \<Longrightarrow> \<forall>x \<in> set xs. valid x \<Longrightarrow> foldl merge (merge s a) xs = merge (foldl merge s xs) a"
  by (induction xs arbitrary: s) (auto simp: merge_right_commute merge_valid)

lemma foldl_merge_seen:
  "valid s \<Longrightarrow> \<forall>x \<in> set xs. valid x \<Longrightarrow> a \<in> set xs \<Longrightarrow> merge (foldl merge s xs) a = foldl merge s xs"
proof (induction xs arbitrary: s)
  case (Cons x xs)
  show ?case
  proof (cases "a \<in> set xs")
    case True
    with Cons show ?thesis by (simp add: merge_valid)
  next
    case False
    with Cons.prems show ?thesis by (simp add: foldl_merge_out foldl_valid merge_absorb)
  qed
qed simp

lemma foldl_merge_subset:
  "valid s \<Longrightarrow> \<forall>x \<in> set xs. valid x \<Longrightarrow> set ys \<subseteq> set xs \<Longrightarrow> foldl merge (foldl merge s xs) ys = foldl merge s xs"
  by (induction ys) (auto simp: foldl_merge_seen)

lemma foldl_merge_swap:
  "valid s \<Longrightarrow> \<forall>x \<in> set xs \<union> set ys. valid x \<Longrightarrow> foldl merge (foldl merge s xs) ys = foldl merge (foldl merge s ys) xs"
  by (induction ys arbitrary: s) (auto simp: foldl_merge_out foldl_valid merge_valid)

lemma converge:
  assumes "valid s" "\<forall>x \<in> set xs. valid x" "set xs = set ys"
  shows "foldl merge s xs = foldl merge s ys"
  using assms foldl_merge_subset [of s xs ys] foldl_merge_subset [of s ys xs] foldl_merge_swap [of s xs ys] by auto

lemma meet:
  assumes "valid s" "valid t" "\<forall>x \<in> set xs. valid x" "\<forall>x \<in> set ys. valid x" "insert s (set xs) = insert t (set ys)"
  shows "foldl merge s xs = foldl merge t ys"
proof -
  have "foldl merge s xs = foldl merge s (s # xs)" by (simp add: merge_idem assms(1))
  also have "\<dots> = foldl merge s (t # s # xs)"
    using assms by (intro converge) auto
  also have "\<dots> = foldl merge t (s # s # xs)" by (simp add: merge_commute assms)
  also have "\<dots> = foldl merge t (t # ys)"
    using assms by (intro converge) auto
  also have "\<dots> = foldl merge t ys" by (simp add: merge_idem assms(2))
  finally show ?thesis .
qed

end


section \<open>The merges of the source\<close>

lemma gc_merge_get:
  "bt_ok other \<Longrightarrow> bt_get (gc_merge self other) n =
    (case bt_get other n of None \<Rightarrow> bt_get self n | Some v \<Rightarrow> Some (max (gc_component self n) v))"
  unfolding gc_merge_def
proof (induction other arbitrary: self)
  case (Cons p other)
  obtain m w where p: "p = (m, w)" by fastforce
  with Cons.prems have "bt_ok other" "bt_get other m = None"
    by (auto simp: bt_ok_Cons bt_get_None_iff bt_keys_def)
  with Cons.IH p show ?case by (auto simp: gc_component_def split: option.splits)
qed simp

lemma gc_merge_ok [simp, intro]: "bt_ok self \<Longrightarrow> bt_ok (gc_merge self other)"
  unfolding gc_merge_def by (induction other arbitrary: self) auto

lemma gc_component_merge [simp]:
  "bt_ok other \<Longrightarrow> gc_component (gc_merge self other) n = max (gc_component self n) (gc_component other n)"
  by (auto simp: gc_component_def gc_merge_get max_def split: option.splits)

lemma gc_merge_dom:
  "bt_ok other \<Longrightarrow> bt_get (gc_merge self other) n = None \<longleftrightarrow> bt_get self n = None \<and> bt_get other n = None"
  by (auto simp: gc_merge_get split: option.splits)

lemma gc_eqI:
  assumes "bt_ok a" "bt_ok b" "\<And>n. gc_component a n = gc_component b n" "\<And>n. bt_get a n = None \<longleftrightarrow> bt_get b n = None"
  shows "a = b"
proof (rule bt_eqI [OF assms(1,2) ext])
  show "bt_get a n = bt_get b n" for n
    using assms(3,4) [of n] by (auto simp: gc_component_def split: option.splits)
qed

interpretation gc: convergent "bt_ok :: g_counter \<Rightarrow> bool" gc_merge
  by unfold_locales (auto intro!: gc_eqI simp: gc_merge_dom max.assoc max.commute max.left_commute)

definition pn_ok :: "pn_counter \<Rightarrow> bool" where
  "pn_ok c \<longleftrightarrow> bt_ok (pn_inc c) \<and> bt_ok (pn_dec c)"

interpretation pn: convergent pn_ok pn_merge
  by unfold_locales (auto simp: pn_ok_def pn_merge_def gc.merge_idem gc.merge_assoc intro: gc.merge_commute)

lemma or_merge_fold:
  "bt_ok other \<Longrightarrow> or_removes (fold (\<lambda>(v, tags) s. s\<lparr>or_adds := bt_insert v (or_tags s v \<union> tags) (or_adds s)\<rparr>) other self) = or_removes self
   \<and> bt_get (or_adds (fold (\<lambda>(v, tags) s. s\<lparr>or_adds := bt_insert v (or_tags s v \<union> tags) (or_adds s)\<rparr>) other self)) v =
    (case bt_get other v of None \<Rightarrow> bt_get (or_adds self) v | Some tags \<Rightarrow> Some (or_tags self v \<union> tags))"
proof (induction other arbitrary: self)
  case (Cons p other)
  obtain w tags where p: "p = (w, tags)" by fastforce
  with Cons.prems have "bt_ok other" "bt_get other w = None"
    by (auto simp: bt_ok_Cons bt_get_None_iff bt_keys_def)
  with Cons.IH p show ?case by (auto simp: or_tags_def split: option.splits)
qed simp

lemma or_merge_removes [simp]: "bt_ok (or_adds b) \<Longrightarrow> or_removes (or_merge a b) = or_removes a \<union> or_removes b"
  by (simp add: or_merge_def Let_def or_merge_fold)

lemma or_merge_adds:
  "bt_ok (or_adds b) \<Longrightarrow> bt_get (or_adds (or_merge a b)) v =
    (case bt_get (or_adds b) v of None \<Rightarrow> bt_get (or_adds a) v | Some tags \<Rightarrow> Some (or_tags a v \<union> tags))"
  by (simp add: or_merge_def Let_def or_merge_fold)

lemma or_merge_ok [simp]: "bt_ok (or_adds a) \<Longrightarrow> bt_ok (or_adds (or_merge a b))"
proof -
  have "bt_ok (or_adds a) \<Longrightarrow>
    bt_ok (or_adds (fold (\<lambda>(v, tags) s. s\<lparr>or_adds := bt_insert v (or_tags s v \<union> tags) (or_adds s)\<rparr>) xs a))" for xs
    by (induction xs arbitrary: a) auto
  then show "bt_ok (or_adds a) \<Longrightarrow> ?thesis" by (simp add: or_merge_def Let_def)
qed

lemma or_tags_merge [simp]: "bt_ok (or_adds b) \<Longrightarrow> or_tags (or_merge a b) v = or_tags a v \<union> or_tags b v"
  by (auto simp: or_tags_def or_merge_adds split: option.splits)

lemma or_merge_dom:
  "bt_ok (or_adds b) \<Longrightarrow>
    bt_get (or_adds (or_merge a b)) v = None \<longleftrightarrow> bt_get (or_adds a) v = None \<and> bt_get (or_adds b) v = None"
  by (auto simp: or_merge_adds split: option.splits)

lemma or_eqI:
  fixes a b :: "'a::linorder or_set"
  assumes "bt_ok (or_adds a)" "bt_ok (or_adds b)" "or_removes a = or_removes b" "\<And>v. or_tags a v = or_tags b v"
    "\<And>v. bt_get (or_adds a) v = None \<longleftrightarrow> bt_get (or_adds b) v = None"
  shows "a = b"
proof -
  have "or_adds a = or_adds b"
  proof (rule bt_eqI [OF assms(1,2) ext])
    show "bt_get (or_adds a) v = bt_get (or_adds b) v" for v
      using assms(4,5) [of v] by (auto simp: or_tags_def split: option.splits)
  qed
  with assms(3) show ?thesis by simp
qed

interpretation or_set: convergent "\<lambda>s :: 'a::linorder or_set. bt_ok (or_adds s)" or_merge
  by unfold_locales (auto intro!: or_eqI simp: or_merge_dom)

lemma lww_merge_stamp: "lww_stamp (lww_merge a b) = max (lww_stamp a) (lww_stamp b)"
  by (auto simp: lww_merge_def max_def not_less)

lemma lww_eqI: "lww_stamp a = lww_stamp b \<Longrightarrow> lww_value a = lww_value b \<Longrightarrow> a = b"
  by (simp add: lww_stamp_def)

interpretation lww: convergent "\<lambda>r. lww_value r = f (lww_stamp r)" lww_merge for f
proof unfold_locales
  fix a b c
  let ?ok = "\<lambda>r. lww_value r = f (lww_stamp r)"
  show valid: "?ok a \<Longrightarrow> ?ok b \<Longrightarrow> ?ok (lww_merge a b)" for a b
    by (simp add: lww_merge_def)
  have eq: "a = b" if "?ok a" "?ok b" "lww_stamp a = lww_stamp b" for a b
    using that by (intro lww_eqI) simp_all
  show "?ok a \<Longrightarrow> lww_merge a a = a" by (simp add: lww_merge_def)
  show "?ok a \<Longrightarrow> ?ok b \<Longrightarrow> lww_merge a b = lww_merge b a"
    by (intro eq valid) (simp_all add: lww_merge_stamp max.commute)
  show "?ok a \<Longrightarrow> ?ok b \<Longrightarrow> ?ok c \<Longrightarrow> lww_merge (lww_merge a b) c = lww_merge a (lww_merge b c)"
    by (intro eq valid) (simp_all add: lww_merge_stamp max.assoc)
qed

section \<open>Replicas\<close>

text \<open>
  C19. Replicas that have merged the same states are equal. For the grow-only and the positive-negative counter, the
  observed-remove set and the last-writer register: two replicas that start from states of their own
  and merge any sequences of states, with repetitions and in any order, end equal when the same
  states, their own ones included, went into both. For the register this needs that no timestamp and writer are used for two
  values.
\<close>
theorem crdt_replicas_converge:
  "((\<forall>x \<in> insert a (set as). bt_ok x) \<and> insert a (set as) = insert b (set bs)
     \<longrightarrow> foldl gc_merge a as = foldl gc_merge b bs)
   \<and> ((\<forall>x \<in> insert c (set cs). pn_ok x) \<and> insert c (set cs) = insert d (set ds)
     \<longrightarrow> foldl pn_merge c cs = foldl pn_merge d ds)
   \<and> ((\<forall>x \<in> insert e (set es). bt_ok (or_adds x)) \<and> insert e (set es) = insert g (set gs)
     \<longrightarrow> foldl or_merge e es = foldl or_merge g gs)
   \<and> ((\<forall>x \<in> insert k (set ks). lww_value x = f (lww_stamp x)) \<and> insert k (set ks) = insert l (set ls)
     \<longrightarrow> foldl lww_merge k ks = foldl lww_merge l ls)"
  using gc.meet [of a b as bs] pn.meet [of c d cs ds] or_set.meet [of e g es gs] lww.meet [of k f l ks ls]
  by (metis insertCI)

theorem crdt_replicas_converge_witness:
  "let x = gc_increment ''a'' 3 gc_new; y = gc_increment ''b'' 4 gc_new; z = or_add (1::nat) (OrSetTag ''a'' 1) or_new;
       w = or_add 2 (OrSetTag ''b'' 1) or_new; p = pn_increment ''a'' 5 pn_new; q = pn_decrement ''b'' 2 pn_new;
       r = lww_new (10::nat) (HybridLogicalClock 5 0) ''a''; t = lww_new 20 (HybridLogicalClock 5 1) ''b'' in
   gc_merge x y = gc_merge (gc_merge y x) y \<and> gc_value (gc_merge x y) = 7
   \<and> pn_merge p q = pn_merge q p \<and> or_merge z w = or_merge w z \<and> lww_merge r t = lww_merge t r"
proof -
  let ?x = "gc_increment ''a'' 3 gc_new" and ?y = "gc_increment ''b'' 4 gc_new"
    and ?p = "pn_increment ''a'' 5 pn_new" and ?q = "pn_decrement ''b'' 2 pn_new"
    and ?z = "or_add (1::nat) (OrSetTag ''a'' 1) or_new" and ?w = "or_add 2 (OrSetTag ''b'' 1) or_new"
    and ?r = "lww_new (10::nat) (HybridLogicalClock 5 0) ''a''" and ?t = "lww_new 20 (HybridLogicalClock 5 1) ''b''"
    and ?f = "\<lambda>(_, w). if w = ''a'' then 10 else 20 :: nat"
  have ok: "bt_ok ?x" "bt_ok ?y" "pn_ok ?p" "pn_ok ?q" "bt_ok (or_adds ?z)" "bt_ok (or_adds ?w)"
    "lww_value ?r = ?f (lww_stamp ?r)" "lww_value ?t = ?f (lww_stamp ?t)"
    by (simp_all add: gc_increment_def gc_new_def pn_ok_def pn_increment_def pn_decrement_def pn_new_def or_add_def
        or_new_def lww_new_def lww_stamp_def)
  note c = crdt_replicas_converge [of ?x "[?y]" ?y "[?x, ?y]" ?p "[?q]" ?q "[?p]" ?z "[?w]" ?w "[?z]" ?r "[?t]" ?f ?t "[?r]"]
  have "gc_merge ?x ?y = gc_merge (gc_merge ?y ?x) ?y" "pn_merge ?p ?q = pn_merge ?q ?p"
    "or_merge ?z ?w = or_merge ?w ?z" "lww_merge ?r ?t = lww_merge ?t ?r"
    using c ok by (auto simp: insert_commute)
  moreover have "gc_value (gc_merge ?x ?y) = 7" by code_simp
  ultimately show ?thesis by (simp add: Let_def)
qed

subsection \<open>Counting\<close>

datatype gc_op = GcIncrement cluster_node_id u64 | GcMerge cluster_node_id cluster_node_id

fun gc_step :: "gc_op \<Rightarrow> (cluster_node_id \<Rightarrow> g_counter) \<Rightarrow> cluster_node_id \<Rightarrow> g_counter" where
  "gc_step (GcIncrement n by) s = s(n := gc_increment n by (s n))"
| "gc_step (GcMerge to src) s = s(to := gc_merge (s to) (s src))"

fun gc_amount :: "cluster_node_id \<Rightarrow> gc_op \<Rightarrow> nat" where
  "gc_amount n (GcIncrement m by) = (if m = n then unat by else 0)"
| "gc_amount n (GcMerge to src) = 0"

definition gc_total :: "gc_op list \<Rightarrow> cluster_node_id \<Rightarrow> nat" where
  "gc_total ops n = sum_list (map (gc_amount n) ops)"

definition gc_run :: "gc_op list \<Rightarrow> cluster_node_id \<Rightarrow> g_counter" where
  "gc_run ops = fold gc_step ops (\<lambda>_. gc_new)"

lemma gc_run_simps: "gc_run [] = (\<lambda>_. gc_new)" "gc_run (ops @ [op]) = gc_step op (gc_run ops)"
  by (simp_all add: gc_run_def)

lemma gc_total_simps: "gc_total [] n = 0" "gc_total (ops @ [op]) n = gc_total ops n + gc_amount n op"
  by (simp_all add: gc_total_def)

lemma gc_component_increment:
  "gc_component (gc_increment m by c) n = (if n = m then sat_add (gc_component c m) by else gc_component c n)"
  by (simp add: gc_component_def gc_increment_def)

lemma gc_component_new [simp]: "gc_component gc_new n = 0"
  by (simp add: gc_component_def gc_new_def)

lemma gc_run_ok [simp]: "bt_ok (gc_run ops i)"
proof (induction ops arbitrary: i rule: rev_induct)
  case (snoc op ops)
  then show ?case by (cases op) (simp_all add: gc_run_simps gc_increment_def)
qed (simp add: gc_run_simps gc_new_def)

lemma gc_run_owner_max: "gc_component (gc_run ops i) n \<le> gc_component (gc_run ops n) n"
proof (induction ops arbitrary: i rule: rev_induct)
  case (snoc op ops)
  show ?case
  proof (cases op)
    case (GcIncrement m amount)
    then show ?thesis using snoc [of i] by (auto simp: gc_run_simps gc_component_increment intro: order_trans)
  next
    case (GcMerge to src)
    then show ?thesis using snoc [of i] snoc [of src] snoc [of to] by (auto simp: gc_run_simps le_max_iff_disj)
  qed
qed (simp add: gc_run_simps)

lemma gc_run_owner_exact: "gc_total ops n < 2 ^ 64 \<Longrightarrow> unat (gc_component (gc_run ops n) n) = gc_total ops n"
proof (induction ops rule: rev_induct)
  case (snoc op ops)
  then have IH: "unat (gc_component (gc_run ops n) n) = gc_total ops n" by (simp add: gc_total_simps)
  show ?case
  proof (cases op)
    case (GcIncrement m amount)
    with snoc.prems IH show ?thesis
      by (auto simp: gc_run_simps gc_total_simps gc_component_increment unat_sat_add)
  next
    case (GcMerge to src)
    with IH gc_run_owner_max [of ops src n] show ?thesis
      by (auto simp: gc_run_simps gc_total_simps max_def)
  qed
qed (simp add: gc_run_simps gc_total_simps)

lemma gc_merge_all_component:
  assumes "\<forall>c \<in> set cs. bt_ok c"
  shows "gc_component (foldl gc_merge s cs) n = fold max (map (\<lambda>c. gc_component c n) cs) (gc_component s n)"
  using assms by (induction cs arbitrary: s) (simp_all add: max.commute)

lemma fold_max_eq:
  fixes m :: "'b::linorder"
  assumes "m \<in> set xs \<or> m = z" "\<forall>x \<in> set xs. x \<le> m" "z \<le> m"
  shows "fold max xs z = m"
  using assms by (induction xs arbitrary: z) (auto simp: max_def)

lemma gc_value_sum:
  assumes "bt_ok c" "finite N" "\<And>n. n \<notin> N \<Longrightarrow> gc_component c n = 0" "(\<Sum>n\<in>N. unat (gc_component c n)) < 2 ^ 64"
  shows "unat (gc_value c) = (\<Sum>n\<in>N. unat (gc_component c n))"
proof -
  have d: "distinct (bt_keys c)" using bt_ok_distinct [OF assms(1)] by (simp add: bt_keys_def)
  have "bt_values c = map (gc_component c) (bt_keys c)"
    using assms(1) by (auto simp: bt_values_def bt_keys_def gc_component_def dest: bt_get_iff [THEN iffD2])
  then have "gc_value c = of_nat (sum_list (map (\<lambda>n. unat (gc_component c n)) (bt_keys c)))"
    by (simp add: gc_value_def comp_def flip: sum_list_of_nat)
  also have "sum_list (map (\<lambda>n. unat (gc_component c n)) (bt_keys c)) = (\<Sum>n\<in>set (bt_keys c). unat (gc_component c n))"
    by (rule sum_list_distinct_conv_sum_set [OF d])
  also have "\<dots> = (\<Sum>n\<in>N. unat (gc_component c n))"
  proof -
    have "gc_component c n = 0" if "n \<notin> set (bt_keys c)" for n
      using that by (simp add: gc_component_def bt_get_None_iff [THEN iffD2])
    with assms(2,3) show ?thesis by (intro sum.mono_neutral_cong) auto
  qed
  finally have "unat (gc_value c) = unat (of_nat (\<Sum>n\<in>N. unat (gc_component c n)) :: u64)" by (rule arg_cong)
  also have "\<dots> = (\<Sum>n\<in>N. unat (gc_component c n))"
    unfolding unat_of_nat by (rule mod_less) (use assms(4) in simp)
  finally show ?thesis .
qed

text \<open>
  C35. No increment is lost or counted twice. Let nodes increment their own component of their replica and merge replicas in any
  schedule. Merging the replicas of all nodes that counted, in any order and however much they have
  already seen of each other, gives a counter whose value is the sum of all increments, provided it fits in 64 bits.
\<close>
theorem counter_exact:
  assumes "\<And>n by. GcIncrement n by \<in> set ops \<Longrightarrow> n \<in> set ns"
    and "(\<Sum>n\<in>set ns. gc_total ops n) < 2 ^ 64"
  shows "unat (gc_value (foldl gc_merge gc_new (map (gc_run ops) ns))) = (\<Sum>n\<in>set ns. gc_total ops n)"
proof -
  define c where "c = foldl gc_merge gc_new (map (gc_run ops) ns)"
  have ok: "bt_ok c" unfolding c_def by (rule gc.foldl_valid) (auto simp: gc_new_def)
  have bound: "gc_total ops n < 2 ^ 64" if "n \<in> set ns" for n
    using that assms(2) member_le_sum [of n "set ns" "gc_total ops"] by simp
  have out: "gc_total ops n = 0" if "n \<notin> set ns" for n
  proof -
    have "gc_amount n op = 0" if "op \<in> set ops" for op
    proof (cases op)
      case (GcIncrement m amount)
      with that assms(1) [of m amount] \<open>n \<notin> set ns\<close> show ?thesis by auto
    qed simp
    then show ?thesis by (simp add: gc_total_def)
  qed
  have exact: "unat (gc_component (gc_run ops n) n) = gc_total ops n" for n
    using bound out by (cases "n \<in> set ns") (simp_all add: gc_run_owner_exact)
  have "gc_component c n = (if n \<in> set ns then gc_component (gc_run ops n) n else 0)" for n
  proof (cases "n \<in> set ns")
    case False
    then have "gc_component (gc_run ops n) n = 0"
      using exact [of n] out [of n] by (simp add: unat_eq_zero)
    then have "gc_component (gc_run ops i) n = 0" for i
      using gc_run_owner_max [of ops i n] by simp
    with False show ?thesis
      by (simp add: c_def gc_merge_all_component comp_def) (rule fold_max_eq, auto)
  next
    case True
    then show ?thesis
      by (simp add: c_def gc_merge_all_component comp_def) (rule fold_max_eq, auto intro: gc_run_owner_max)
  qed
  then have "(\<Sum>n\<in>set ns. unat (gc_component c n)) = (\<Sum>n\<in>set ns. gc_total ops n)"
    "\<And>n. n \<notin> set ns \<Longrightarrow> gc_component c n = 0"
    by (simp_all add: exact)
  with gc_value_sum [OF ok, of "set ns"] assms(2) show ?thesis by (simp add: c_def)
qed

theorem counter_exact_witness:
  "let ops = [GcIncrement ''a'' 3, GcMerge ''b'' ''a'', GcIncrement ''b'' 4, GcMerge ''a'' ''b'', GcIncrement ''a'' 2] in
   unat (gc_value (foldl gc_merge gc_new (map (gc_run ops) [''b'', ''a'']))) = 9"
proof -
  let ?ops = "[GcIncrement ''a'' 3, GcMerge ''b'' ''a'', GcIncrement ''b'' 4, GcMerge ''a'' ''b'', GcIncrement ''a'' 2]"
  have "(\<Sum>n\<in>set [''b'', ''a'']. gc_total ?ops n) = 9" by (simp add: gc_total_def)
  then show ?thesis
    using counter_exact [of ?ops "[''b'', ''a'']"] by (auto simp: Let_def)
qed

subsection \<open>Adding and removing\<close>

lemma or_contains_iff: "or_contains v s \<longleftrightarrow> (\<exists>tag \<in> or_tags s v. tag \<notin> or_removes s)"
  by (simp add: or_contains_def or_tags_def split: option.splits)

lemma or_tags_add [simp]: "or_tags (or_add v tag s) w = (if w = v then insert tag (or_tags s v) else or_tags s w)"
  by (simp add: or_tags_def or_add_def)

lemma or_removes_add [simp]: "or_removes (or_add v tag s) = or_removes s"
  by (simp add: or_add_def)

lemma or_remove_sel [simp]:
  "or_adds (or_remove v s) = or_adds s" "or_tags (or_remove v s) w = or_tags s w"
  "or_removes (or_remove v s) = or_removes s \<union> or_tags s v"
  by (auto simp: or_remove_def or_tags_def split: option.splits)

lemma or_add_ok [simp]: "bt_ok (or_adds s) \<Longrightarrow> bt_ok (or_adds (or_add v tag s))"
  by (simp add: or_add_def)

text \<open>
  C36. A set element that is removed is gone exactly where its additions were observed. A removal hides the element,
  also after merging a replica all of whose additions of it were observed; but an addition under a
  tag that the removing replica has not seen survives the removal, on whichever side the merge is done, and the listed
  values are exactly the visible elements, in order and once each.
\<close>
theorem or_set_add_wins:
  fixes a b :: "'a::linorder or_set"
  assumes "bt_ok (or_adds a)" "bt_ok (or_adds b)"
  shows "\<not> or_contains v (or_remove v b)
    \<and> (or_tags a v \<subseteq> or_tags b v \<longrightarrow> \<not> or_contains v (or_merge a (or_remove v b)) \<and> \<not> or_contains v (or_merge (or_remove v b) a))
    \<and> (tag \<notin> or_tags b v \<union> or_removes a \<union> or_removes b
        \<longrightarrow> or_contains v (or_merge (or_add v tag a) (or_remove v b)) \<and> or_contains v (or_merge (or_remove v b) (or_add v tag a)))
    \<and> set (or_values a) = {w. or_contains w a} \<and> sorted_wrt (<) (or_values a)"
proof (intro conjI impI)
  show "set (or_values a) = {w. or_contains w a}"
    by (auto simp: or_values_def or_contains_def dom_bt_get [symmetric] split: option.splits)
  show "sorted_wrt (<) (or_values a)"
    using assms(1) by (auto simp: or_values_def bt_keys_def bt_ok_def intro: sorted_wrt_filter)
qed (use assms in \<open>auto simp: or_contains_iff\<close>)

theorem or_set_add_wins_witness:
  "let b = or_add (7::nat) (OrSetTag ''b'' 1) or_new in
   \<not> or_contains 7 (or_remove 7 b) \<and> or_contains 7 (or_merge (or_add 7 (OrSetTag ''a'' 1) b) (or_remove 7 b))
   \<and> \<not> or_contains 7 (or_merge b (or_remove 7 b))"
  using or_set_add_wins [of "or_add (7::nat) (OrSetTag ''b'' 1) or_new" "or_add (7::nat) (OrSetTag ''b'' 1) or_new" 7
      "OrSetTag ''a'' 1"]
  by (auto simp: Let_def or_new_def or_tags_def [of "\<lparr>or_adds = _, or_removes = _\<rparr>"])

text \<open>
  The tombstone rule for conflict-free updates is the one of the record merge. Against a record in the store, an update that
  would be written at some version and epoch is refused exactly when the record is a tombstone that the
  merge of records would keep over it.
\<close>
lemma tombstone_rule_agrees:
  "tombstone_crdt_decision_for t (rec_version u) (rec_epoch u) = KeepTombstone \<longleftrightarrow> rec_is_tombstone t \<and> rec_merge t u = t"
  by (auto simp: tombstone_crdt_decision_for_def rec_merge_def rec_stamp_def)

end
