(* ===== verification/Consistency_Level.thy ===== *)
theory Consistency_Level
  imports Value_Store_Props
begin

text \<open>
  Per-operation consistency levels (\<open>grid/consistency_level.rs\<close>): how many replicas, and of which regions, an operation
  must hear from, when that is possible at all, and which pairs of levels let a read see every
  completed write.
\<close>

type_synonym region_id = string

datatype consistency_level = One | LocalQuorum | Quorum | EachQuorum | AllReplicas

record ack_requirement =
  req_level :: consistency_level
  req_replicas :: "cluster_node_id list"
  req_total_replicas :: usize
  req_required_total :: usize
  req_required_per_region :: "(region_id, usize) btmap"
  req_replicas_by_region :: "(region_id, cluster_node_id list) btmap"

definition from_legacy_quorum :: "usize \<Rightarrow> usize \<Rightarrow> consistency_level" where
  "from_legacy_quorum required rf =
     (let required = max required 1; rf = max rf 1
      in if rf \<le> required then AllReplicas else if rf div 2 < required then Quorum else One)"

definition default_read :: "replication_config \<Rightarrow> consistency_level" where
  "default_read c = from_legacy_quorum (read_quorum c) (replication_factor c)"

definition default_write :: "replication_config \<Rightarrow> consistency_level" where
  "default_write c = from_legacy_quorum (write_quorum c) (replication_factor c)"

definition allows_single_key_linearizable :: "consistency_level \<Rightarrow> bool" where
  "allows_single_key_linearizable l \<longleftrightarrow> l \<in> {Quorum, EachQuorum, AllReplicas}"

definition effective_replicas :: "effective_replication_map \<Rightarrow> cluster_node_id list" where
  "effective_replicas m = first_seen {} (all_nodes (natural m) @ reading m
     @ (case pending_move m of Some p \<Rightarrow> all_nodes p | None \<Rightarrow> []))"

definition quorum_for :: "usize \<Rightarrow> usize" where
  "quorum_for n = n div 2 + 1"

definition region_of :: "(cluster_node_id, region_id) btmap \<Rightarrow> region_id \<Rightarrow> cluster_node_id \<Rightarrow> region_id" where
  "region_of topology local_region node = (case bt_get topology node of Some r \<Rightarrow> r | None \<Rightarrow> local_region)"

definition group_by_region :: "(cluster_node_id, region_id) btmap \<Rightarrow> region_id \<Rightarrow> cluster_node_id list
    \<Rightarrow> (region_id, cluster_node_id list) btmap" where
  "group_by_region topology local_region nodes =
     fold (\<lambda>node m. let region = region_of topology local_region node
        in bt_insert region ((case bt_get m region of Some ns \<Rightarrow> ns | None \<Rightarrow> []) @ [node]) m) nodes bt_empty"

definition required_acks :: "consistency_level \<Rightarrow> effective_replication_map \<Rightarrow> (cluster_node_id, region_id) btmap
    \<Rightarrow> region_id \<Rightarrow> ack_requirement" where
  "required_acks level m topology local_region =
     (let replicas = effective_replicas m;
          total_replicas = length replicas;
          by_region = group_by_region topology local_region replicas;
          (required_total, per_region) =
            (case level of
               One \<Rightarrow> (1, bt_empty)
             | LocalQuorum \<Rightarrow>
                 let local_count = (case bt_get by_region local_region of Some ns \<Rightarrow> length ns | None \<Rightarrow> 0)
                 in (quorum_for local_count, bt_insert local_region (quorum_for local_count) bt_empty)
             | Quorum \<Rightarrow> (quorum_for total_replicas, bt_empty)
             | EachQuorum \<Rightarrow>
                 let per_region = map (\<lambda>(region, nodes). (region, quorum_for (length nodes))) by_region
                 in (sum_list (bt_values per_region), per_region)
             | AllReplicas \<Rightarrow> (max total_replicas 1, bt_empty))
      in \<lparr>req_level = level, req_replicas = replicas, req_total_replicas = total_replicas,
           req_required_total = required_total, req_required_per_region = per_region,
           req_replicas_by_region = by_region\<rparr>)"

definition live_count :: "cluster_node_id set \<Rightarrow> cluster_node_id list \<Rightarrow> usize" where
  "live_count live nodes = length (filter (\<lambda>node. node \<in> live) nodes)"

definition region_live :: "ack_requirement \<Rightarrow> cluster_node_id set \<Rightarrow> region_id \<Rightarrow> usize" where
  "region_live req live region =
     (case bt_get (req_replicas_by_region req) region of Some nodes \<Rightarrow> live_count live nodes | None \<Rightarrow> 0)"

definition is_satisfiable :: "cluster_node_id set \<Rightarrow> ack_requirement \<Rightarrow> bool" where
  "is_satisfiable live req \<longleftrightarrow>
     (if req_replicas req = [] then False
      else if req_required_per_region req = [] then req_required_total req \<le> live_count live (req_replicas req)
      else list_all (\<lambda>(region, required). required \<le> region_live req live region) (req_required_per_region req))"

definition overlaps_with :: "ack_requirement \<Rightarrow> ack_requirement \<Rightarrow> bool" where
  "overlaps_with self other \<longleftrightarrow> req_required_per_region self = [] \<and> req_required_per_region other = []
     \<and> req_total_replicas self < usize_sat_add (req_required_total self) (req_required_total other)"

definition unsatisfied_reason :: "cluster_node_id set \<Rightarrow> ack_requirement \<Rightarrow> string" where
  "unsatisfied_reason live req =
     (if req_replicas req = [] then ''no effective replicas are available''
      else if req_required_per_region req = [] then
        ''requires '' @ decimal (req_required_total req) @ '' live acknowledgements from ''
          @ decimal (req_total_replicas req) @ '' replicas, only ''
          @ decimal (live_count live (req_replicas req)) @ '' are live''
      else ''regional quorum unsatisfied: '' @ join ''; ''
        (map (\<lambda>(region, required). region @ '' needs '' @ decimal required @ '', has ''
                @ decimal (region_live req live region))
          (filter (\<lambda>(region, required). region_live req live region < required) (req_required_per_region req))))"

record consistency_unsatisfiable =
  unsat_level :: consistency_level
  unsat_reason :: string

definition level_validate :: "consistency_level \<Rightarrow> effective_replication_map \<Rightarrow> (cluster_node_id, region_id) btmap
    \<Rightarrow> region_id \<Rightarrow> cluster_node_id set \<Rightarrow> consistency_unsatisfiable + ack_requirement" where
  "level_validate level m topology local_region live =
     (let req = required_acks level m topology local_region
      in if is_satisfiable live req then Inr req
         else Inl \<lparr>unsat_level = level, unsat_reason = unsatisfied_reason live req\<rparr>)"

record consistency_readiness =
  ready_write :: ack_requirement
  ready_read :: ack_requirement
  read_your_writes_overlap :: bool

definition readiness_evaluate :: "consistency_level \<Rightarrow> consistency_level \<Rightarrow> effective_replication_map
    \<Rightarrow> (cluster_node_id, region_id) btmap \<Rightarrow> region_id \<Rightarrow> consistency_readiness" where
  "readiness_evaluate write_level read_level m topology local_region =
     (let w = required_acks write_level m topology local_region;
          r = required_acks read_level m topology local_region
      in \<lparr>ready_write = w, ready_read = r, read_your_writes_overlap = overlaps_with w r\<rparr>)"

section \<open>Acknowledgement sets\<close>

text \<open>A set of replicas whose acknowledgements meet a requirement is one that would satisfy it as the live set.\<close>

lemma effective_replicas_distinct [simp]: "distinct (effective_replicas m)"
  by (simp add: effective_replicas_def)

lemma live_count_card: "distinct nodes \<Longrightarrow> live_count live nodes = card (live \<inter> set nodes)"
  using distinct_card [of "filter (\<lambda>n. n \<in> live) nodes"] by (simp add: live_count_def Int_def conj_commute)

lemma required_acks_sel [simp]:
  "req_replicas (required_acks l m t lr) = effective_replicas m"
  "req_total_replicas (required_acks l m t lr) = length (effective_replicas m)"
  "req_replicas_by_region (required_acks l m t lr) = group_by_region t lr (effective_replicas m)"
  by (simp_all add: required_acks_def Let_def split: prod.splits consistency_level.splits)

lemma group_by_region_get:
  "bt_get (group_by_region t lr nodes) region =
    (let ns = filter (\<lambda>n. region_of t lr n = region) nodes in if ns = [] then None else Some ns)"
proof -
  have "bt_get (fold (\<lambda>node m. let region = region_of t lr node
        in bt_insert region ((case bt_get m region of Some ns \<Rightarrow> ns | None \<Rightarrow> []) @ [node]) m) nodes m) region =
    (let ns = (case bt_get m region of Some ns \<Rightarrow> ns | None \<Rightarrow> []) @ filter (\<lambda>n. region_of t lr n = region) nodes
     in if bt_get m region = None \<and> ns = [] then None else Some ns)" for m
    by (induction nodes arbitrary: m) (auto simp: Let_def split: option.splits)
  from this [of bt_empty] show ?thesis by (simp add: group_by_region_def)
qed

lemma group_by_region_ok: "bt_ok (group_by_region t lr nodes)"
proof -
  have "bt_ok m \<Longrightarrow> bt_ok (fold (\<lambda>node m. let region = region_of t lr node
        in bt_insert region ((case bt_get m region of Some ns \<Rightarrow> ns | None \<Rightarrow> []) @ [node]) m) nodes m)" for m
    by (induction nodes arbitrary: m) (auto simp: Let_def)
  then show ?thesis by (simp add: group_by_region_def)
qed

lemma overlap_meets:
  assumes "distinct nodes" "W \<subseteq> set nodes" "R \<subseteq> set nodes" "length nodes < w + r"
    "w \<le> live_count W nodes" "r \<le> live_count R nodes"
  shows "W \<inter> R \<noteq> {}"
proof
  assume "W \<inter> R = {}"
  then have "card (W \<union> R) = card W + card R"
    using assms(2,3) by (intro card_Un_disjoint) (auto dest: finite_subset)
  moreover have "card (W \<union> R) \<le> length nodes"
    using assms(2,3) card_mono [of "set nodes" "W \<union> R"] distinct_card [OF assms(1)] by auto
  moreover have "w \<le> card W" "r \<le> card R"
    using assms(2,3,5,6) by (simp_all add: live_count_card [OF assms(1)] Int_absorb2)
  ultimately show False using assms(4) by simp
qed

text \<open>
  C37. Overlapping levels read their own writes. If the readiness report of a write level and a read level says that they
  overlap, then any set of replicas whose acknowledgements complete a write and any set of
  replicas whose answers complete a read have a replica in common. Where the levels are quorum, or one is all, the report
  does say so.
\<close>
theorem ready_levels_overlap:
  assumes "W \<subseteq> set (effective_replicas m)" "R \<subseteq> set (effective_replicas m)"
    and "is_satisfiable W (required_acks wl m t lr)" "is_satisfiable R (required_acks rl m t lr)"
    and "length (effective_replicas m) < usize_max"
  shows "(read_your_writes_overlap (readiness_evaluate wl rl m t lr) \<longrightarrow> W \<inter> R \<noteq> {})
    \<and> ((wl = Quorum \<or> wl = AllReplicas) \<and> (rl = Quorum \<or> rl = AllReplicas) \<or> wl = AllReplicas \<and> rl = One
        \<or> wl = One \<and> rl = AllReplicas
        \<longrightarrow> read_your_writes_overlap (readiness_evaluate wl rl m t lr))"
proof -
  let ?w = "required_acks wl m t lr" and ?r = "required_acks rl m t lr" and ?n = "length (effective_replicas m)"
  have "W \<inter> R \<noteq> {}" if "overlaps_with ?w ?r"
  proof (rule overlap_meets [OF effective_replicas_distinct assms(1,2)])
    show "?n < req_required_total ?w + req_required_total ?r"
      using that by (simp add: overlaps_with_def usize_sat_add_def)
    show "req_required_total ?w \<le> live_count W (effective_replicas m)"
      "req_required_total ?r \<le> live_count R (effective_replicas m)"
      using that assms(3,4) by (simp_all add: overlaps_with_def is_satisfiable_def split: if_splits)
  qed
  moreover have "overlaps_with ?w ?r"
    if "(wl = Quorum \<or> wl = AllReplicas) \<and> (rl = Quorum \<or> rl = AllReplicas) \<or> wl = AllReplicas \<and> rl = One
        \<or> wl = One \<and> rl = AllReplicas"
  proof -
    have "?n < (?n div 2 + 1) + (?n div 2 + 1)" by presburger
    with that assms(5) show ?thesis
      by (auto simp: overlaps_with_def required_acks_def bt_empty_def quorum_for_def usize_sat_add_def Let_def)
  qed
  ultimately show ?thesis by (simp add: readiness_evaluate_def Let_def)
qed

theorem ready_levels_overlap_witness:
  "let m = erm_new (replicas_new ''a'' [''b'', ''c'']) in
   read_your_writes_overlap (readiness_evaluate Quorum Quorum m [] ''eu'') \<and> {''a'', ''b''} \<inter> {''b'', ''c''} \<noteq> {}"
proof -
  define m where "m = erm_new (replicas_new ''a'' [''b'', ''c''])"
  have e: "effective_replicas m = [''a'', ''b'', ''c'']"
    by (simp add: m_def effective_replicas_def erm_new_def all_nodes_def replicas_new_def)
  have s: "is_satisfiable W (required_acks Quorum m [] ''eu'') \<longleftrightarrow> 2 \<le> live_count W [''a'', ''b'', ''c'']" for W
    by (simp add: is_satisfiable_def required_acks_def e bt_empty_def quorum_for_def Let_def)
      (simp add: numeral_2_eq_2)
  show ?thesis
    using ready_levels_overlap [of "{''a'', ''b''}" m "{''b'', ''c''}" Quorum "[]" "''eu''" Quorum]
    unfolding s e Let_def m_def [symmetric] by (simp add: live_count_def usize_max_def)
qed

section \<open>Regional quorums\<close>

text \<open>
  Quorums in the local region overlap too. Two sets of replicas that each satisfy the local
  quorum, or a quorum in each region, share a replica of the local region, provided the
  local region has a replica; and a level that a validation accepts is one whose requirement the live nodes satisfy.
\<close>
lemma local_quorums_overlap:
  assumes "wl \<in> {LocalQuorum, EachQuorum}" "rl \<in> {LocalQuorum, EachQuorum}"
    and "level_validate wl m t lr W = Inr qw" "level_validate rl m t lr R = Inr qr"
    and "\<exists>n \<in> set (effective_replicas m). region_of t lr n = lr"
  shows "\<exists>n \<in> W \<inter> R. n \<in> set (effective_replicas m) \<and> region_of t lr n = lr"
proof -
  define ns where "ns = filter (\<lambda>n. region_of t lr n = lr) (effective_replicas m)"
  have ns: "ns \<noteq> []" "distinct ns" "bt_get (group_by_region t lr (effective_replicas m)) lr = Some ns"
    using assms(5) by (auto simp: ns_def group_by_region_get Let_def filter_empty_conv)
  have need: "quorum_for (length ns) \<le> live_count X ns"
    if "l \<in> {LocalQuorum, EachQuorum}" "is_satisfiable X (required_acks l m t lr)" for l X
  proof -
    have "(lr, quorum_for (length ns)) \<in> set (req_required_per_region (required_acks l m t lr))"
      using that(1) ns(3) map_of_SomeD [of "group_by_region t lr (effective_replicas m)" lr ns]
      by (auto simp: required_acks_def bt_empty_def Let_def image_iff intro!: bexI [of _ "(lr, ns)"])
    then show ?thesis
      using that(2) ns(3) by (auto simp: is_satisfiable_def list_all_iff region_live_def split: if_splits)
  qed
  have sat: "is_satisfiable W (required_acks wl m t lr)" "is_satisfiable R (required_acks rl m t lr)"
    using assms(3,4) by (auto simp: level_validate_def Let_def split: if_splits)
  have "length ns < quorum_for (length ns) + quorum_for (length ns)" by (simp add: quorum_for_def)
  then have "(W \<inter> set ns) \<inter> (R \<inter> set ns) \<noteq> {}"
    using need [OF assms(1) sat(1)] need [OF assms(2) sat(2)] ns(2)
    by (intro overlap_meets [OF ns(2)]) (auto simp: live_count_card Int_assoc)
  then show ?thesis by (auto simp: ns_def)
qed

lemma local_quorums_overlap_witness:
  "let m = erm_new (replicas_new ''a'' [''b'', ''c'', ''d'']); t = [(''d'', ''us'')] in
   is_ok (level_validate LocalQuorum m t ''eu'' {''a'', ''b''}) \<and> is_ok (level_validate EachQuorum m t ''eu'' {''b'', ''c'', ''d''})
   \<and> (\<exists>n \<in> {''a'', ''b''} \<inter> {''b'', ''c'', ''d''}. region_of t ''eu'' n = ''eu'')"
proof -
  define m where "m = erm_new (replicas_new ''a'' [''b'', ''c'', ''d''])"
  define t where "t = [(''d'', ''us'')]"
  have ok: "is_ok (level_validate LocalQuorum m t ''eu'' {''a'', ''b''})" "is_ok (level_validate EachQuorum m t ''eu'' {''b'', ''c'', ''d''})"
    "''a'' \<in> set (effective_replicas m)" "region_of t ''eu'' ''a'' = ''eu''"
    unfolding m_def t_def by code_simp+
  then obtain qw qr where "level_validate LocalQuorum m t ''eu'' {''a'', ''b''} = Inr qw"
    "level_validate EachQuorum m t ''eu'' {''b'', ''c'', ''d''} = Inr qr"
    by (metis is_ok.elims(2))
  from local_quorums_overlap [OF _ _ this] ok have "\<exists>n \<in> {''a'', ''b''} \<inter> {''b'', ''c'', ''d''}. region_of t ''eu'' n = ''eu''"
    by blast
  with ok show ?thesis unfolding m_def t_def Let_def by blast
qed

section \<open>Levels implied by a replication configuration\<close>

text \<open>
  The levels implied by a configuration with overlapping quorums need not overlap. A valid configuration with
  replication factor 4, read quorum 3 and write quorum 2 has overlapping quorums, but its implied
  write level is one acknowledgement, which the implied read level does not overlap.
\<close>
lemma implied_levels_lose_overlap:
  "let c = local_first\<lparr>replication_factor := 4, read_quorum := 3, write_quorum := 2\<rparr>;
       m = erm_new (replicas_new ''a'' [''b'', ''c'', ''d'']) in
   config_validate c = Inr () \<and> is_strong_ryow c \<and> default_write c = One \<and> default_read c = Quorum
   \<and> \<not> read_your_writes_overlap (readiness_evaluate (default_write c) (default_read c) m [] ''eu'')"
  by (simp add: config_validate_def local_first_def is_strong_ryow_def usize_sat_add_def usize_max_def
      default_write_def default_read_def from_legacy_quorum_def readiness_evaluate_def overlaps_with_def
      required_acks_def effective_replicas_def erm_new_def all_nodes_def replicas_new_def quorum_for_def
      bt_empty_def Let_def)

end
