(* ===== verification/Active_Active.thy ===== *)
theory Active_Active
  imports Crdt Consistency_Level
begin

text \<open>
  Geo-distributed writes (\<open>grid/active_active.rs\<close>): which regions may accept a write, the write stamped at
  the accepting region, and the reconciliation of the writes that arrive from other regions.
\<close>

datatype write_authority = HomeRegionOnly region_id | ActiveActive region_id

fun authority_home :: "write_authority \<Rightarrow> region_id" where
  "authority_home (HomeRegionOnly home) = home"
| "authority_home (ActiveActive home) = home"

fun accepts_local_writes_in :: "write_authority \<Rightarrow> region_id \<Rightarrow> bool" where
  "accepts_local_writes_in (HomeRegionOnly home) region \<longleftrightarrow> home = region"
| "accepts_local_writes_in (ActiveActive home) region \<longleftrightarrow> True"

fun is_active_active :: "write_authority \<Rightarrow> bool" where
  "is_active_active (ActiveActive _) \<longleftrightarrow> True"
| "is_active_active (HomeRegionOnly _) \<longleftrightarrow> False"

datatype active_active_acknowledgement = AckMissing | BoundedStalenessAccepted

type_synonym active_active_config_error = string

record active_active_config =
  aa_authority :: write_authority
  aa_acknowledgement :: active_active_acknowledgement

definition home_region_only :: "region_id \<Rightarrow> active_active_config" where
  "home_region_only home = \<lparr>aa_authority = HomeRegionOnly home, aa_acknowledgement = AckMissing\<rparr>"

definition active_active :: "region_id \<Rightarrow> active_active_acknowledgement \<Rightarrow> active_active_config_error + active_active_config" where
  "active_active home ack =
     (if ack \<noteq> BoundedStalenessAccepted
      then Inl ''active-active requires explicit bounded-staleness acknowledgement''
      else Inr \<lparr>aa_authority = ActiveActive home, aa_acknowledgement = ack\<rparr>)"

definition active_active_ready :: "active_active_config \<Rightarrow> bool" where
  "active_active_ready c \<longleftrightarrow> is_active_active (aa_authority c) \<and> aa_acknowledgement c = BoundedStalenessAccepted"

record geo_write =
  geo_key :: string
  geo_partition :: partition_id
  geo_version :: value_version
  geo_epoch :: cluster_epoch
  geo_hlc :: hybrid_logical_clock
  geo_origin_region :: region_id
  geo_origin_node :: cluster_node_id
  geo_value :: bytes

definition geo_to_record :: "geo_write \<Rightarrow> replicated_value_record" where
  "geo_to_record w = record_value (geo_partition w) (geo_version w) (geo_epoch w) (geo_value w)"

record geo_write_ack =
  ack_watermark :: write_watermark
  ack_crossed_wan :: bool
  ack_replication_targets :: "region_id list"

record active_active_state =
  st_config :: active_active_config
  st_local_region :: region_id
  st_local_node :: cluster_node_id
  st_partition_count :: u32
  st_epoch :: cluster_epoch
  st_next_version :: value_version
  st_clock :: hybrid_logical_clock
  st_peers :: "region_id list"
  st_records :: "(string, replicated_value_record) btmap"
  st_writes :: "(string, geo_write) btmap"
  st_pending :: "geo_write list"

definition aa_new :: "active_active_config \<Rightarrow> region_id \<Rightarrow> cluster_node_id \<Rightarrow> u32 \<Rightarrow> cluster_epoch \<Rightarrow> region_id list
    \<Rightarrow> active_active_state" where
  "aa_new config local_region local_node partition_count epoch peers =
     \<lparr>st_config = config, st_local_region = local_region, st_local_node = local_node,
      st_partition_count = max partition_count 1, st_epoch = epoch, st_next_version = 1,
      st_clock = HybridLogicalClock 0 0, st_peers = peers, st_records = bt_empty, st_writes = bt_empty,
      st_pending = []\<rparr>"

definition replication_targets_for :: "region_id \<Rightarrow> active_active_state \<Rightarrow> region_id list" where
  "replication_targets_for origin s =
     (let home = authority_home (aa_authority (st_config s));
          targets = (if home \<noteq> origin then [home] else [])
      in fold (\<lambda>peer targets. if peer \<noteq> origin \<and> peer \<notin> set targets then targets @ [peer] else targets) (st_peers s) targets)"

definition accept_local_write :: "string \<Rightarrow> bytes \<Rightarrow> u64 \<Rightarrow> active_active_state
    \<Rightarrow> (active_active_config_error + geo_write_ack) \<times> active_active_state" where
  "accept_local_write key val observed_wall s =
     (if \<not> accepts_local_writes_in (aa_authority (st_config s)) (st_local_region s)
      then (Inl ''local region is not allowed to accept writes for this authority mode'', s)
      else if is_active_active (aa_authority (st_config s)) \<and> \<not> active_active_ready (st_config s)
      then (Inl ''active-active write refused without bounded-staleness acknowledgement'', s)
      else
        let p = partition_for_key key (st_partition_count s);
            version = st_next_version s;
            s = s\<lparr>st_next_version := sat_add (st_next_version s) 1\<rparr>;
            hlc = tick observed_wall (st_clock s);
            s = s\<lparr>st_clock := hlc\<rparr>;
            w = \<lparr>geo_key = key, geo_partition = p, geo_version = version, geo_epoch = st_epoch s, geo_hlc = hlc,
                  geo_origin_region = st_local_region s, geo_origin_node = st_local_node s, geo_value = val\<rparr>;
            s = s\<lparr>st_records := bt_insert key (geo_to_record w) (st_records s)\<rparr>;
            s = s\<lparr>st_writes := bt_insert (geo_key w) w (st_writes s)\<rparr>;
            targets = replication_targets_for (geo_origin_region w) s;
            s = (if is_active_active (aa_authority (st_config s)) then s\<lparr>st_pending := st_pending s @ [w]\<rparr> else s)
        in (Inr \<lparr>ack_watermark = \<lparr>wm_partition = p, wm_version = version, wm_epoch = st_epoch s\<rparr>,
              ack_crossed_wan = False, ack_replication_targets = targets\<rparr>, s))"

definition choose_hlc_tiebreak :: "geo_write \<Rightarrow> geo_write \<Rightarrow> geo_write" where
  "choose_hlc_tiebreak left right =
     (if (geo_version right, geo_epoch right) < (geo_version left, geo_epoch left) then left
      else if (geo_version left, geo_epoch left) < (geo_version right, geo_epoch right) then right
      else if (geo_hlc right, geo_origin_region right, geo_origin_node right)
           \<le> (geo_hlc left, geo_origin_region left, geo_origin_node left) then left else right)"

definition reconcile_remote :: "merge_policy \<Rightarrow> geo_write \<Rightarrow> active_active_state \<Rightarrow> active_active_state" where
  "reconcile_remote policy w s =
     (let s = s\<lparr>st_clock := observe (geo_hlc w) (hlc_wall (geo_hlc w)) (st_clock s)\<rparr>;
          key = geo_key w
      in case bt_get (st_writes s) key of
           Some existing \<Rightarrow>
             let winner = choose_hlc_tiebreak existing w
             in s\<lparr>st_records := bt_insert key (geo_to_record winner) (st_records s),
                  st_writes := bt_insert key winner (st_writes s)\<rparr>
         | None \<Rightarrow>
             let incoming = geo_to_record w;
                 merged = (case policy (bt_get (st_records s) key) incoming of Some r \<Rightarrow> r | None \<Rightarrow> incoming)
             in s\<lparr>st_records := bt_insert key merged (st_records s),
                  st_writes := bt_insert (geo_key w) w (st_writes s)\<rparr>)"

definition aa_record :: "string \<Rightarrow> active_active_state \<Rightarrow> replicated_value_record option" where
  "aa_record key s = bt_get (st_records s) key"

definition drain_pending :: "active_active_state \<Rightarrow> geo_write list \<times> active_active_state" where
  "drain_pending s = (st_pending s, s\<lparr>st_pending := []\<rparr>)"

definition intra_region_read_your_writes_holds :: "write_watermark \<Rightarrow> usize \<Rightarrow> active_active_state \<Rightarrow> bool" where
  "intra_region_read_your_writes_holds wm quorum s \<longleftrightarrow>
     (let replicas = filter (\<lambda>r. rec_partition r = wm_partition wm) (bt_values (st_records s))
      in \<not> qr_requires_primary_fallback (quorum_read_your_writes wm replicas quorum))"

section \<open>The tie break\<close>

definition geo_stamp :: "geo_write \<Rightarrow> (value_version \<times> cluster_epoch) \<times> hybrid_logical_clock \<times> region_id \<times> cluster_node_id" where
  "geo_stamp w = ((geo_version w, geo_epoch w), (geo_hlc w, geo_origin_region w, geo_origin_node w))"

lemma choose_by_stamp: "choose_hlc_tiebreak a b = (if geo_stamp b \<le> geo_stamp a then a else b)"
  by (auto simp: choose_hlc_tiebreak_def geo_stamp_def less_eq_prod_simp less_prod_simp)

lemma choose_stamp: "geo_stamp (choose_hlc_tiebreak a b) = max (geo_stamp a) (geo_stamp b)"
  by (auto simp: choose_by_stamp max_def)

interpretation geo: convergent "\<lambda>w. geo_key w = k \<and> w = f (geo_stamp w)" choose_hlc_tiebreak for k f
proof unfold_locales
  fix a b c
  let ?ok = "\<lambda>w. geo_key w = k \<and> w = f (geo_stamp w)"
  show valid: "?ok a \<Longrightarrow> ?ok b \<Longrightarrow> ?ok (choose_hlc_tiebreak a b)" for a b
    by (simp add: choose_by_stamp)
  have eq: "a = b" if "?ok a" "?ok b" "geo_stamp a = geo_stamp b" for a b
    using that by metis
  show "?ok a \<Longrightarrow> choose_hlc_tiebreak a a = a" by (simp add: choose_by_stamp)
  show "?ok a \<Longrightarrow> ?ok b \<Longrightarrow> choose_hlc_tiebreak a b = choose_hlc_tiebreak b a"
    by (intro eq valid) (simp_all add: choose_stamp max.commute)
  show "?ok a \<Longrightarrow> ?ok b \<Longrightarrow> ?ok c
    \<Longrightarrow> choose_hlc_tiebreak (choose_hlc_tiebreak a b) c = choose_hlc_tiebreak a (choose_hlc_tiebreak b c)"
    by (intro eq valid) (simp_all add: choose_stamp max.assoc)
qed

section \<open>The records of a region\<close>

definition aa_ok :: "active_active_state \<Rightarrow> bool" where
  "aa_ok s \<longleftrightarrow> bt_ok (st_records s) \<and> bt_ok (st_writes s) \<and> (\<forall>k w. bt_get (st_writes s) k = Some w \<longrightarrow> geo_key w = k)
     \<and> (\<forall>k. bt_get (st_records s) k = map_option geo_to_record (bt_get (st_writes s) k))"

definition takes_first :: "merge_policy \<Rightarrow> bool" where
  "takes_first policy \<longleftrightarrow> (\<forall>r. policy None r = None \<or> policy None r = Some r)"

lemma policies_take_first: "takes_first higher_version_wins" "takes_first put_if_absent" "takes_first discard_loser"
  by (simp_all add: takes_first_def higher_version_wins_def put_if_absent_def discard_loser_def)

lemma aa_ok_new: "aa_ok (aa_new c r n pc e ps)"
  by (simp add: aa_ok_def aa_new_def)

lemma choose_key: "geo_key a = k \<Longrightarrow> geo_key b = k \<Longrightarrow> geo_key (choose_hlc_tiebreak a b) = k"
  by (simp add: choose_by_stamp)

lemma accept_ok: "aa_ok s \<Longrightarrow> aa_ok (snd (accept_local_write key val wall s))"
  by (auto simp: aa_ok_def accept_local_write_def Let_def)

lemma reconcile_ok:
  assumes "takes_first policy" "aa_ok s"
  shows "aa_ok (reconcile_remote policy w s)"
proof (cases "bt_get (st_writes s) (geo_key w)")
  case None
  with assms(2) have "bt_get (st_records s) (geo_key w) = None" by (simp add: aa_ok_def)
  moreover have "policy None (geo_to_record w) = None \<or> policy None (geo_to_record w) = Some (geo_to_record w)"
    using assms(1) by (simp add: takes_first_def)
  ultimately show ?thesis
    using None assms(2) by (auto simp: aa_ok_def reconcile_remote_def Let_def split: option.splits)
next
  case (Some v)
  with assms(2) show ?thesis by (auto simp: aa_ok_def reconcile_remote_def Let_def choose_key)
qed

lemma reconcile_writes:
  "bt_get (st_writes (reconcile_remote policy w s)) k =
    (if geo_key w = k then Some (case bt_get (st_writes s) k of Some v \<Rightarrow> choose_hlc_tiebreak v w | None \<Rightarrow> w)
     else bt_get (st_writes s) k)"
  by (auto simp: reconcile_remote_def Let_def split: option.splits)

definition reconcile_all :: "merge_policy \<Rightarrow> geo_write list \<Rightarrow> active_active_state \<Rightarrow> active_active_state" where
  "reconcile_all policy ws s = fold (reconcile_remote policy) ws s"

lemma reconcile_all_ok: "takes_first policy \<Longrightarrow> aa_ok s \<Longrightarrow> aa_ok (reconcile_all policy ws s)"
  unfolding reconcile_all_def by (induction ws arbitrary: s) (auto intro: reconcile_ok)

definition known_writes :: "geo_write list \<Rightarrow> active_active_state \<Rightarrow> string \<Rightarrow> geo_write list" where
  "known_writes ws s k = (case bt_get (st_writes s) k of Some v \<Rightarrow> [v] | None \<Rightarrow> []) @ filter (\<lambda>w. geo_key w = k) ws"

lemma reconcile_all_writes:
  "bt_get (st_writes (reconcile_all policy ws s)) k =
    (case known_writes ws s k of [] \<Rightarrow> None | v # vs \<Rightarrow> Some (foldl choose_hlc_tiebreak v vs))"
  unfolding reconcile_all_def known_writes_def
  by (induction ws arbitrary: s) (auto simp: reconcile_writes split: option.splits list.splits)

lemma known_writes_key: "aa_ok s \<Longrightarrow> w \<in> set (known_writes ws s k) \<Longrightarrow> geo_key w = k"
  by (auto simp: known_writes_def aa_ok_def split: option.splits)

text \<open>
  C18. Regions that know the same writes have the same records. Take two regions, each with the writes it holds, and let
  each reconcile the writes of the others, in any order, with repetitions and with any of the merge policies. If for every key
  the writes that a region held or received are the same ones on both sides, the records of the two regions are
  equal. No two writes of one key may carry the same version, epoch, timestamp, region and node.
\<close>
theorem regions_converge:
  assumes "aa_ok s" "aa_ok t" "takes_first p" "takes_first q"
    and "\<And>k. set (known_writes ws s k) = set (known_writes vs t k)"
    and "\<And>k w. w \<in> set (known_writes ws s k) \<Longrightarrow> w = f k (geo_stamp w)"
  shows "st_records (reconcile_all p ws s) = st_records (reconcile_all q vs t)"
proof -
  have "bt_get (st_writes (reconcile_all p ws s)) k = bt_get (st_writes (reconcile_all q vs t)) k" for k
  proof (cases "known_writes ws s k")
    case Nil
    then show ?thesis using assms(5) [of k] by (simp add: reconcile_all_writes)
  next
    case (Cons a as)
    then obtain b bs where bs: "known_writes vs t k = b # bs"
      using assms(5) [of k] by (cases "known_writes vs t k") auto
    have eq: "insert a (set as) = insert b (set bs)" using assms(5) [of k] Cons bs by simp
    have ok: "geo_key w = k \<and> w = f k (geo_stamp w)" if "w \<in> insert a (set as)" for w
      using that Cons known_writes_key [OF assms(1), of w ws k] assms(6) [of w k] by auto
    have "foldl choose_hlc_tiebreak a as = foldl choose_hlc_tiebreak b bs"
      by (rule geo.meet [where k = k and f = "f k"]) (use ok eq in auto)
    with Cons bs show ?thesis by (simp add: reconcile_all_writes)
  qed
  with reconcile_all_ok [OF assms(3,1), of ws] reconcile_all_ok [OF assms(4,2), of vs] show ?thesis
    by (intro bt_eqI) (auto simp: aa_ok_def)
qed

text \<open>Two regions for the examples: the home region and a peer.\<close>

definition sample_region :: "region_id \<Rightarrow> region_id \<Rightarrow> active_active_state" where
  "sample_region r peer = aa_new \<lparr>aa_authority = ActiveActive ''eu'', aa_acknowledgement = BoundedStalenessAccepted\<rparr>
     r r 16 1 [peer]"

definition wrote :: "bytes \<Rightarrow> u64 \<Rightarrow> active_active_state \<Rightarrow> active_active_state" where
  "wrote val wall s = snd (accept_local_write ''k'' val wall s)"

definition sent :: "active_active_state \<Rightarrow> geo_write list" where
  "sent s = fst (drain_pending s)"

lemmas sample_defs = sample_region_def wrote_def sent_def aa_new_def accept_local_write_def active_active_ready_def
  drain_pending_def known_writes_def tick_def Let_def bt_empty_def

theorem regions_converge_witness:
  "let eu = wrote [1] 5 (sample_region ''eu'' ''us''); us = wrote [2] 5 (sample_region ''us'' ''eu'') in
   st_records (reconcile_all higher_version_wins (sent us) eu) = st_records (reconcile_all put_if_absent (sent eu) us)"
proof -
  define eu where "eu = wrote [1] 5 (sample_region ''eu'' ''us'')"
  define us where "us = wrote [2] 5 (sample_region ''us'' ''eu'')"
  obtain a where a: "st_writes eu = [(''k'', a)]" "sent eu = [a]" "geo_key a = ''k''" "geo_origin_region a = ''eu''"
    by (simp add: eu_def sample_defs)
  obtain b where b: "st_writes us = [(''k'', b)]" "sent us = [b]" "geo_key b = ''k''" "geo_origin_region b = ''us''"
    by (simp add: us_def sample_defs)
  let ?f = "\<lambda>k stamp. if fst (snd (snd stamp)) = ''eu'' then a else b"
  have "st_records (reconcile_all higher_version_wins (sent us) eu) = st_records (reconcile_all put_if_absent (sent eu) us)"
  proof (rule regions_converge [where f = ?f])
    show "aa_ok eu" "aa_ok us"
      by (simp_all add: eu_def us_def wrote_def sample_region_def accept_ok aa_ok_new)
    show "set (known_writes (sent us) eu k) = set (known_writes (sent eu) us k)" for k
      by (auto simp: known_writes_def a b)
    show "w = ?f k (geo_stamp w)" if "w \<in> set (known_writes (sent us) eu k)" for k w
      using that by (auto simp: known_writes_def a b geo_stamp_def split: if_splits)
  qed (simp_all add: policies_take_first)
  then show ?thesis by (simp add: eu_def us_def Let_def)
qed

section \<open>A local write after reconciliation\<close>

lemma reconcile_all_next_version: "st_next_version (reconcile_all policy ws s) = st_next_version s"
  unfolding reconcile_all_def
  by (induction ws arbitrary: s) (auto simp: reconcile_remote_def Let_def split: option.splits)

lemma reconcile_all_config: "st_config (reconcile_all policy ws s) = st_config s"
  unfolding reconcile_all_def
  by (induction ws arbitrary: s) (auto simp: reconcile_remote_def Let_def split: option.splits)

lemma reconcile_all_pending: "st_pending (reconcile_all policy ws s) = st_pending s"
  unfolding reconcile_all_def
  by (induction ws arbitrary: s) (auto simp: reconcile_remote_def Let_def split: option.splits)

lemma accept_ready:
  assumes "active_active_ready (st_config s)" "bt_ok (st_records s)"
  shows "\<exists>ack m. fst (accept_local_write key val wall s) = Inr ack
    \<and> st_pending (snd (accept_local_write key val wall s)) = st_pending s @ [m]
    \<and> aa_record key (snd (accept_local_write key val wall s)) = Some (geo_to_record m)
    \<and> geo_key m = key \<and> geo_value m = val \<and> geo_version m = st_next_version s"
  using assms
  by (cases "aa_authority (st_config s)") (auto simp: accept_local_write_def active_active_ready_def Let_def aa_record_def)

lemma reconcile_record:
  assumes "aa_ok s" "bt_get (st_writes s) (geo_key m) = Some w"
  shows "aa_record (geo_key m) (reconcile_remote policy m s) = Some (geo_to_record (choose_hlc_tiebreak w m))"
  using assms by (simp add: reconcile_remote_def aa_record_def Let_def aa_ok_def)

lemma geo_record_version [simp]: "rec_version (geo_to_record w) = geo_version w"
  by (simp add: geo_to_record_def record_value_def)

text \<open>
  C40. A local write can break the agreement of two regions on a key, and a local counter decides it.
  Let a peer reconcile any writes, so that it holds the same write of a key as the home region, and then accept a
  write of that key, which always succeeds and shows at once. The new write carries the peer's own version counter, which the reconciled
  writes did not advance. If the counter is above the version both regions hold, the home region
  takes the new write and the two records are equal. If it is below, the home region keeps its record, queues nothing
  to send, and the two regions differ although every write was exchanged.
\<close>
theorem late_local_write_diverges:
  assumes "aa_ok home" "aa_ok peer" "takes_first p" "active_active_ready (st_config peer)"
    and "bt_get (st_writes home) key = Some w" "bt_get (st_writes (reconcile_all p ws peer)) key = Some w"
    and "accept_local_write key val wall (reconcile_all p ws peer) = (r, peer')"
  shows "aa_record key home = aa_record key (reconcile_all p ws peer)
    \<and> (\<exists>ack m. r = Inr ack \<and> st_pending peer' = st_pending peer @ [m]
      \<and> aa_record key peer' = Some (geo_to_record m) \<and> geo_value m = val \<and> geo_version m = st_next_version peer
      \<and> st_pending (reconcile_remote q m home) = st_pending home
      \<and> (geo_version w < st_next_version peer
          \<longrightarrow> aa_record key (reconcile_remote q m home) = aa_record key peer')
      \<and> (st_next_version peer < geo_version w
          \<longrightarrow> aa_record key (reconcile_remote q m home) = aa_record key home
            \<and> aa_record key (reconcile_remote q m home) \<noteq> aa_record key peer'))"
proof -
  let ?us = "reconcile_all p ws peer"
  have ok: "aa_ok ?us" by (rule reconcile_all_ok) fact+
  have ready: "active_active_ready (st_config ?us)" using assms(4) by (simp add: reconcile_all_config)
  have home: "aa_record key home = Some (geo_to_record w)" and us: "aa_record key ?us = Some (geo_to_record w)"
    using assms(1,5,6) ok by (simp_all add: aa_ok_def aa_record_def)
  obtain ack m where m: "r = Inr ack" "st_pending peer' = st_pending peer @ [m]"
      "aa_record key peer' = Some (geo_to_record m)" "geo_key m = key" "geo_value m = val"
      "geo_version m = st_next_version peer"
    using accept_ready [OF ready, of key val wall] ok assms(7)
    by (auto simp: aa_ok_def reconcile_all_next_version reconcile_all_pending)
  have rec: "aa_record key (reconcile_remote q m home) = Some (geo_to_record (choose_hlc_tiebreak w m))"
    using reconcile_record [OF assms(1), of m w q] assms(5) m(4) by simp
  have wins: "choose_hlc_tiebreak w m = m" if "geo_version w < geo_version m"
    using that by (auto simp: choose_hlc_tiebreak_def less_prod_simp)
  have loses: "choose_hlc_tiebreak w m = w" if "geo_version m < geo_version w"
    using that by (simp add: choose_hlc_tiebreak_def less_prod_simp)
  have differ: "geo_to_record w \<noteq> geo_to_record m" if "geo_version m < geo_version w"
    using that by (metis geo_record_version less_irrefl)
  have "st_pending (reconcile_remote q m home) = st_pending home"
    using reconcile_all_pending [of q "[m]" home] by (simp add: reconcile_all_def)
  with home us m rec wins loses differ show ?thesis by (metis option.inject)
qed

theorem late_local_write_diverges_witness:
  "let eu = wrote [2] 6 (wrote [1] 5 (sample_region ''eu'' ''us''));
       us = reconcile_all higher_version_wins (sent eu) (sample_region ''us'' ''eu'') in
   aa_record ''k'' eu = aa_record ''k'' us
   \<and> (\<exists>m. sent (wrote [3] 9 us) = [m] \<and> aa_record ''k'' (reconcile_remote higher_version_wins m eu) = aa_record ''k'' eu
        \<and> aa_record ''k'' (reconcile_remote higher_version_wins m eu) \<noteq> aa_record ''k'' (wrote [3] 9 us))"
proof -
  define eu where "eu = wrote [2] 6 (wrote [1] 5 (sample_region ''eu'' ''us''))"
  define us where "us = reconcile_all higher_version_wins (sent eu) (sample_region ''us'' ''eu'')"
  have ok: "aa_ok eu" "aa_ok (sample_region ''us'' ''eu'')"
    by (simp_all add: eu_def wrote_def sample_region_def accept_ok aa_ok_new)
  have ready: "active_active_ready (st_config (sample_region ''us'' ''eu''))" by code_simp
  define w where "w = the (bt_get (st_writes eu) ''k'')"
  have w: "bt_get (st_writes eu) ''k'' = Some w" "bt_get (st_writes us) ''k'' = Some w"
      "st_next_version (sample_region ''us'' ''eu'') < geo_version w" "st_pending (sample_region ''us'' ''eu'') = []"
    unfolding us_def w_def eu_def by code_simp+
  obtain r us' where us': "accept_local_write ''k'' [3] 9 us = (r, us')" by force
  have eq: "wrote [3] 9 us = us'" by (simp add: wrote_def us')
  from late_local_write_diverges [OF ok policies_take_first(1) ready w(1) w(2) [unfolded us_def] us' [unfolded us_def], where q = higher_version_wins]
  have "aa_record ''k'' eu = aa_record ''k'' us
   \<and> (\<exists>m. sent us' = [m] \<and> aa_record ''k'' (reconcile_remote higher_version_wins m eu) = aa_record ''k'' eu
        \<and> aa_record ''k'' (reconcile_remote higher_version_wins m eu) \<noteq> aa_record ''k'' us')"
    using w(3,4) unfolding us_def [symmetric] by (auto simp: sent_def drain_pending_def)
  then show ?thesis unfolding Let_def eu_def [symmetric] us_def [symmetric] eq .
qed

end
