(* ===== verification/Conditional_Store.thy ===== *)
theory Conditional_Store
  imports Consistency_Level
begin

text \<open>
  The single-key conditional store (\<open>grid/conditional.rs\<close>) with the heartbeats of the sessions that own its
  locks (\<open>grid/lock_session.rs\<close>): compare-and-set on versioned records, fenced locks with leases, and the collection of
  tombstones below a prefix that all replicas have applied.
\<close>

type_synonym session_id = string
type_synonym logical_time = u64
type_synonym logical_duration = u64

section \<open>Session heartbeats\<close>

type_synonym session_heartbeats = "(session_id, logical_time) btmap"

definition hb_record :: "session_id \<Rightarrow> logical_time \<Rightarrow> session_heartbeats \<Rightarrow> session_heartbeats" where
  "hb_record session now hb = bt_insert session now hb"

definition hb_string_bytes :: "session_heartbeats \<Rightarrow> usize" where
  "hb_string_bytes hb = sum_list (map length (bt_keys hb))"

definition hb_silent :: "logical_time \<Rightarrow> logical_duration \<Rightarrow> logical_time \<Rightarrow> bool" where
  "hb_silent now max_silence last_seen \<longleftrightarrow> max_silence < sat_sub now last_seen"

definition hb_is_lost :: "session_id \<Rightarrow> logical_time \<Rightarrow> logical_duration \<Rightarrow> session_heartbeats \<Rightarrow> bool" where
  "hb_is_lost session now max_silence hb \<longleftrightarrow>
     (case bt_get hb session of Some last_seen \<Rightarrow> hb_silent now max_silence last_seen | None \<Rightarrow> True)"

definition lost_sessions :: "logical_time \<Rightarrow> logical_duration \<Rightarrow> session_heartbeats \<Rightarrow> session_id list" where
  "lost_sessions now max_silence hb = map fst (filter (\<lambda>(_, last_seen). hb_silent now max_silence last_seen) hb)"

section \<open>Data\<close>

datatype cas_result = CasApplied value_version | CasMismatch "bytes option"

type_synonym fence_token = u64

record lock_owner =
  owner_session :: session_id
  owner_endpoint :: u64

datatype conditional_error =
    WeakConsistency consistency_level
  | MultiKeyRejected usize
  | StaleFenceToken "fence_token option" fence_token
  | LockNotHeld
  | LeaseExpired string "fence_token option"
  | NotOwner string "lock_owner option"
  | ReentrancyLimit string u32

record conditional_metrics =
  cas_applied_total :: u64
  cas_mismatch_total :: u64
  lock_acquired_total :: u64
  lock_stale_token_rejected_total :: u64
  lock_lease_expired_total :: u64
  lock_not_owner_rejected_total :: u64
  lock_lease_renewed_total :: u64
  lock_reentrancy_limit_rejected_total :: u64
  tombstone_gc_reclaimed_total :: u64
  tombstone_gc_stale_record_rejected_total :: u64

record conditional_retained_state =
  ret_records :: usize
  ret_live_records :: usize
  ret_tombstones :: usize
  ret_locks :: usize
  ret_session_heartbeats :: usize
  ret_tombstone_gc_watermarks :: usize
  ret_identity_bytes :: usize

datatype replicated_record_apply = RecordApplied | IgnoredStale | RejectedBelowGcWatermark

record replica_applied_prefix =
  ap_replica :: cluster_node_id
  ap_partition :: partition_id
  ap_version :: value_version
  ap_epoch :: cluster_epoch

record tombstone_gc_watermark =
  gw_partition :: partition_id
  gw_version :: value_version
  gw_epoch :: cluster_epoch
  gw_replica_count :: usize

datatype tombstone_gc_error =
    EmptyReplicaSet
  | MissingReplica cluster_node_id
  | UnexpectedReplica cluster_node_id
  | DuplicateReplica cluster_node_id
  | ProgressPartitionMismatch cluster_node_id partition_id partition_id
  | ProgressEpochMismatch cluster_node_id cluster_epoch cluster_epoch
  | StoreEpochMismatch cluster_epoch cluster_epoch
  | PartitionOutOfRange partition_id u32
  | WatermarkRegression partition_id value_version value_version
  | RecordPartitionMismatch partition_id partition_id

definition progress_step :: "cluster_node_id set \<Rightarrow> (cluster_node_id, replica_applied_prefix) btmap \<Rightarrow> replica_applied_prefix
    \<Rightarrow> tombstone_gc_error + (cluster_node_id, replica_applied_prefix) btmap" where
  "progress_step replicas by_replica p =
     (if ap_replica p \<notin> replicas then Inl (UnexpectedReplica (ap_replica p))
      else if bt_get by_replica (ap_replica p) \<noteq> None then Inl (DuplicateReplica (ap_replica p))
      else Inr (bt_insert (ap_replica p) p by_replica))"

definition safe_version_step :: "partition_id \<Rightarrow> cluster_epoch \<Rightarrow> (cluster_node_id, replica_applied_prefix) btmap
    \<Rightarrow> value_version \<Rightarrow> cluster_node_id \<Rightarrow> tombstone_gc_error + value_version" where
  "safe_version_step part epoch by_replica safe replica =
     (case bt_get by_replica replica of
        None \<Rightarrow> Inl (MissingReplica replica)
      | Some p \<Rightarrow>
          if ap_partition p \<noteq> part then Inl (ProgressPartitionMismatch replica part (ap_partition p))
          else if ap_epoch p \<noteq> epoch then Inl (ProgressEpochMismatch replica epoch (ap_epoch p))
          else Inr (min safe (ap_version p)))"

definition from_all_replicas :: "partition_id \<Rightarrow> cluster_epoch \<Rightarrow> cluster_node_id list \<Rightarrow> replica_applied_prefix list
    \<Rightarrow> tombstone_gc_error + tombstone_gc_watermark" where
  "from_all_replicas part epoch replica_list progress =
     (let replicas = set replica_list in
      if replicas = {} then Inl EmptyReplicaSet
      else result_bind (try_fold (progress_step replicas) bt_empty progress) (\<lambda>by_replica.
           result_bind (try_fold (safe_version_step part epoch by_replica) (- 1) (sorted_list_of_set replicas)) (\<lambda>safe.
           Inr \<lparr>gw_partition = part, gw_version = safe, gw_epoch = epoch, gw_replica_count = card replicas\<rparr>)))"

record lock_hold =
  hold_owner :: lock_owner
  hold_fence :: fence_token
  hold_holds :: u32
  hold_lease_deadline :: logical_time

definition expired_at :: "logical_time \<Rightarrow> lock_hold \<Rightarrow> bool" where
  "expired_at now h \<longleftrightarrow> hold_lease_deadline h \<le> now"

record conditional_store =
  cs_records :: "(string, replicated_value_record) btmap"
  cs_watermarks :: "(partition_id, tombstone_gc_watermark) btmap"
  cs_locks :: "(string, lock_hold) btmap"
  cs_heartbeats :: session_heartbeats
  cs_next_version :: value_version
  cs_next_fence :: u64
  cs_epoch :: cluster_epoch
  cs_partition_count :: u32
  cs_metrics :: conditional_metrics
  cs_acquire_limit :: "u32 option"

definition cond_metrics_default :: conditional_metrics where
  "cond_metrics_default = \<lparr>cas_applied_total = 0, cas_mismatch_total = 0, lock_acquired_total = 0,
     lock_stale_token_rejected_total = 0, lock_lease_expired_total = 0, lock_not_owner_rejected_total = 0,
     lock_lease_renewed_total = 0, lock_reentrancy_limit_rejected_total = 0, tombstone_gc_reclaimed_total = 0,
     tombstone_gc_stale_record_rejected_total = 0\<rparr>"

definition cond_new :: "cluster_epoch \<Rightarrow> u32 \<Rightarrow> conditional_store" where
  "cond_new epoch partition_count =
     \<lparr>cs_records = bt_empty, cs_watermarks = bt_empty, cs_locks = bt_empty, cs_heartbeats = bt_empty,
      cs_next_version = 1, cs_next_fence = 1, cs_epoch = epoch, cs_partition_count = max partition_count 1,
      cs_metrics = cond_metrics_default, cs_acquire_limit = None\<rparr>"

definition with_lock_acquire_limit :: "u32 option \<Rightarrow> conditional_store \<Rightarrow> conditional_store" where
  "with_lock_acquire_limit limit s = s\<lparr>cs_acquire_limit := limit\<rparr>"

text \<open>One saturating step of a counter, given the update function of its field.\<close>

definition count_metric :: "((u64 \<Rightarrow> u64) \<Rightarrow> conditional_metrics \<Rightarrow> conditional_metrics) \<Rightarrow> conditional_store
    \<Rightarrow> conditional_store" where
  "count_metric field s = s\<lparr>cs_metrics := field (\<lambda>n. sat_add n 1) (cs_metrics s)\<rparr>"

definition current_bytes :: "replicated_value_record \<Rightarrow> bytes option" where
  "current_bytes r = (case rec_state r of SlotValue val _ \<Rightarrow> Some val | SlotTombstone _ _ \<Rightarrow> None)"

definition retained_state :: "conditional_store \<Rightarrow> conditional_retained_state" where
  "retained_state s =
     (let live = length (filter (\<lambda>r. current_bytes r \<noteq> None) (bt_values (cs_records s))) in
      \<lparr>ret_records = length (cs_records s), ret_live_records = live,
       ret_tombstones = length (cs_records s) - live, ret_locks = length (cs_locks s),
       ret_session_heartbeats = length (cs_heartbeats s),
       ret_tombstone_gc_watermarks = length (cs_watermarks s),
       ret_identity_bytes = sum_list (map length (bt_keys (cs_records s))) + sum_list (map length (bt_keys (cs_locks s)))
         + hb_string_bytes (cs_heartbeats s)\<rparr>)"

definition clear_for_diagnostic_reset :: "conditional_store \<Rightarrow> conditional_retained_state \<times> conditional_store" where
  "clear_for_diagnostic_reset s =
     (retained_state s,
      s\<lparr>cs_records := bt_empty, cs_watermarks := bt_empty, cs_locks := bt_empty, cs_heartbeats := bt_empty,
        cs_next_version := sat_add (cs_next_version s) 1, cs_next_fence := sat_add (cs_next_fence s) 1\<rparr>)"

definition current_value :: "string \<Rightarrow> conditional_store \<Rightarrow> bytes option" where
  "current_value key s = (case bt_get (cs_records s) key of Some r \<Rightarrow> current_bytes r | None \<Rightarrow> None)"

definition is_locked_by :: "string \<Rightarrow> lock_owner \<Rightarrow> conditional_store \<Rightarrow> bool" where
  "is_locked_by key owner s \<longleftrightarrow> (case bt_get (cs_locks s) key of Some h \<Rightarrow> hold_owner h = owner | None \<Rightarrow> False)"

definition current_fence :: "string \<Rightarrow> conditional_store \<Rightarrow> fence_token option" where
  "current_fence key s = map_option hold_fence (bt_get (cs_locks s) key)"

section \<open>Tombstones and replicated records\<close>

definition advance_tombstone_gc_watermark :: "tombstone_gc_watermark \<Rightarrow> conditional_store
    \<Rightarrow> (tombstone_gc_error + usize) \<times> conditional_store" where
  "advance_tombstone_gc_watermark w s =
     (if gw_epoch w \<noteq> cs_epoch s then (Inl (StoreEpochMismatch (cs_epoch s) (gw_epoch w)), s)
      else if cs_partition_count s \<le> gw_partition w
      then (Inl (PartitionOutOfRange (gw_partition w) (cs_partition_count s)), s)
      else
        let regression = (case bt_get (cs_watermarks s) (gw_partition w) of
              Some current \<Rightarrow> if gw_version w < gw_version current
                then Some (WatermarkRegression (gw_partition w) (gw_version current) (gw_version w)) else None
            | None \<Rightarrow> None)
        in case regression of
             Some e \<Rightarrow> (Inl e, s)
           | None \<Rightarrow>
               let s = s\<lparr>cs_next_version := max (cs_next_version s) (sat_add (gw_version w) 1),
                         cs_watermarks := bt_insert (gw_partition w) w (cs_watermarks s)\<rparr>;
                   before = length (cs_records s);
                   s = s\<lparr>cs_records := bt_retain (\<lambda>_ r. rec_partition r \<noteq> gw_partition w \<or> \<not> rec_is_tombstone r
                           \<or> (gw_version w, gw_epoch w) < rec_stamp r) (cs_records s)\<rparr>;
                   reclaimed = before - length (cs_records s)
               in (Inr reclaimed,
                   s\<lparr>cs_metrics := (cs_metrics s)\<lparr>tombstone_gc_reclaimed_total :=
                       sat_add (tombstone_gc_reclaimed_total (cs_metrics s)) (of_nat reclaimed)\<rparr>\<rparr>))"

definition below_watermark :: "replicated_value_record \<Rightarrow> conditional_store \<Rightarrow> bool" where
  "below_watermark r s \<longleftrightarrow> (case bt_get (cs_watermarks s) (rec_partition r) of
     Some w \<Rightarrow> rec_stamp r \<le> (gw_version w, gw_epoch w) | None \<Rightarrow> False)"

definition apply_replicated_record :: "string \<Rightarrow> replicated_value_record \<Rightarrow> conditional_store
    \<Rightarrow> (tombstone_gc_error + replicated_record_apply) \<times> conditional_store" where
  "apply_replicated_record key r s =
     (let expected = partition_for_key key (cs_partition_count s) in
      if rec_partition r \<noteq> expected then (Inl (RecordPartitionMismatch expected (rec_partition r)), s)
      else if below_watermark r s
      then (Inr RejectedBelowGcWatermark, count_metric tombstone_gc_stale_record_rejected_total_update s)
      else
        let s = s\<lparr>cs_next_version := max (cs_next_version s) (sat_add (rec_version r) 1)\<rparr>
        in case bt_get (cs_records s) key of
             Some current \<Rightarrow>
               let merged = rec_merge current r
               in if merged = current then (Inr IgnoredStale, s)
                  else (Inr RecordApplied, s\<lparr>cs_records := bt_insert key merged (cs_records s)\<rparr>)
           | None \<Rightarrow> (Inr RecordApplied, s\<lparr>cs_records := bt_insert key r (cs_records s)\<rparr>))"

definition apply_tombstone :: "string \<Rightarrow> value_version \<Rightarrow> conditional_store \<Rightarrow> conditional_store" where
  "apply_tombstone key version s =
     snd (apply_replicated_record key
       (record_tombstone (partition_for_key key (cs_partition_count s)) version (cs_epoch s) None) s)"

section \<open>Conditional writes\<close>

definition compare_and_set :: "string \<Rightarrow> bytes option \<Rightarrow> bytes \<Rightarrow> consistency_level \<Rightarrow> conditional_store
    \<Rightarrow> (conditional_error + cas_result) \<times> conditional_store" where
  "compare_and_set key expected new_value level s =
     (if \<not> allows_single_key_linearizable level then (Inl (WeakConsistency level), s)
      else
        let current = current_value key s in
        if current \<noteq> expected then (Inr (CasMismatch current), count_metric cas_mismatch_total_update s)
        else
          let version = cs_next_version s;
              s = s\<lparr>cs_next_version := sat_add (cs_next_version s) 1\<rparr>;
              r = record_value (partition_for_key key (cs_partition_count s)) version (cs_epoch s) new_value;
              s = s\<lparr>cs_records := bt_insert key r (cs_records s)\<rparr>
          in (Inr (CasApplied version), count_metric cas_applied_total_update s))"

definition cond_put_if_absent :: "string \<Rightarrow> bytes \<Rightarrow> consistency_level \<Rightarrow> conditional_store
    \<Rightarrow> (conditional_error + cas_result) \<times> conditional_store" where
  "cond_put_if_absent key val level s = compare_and_set key None val level s"

definition replace_if_present :: "string \<Rightarrow> bytes \<Rightarrow> consistency_level \<Rightarrow> conditional_store
    \<Rightarrow> (conditional_error + cas_result) \<times> conditional_store" where
  "replace_if_present key new_value level s =
     (if \<not> allows_single_key_linearizable level then (Inl (WeakConsistency level), s)
      else case current_value key s of
        None \<Rightarrow> (Inr (CasMismatch None), count_metric cas_mismatch_total_update s)
      | Some expected \<Rightarrow> compare_and_set key (Some expected) new_value level s)"

definition remove_if_value :: "string \<Rightarrow> bytes \<Rightarrow> consistency_level \<Rightarrow> conditional_store
    \<Rightarrow> (conditional_error + cas_result) \<times> conditional_store" where
  "remove_if_value key expected level s =
     (if \<not> allows_single_key_linearizable level then (Inl (WeakConsistency level), s)
      else
        let current = current_value key s in
        if current \<noteq> Some expected then (Inr (CasMismatch current), count_metric cas_mismatch_total_update s)
        else
          let version = cs_next_version s
          in (Inr (CasApplied version), count_metric cas_applied_total_update (apply_tombstone key version s)))"

definition reject_multi_key :: "string list \<Rightarrow> conditional_error + unit" where
  "reject_multi_key keys = (if length keys = 1 then Inr () else Inl (MultiKeyRejected (length keys)))"

section \<open>Fenced locks\<close>

definition remove_heartbeat_if_unused :: "session_id \<Rightarrow> conditional_store \<Rightarrow> conditional_store" where
  "remove_heartbeat_if_unused session s =
     (if list_ex (\<lambda>h. owner_session (hold_owner h) = session) (bt_values (cs_locks s)) then s
      else s\<lparr>cs_heartbeats := bt_remove session (cs_heartbeats s)\<rparr>)"

definition grant_lock :: "string \<Rightarrow> lock_owner \<Rightarrow> logical_duration \<Rightarrow> logical_time \<Rightarrow> session_id option \<Rightarrow> conditional_store
    \<Rightarrow> fence_token \<times> conditional_store" where
  "grant_lock key owner lease now replaced_session s =
     (let token = cs_next_fence s;
          s = s\<lparr>cs_next_fence := sat_add (cs_next_fence s) 1\<rparr>;
          s = s\<lparr>cs_heartbeats := hb_record (owner_session owner) now (cs_heartbeats s)\<rparr>;
          s = s\<lparr>cs_locks := bt_insert key \<lparr>hold_owner = owner, hold_fence = token, hold_holds = 1,
                  hold_lease_deadline = sat_add now lease\<rparr> (cs_locks s)\<rparr>;
          s = (case replaced_session of
                 Some replaced \<Rightarrow> if replaced \<noteq> owner_session owner then remove_heartbeat_if_unused replaced s else s
               | None \<Rightarrow> s)
      in (token, count_metric lock_acquired_total_update s))"

definition try_acquire_lock :: "string \<Rightarrow> consistency_level \<Rightarrow> lock_owner \<Rightarrow> logical_duration \<Rightarrow> logical_time \<Rightarrow> conditional_store
    \<Rightarrow> (conditional_error + fence_token option) \<times> conditional_store" where
  "try_acquire_lock key level owner lease now s =
     (if \<not> allows_single_key_linearizable level then (Inl (WeakConsistency level), s)
      else case bt_get (cs_locks s) key of
        Some h \<Rightarrow>
          if \<not> expired_at now h then
            if hold_owner h = owner then
              let next_holds = sat_add (hold_holds h) 1 in
              if (case cs_acquire_limit s of Some limit \<Rightarrow> limit < next_holds | None \<Rightarrow> False)
              then (Inl (ReentrancyLimit key (case cs_acquire_limit s of Some limit \<Rightarrow> limit | None \<Rightarrow> - 1)),
                    count_metric lock_reentrancy_limit_rejected_total_update s)
              else
                let h' = h\<lparr>hold_holds := next_holds,
                          hold_lease_deadline := max (hold_lease_deadline h) (sat_add now lease)\<rparr>;
                    s = s\<lparr>cs_locks := bt_insert key h' (cs_locks s),
                          cs_heartbeats := hb_record (owner_session owner) now (cs_heartbeats s)\<rparr>
                in (Inr (Some (hold_fence h)), count_metric lock_acquired_total_update s)
            else (Inr None, s)
          else
            (case grant_lock key owner lease now (Some (owner_session (hold_owner h)))
                    (count_metric lock_lease_expired_total_update s) of
               (token, s) \<Rightarrow> (Inr (Some token), s))
      | None \<Rightarrow> (case grant_lock key owner lease now None s of (token, s) \<Rightarrow> (Inr (Some token), s)))"

definition force_acquire_lock :: "string \<Rightarrow> consistency_level \<Rightarrow> lock_owner \<Rightarrow> logical_duration \<Rightarrow> logical_time \<Rightarrow> conditional_store
    \<Rightarrow> (conditional_error + fence_token) \<times> conditional_store" where
  "force_acquire_lock key level owner lease now s =
     (if \<not> allows_single_key_linearizable level then (Inl (WeakConsistency level), s)
      else
        case grant_lock key owner lease now (map_option (\<lambda>h. owner_session (hold_owner h)) (bt_get (cs_locks s) key)) s of
          (token, s) \<Rightarrow> (Inr token, s))"

definition renew_lease :: "string \<Rightarrow> lock_owner \<Rightarrow> fence_token \<Rightarrow> logical_time \<Rightarrow> conditional_store
    \<Rightarrow> (conditional_error + unit) \<times> conditional_store" where
  "renew_lease key owner token new_deadline s =
     (case bt_get (cs_locks s) key of
        None \<Rightarrow> (Inl (LeaseExpired key None), count_metric lock_stale_token_rejected_total_update s)
      | Some h \<Rightarrow>
          if hold_owner h \<noteq> owner
          then (Inl (NotOwner key (Some (hold_owner h))), count_metric lock_not_owner_rejected_total_update s)
          else if hold_fence h \<noteq> token
          then (Inl (StaleFenceToken (Some (hold_fence h)) token), count_metric lock_stale_token_rejected_total_update s)
          else
            let s = s\<lparr>cs_locks := bt_insert key (h\<lparr>hold_lease_deadline := new_deadline\<rparr>) (cs_locks s),
                      cs_heartbeats := hb_record (owner_session owner) new_deadline (cs_heartbeats s)\<rparr>
            in (Inr (), count_metric lock_lease_renewed_total_update s))"

definition record_session_heartbeat :: "session_id \<Rightarrow> logical_time \<Rightarrow> conditional_store \<Rightarrow> conditional_store" where
  "record_session_heartbeat session now s = s\<lparr>cs_heartbeats := hb_record session now (cs_heartbeats s)\<rparr>"

definition expire_key :: "string \<Rightarrow> conditional_store \<times> session_id list \<times> usize \<Rightarrow> conditional_store \<times> session_id list \<times> usize" where
  "expire_key key = (\<lambda>(s, released, expired).
     case bt_get (cs_locks s) key of
       Some removed \<Rightarrow>
         (count_metric lock_lease_expired_total_update
            (s\<lparr>cs_locks := bt_remove key (cs_locks s), cs_next_fence := sat_add (cs_next_fence s) 1\<rparr>),
          released @ [owner_session (hold_owner removed)], usize_sat_add expired 1)
     | None \<Rightarrow> (s, released, expired))"

definition expire_keys :: "string list \<Rightarrow> conditional_store \<Rightarrow> usize \<times> conditional_store" where
  "expire_keys keys s =
     (case fold expire_key keys (s, [], 0) of
        (s, released, expired) \<Rightarrow> (expired, fold remove_heartbeat_if_unused released s))"

definition expire_due :: "logical_time \<Rightarrow> conditional_store \<Rightarrow> usize \<times> conditional_store" where
  "expire_due now s = expire_keys (map fst (filter (\<lambda>(_, h). expired_at now h) (cs_locks s))) s"

definition expire_lost_sessions :: "logical_time \<Rightarrow> logical_duration \<Rightarrow> conditional_store \<Rightarrow> usize \<times> conditional_store" where
  "expire_lost_sessions now max_silence s =
     (let lost = lost_sessions now max_silence (cs_heartbeats s);
          (expired_count, s) =
            expire_keys (map fst (filter (\<lambda>(_, h). owner_session (hold_owner h) \<in> set lost) (cs_locks s))) s
      in (expired_count, fold (\<lambda>session s. s\<lparr>cs_heartbeats := bt_remove session (cs_heartbeats s)\<rparr>) lost s))"

definition release_lock :: "string \<Rightarrow> lock_owner \<Rightarrow> fence_token \<Rightarrow> conditional_store
    \<Rightarrow> (conditional_error + unit) \<times> conditional_store" where
  "release_lock key owner token s =
     (case bt_get (cs_locks s) key of
        None \<Rightarrow> (Inl (StaleFenceToken None token), count_metric lock_stale_token_rejected_total_update s)
      | Some h \<Rightarrow>
          if hold_owner h \<noteq> owner
          then (Inl (NotOwner key (Some (hold_owner h))), count_metric lock_not_owner_rejected_total_update s)
          else if hold_fence h \<noteq> token
          then (Inl (StaleFenceToken (Some (hold_fence h)) token), count_metric lock_stale_token_rejected_total_update s)
          else if 1 < hold_holds h
          then (Inr (), s\<lparr>cs_locks := bt_insert key (h\<lparr>hold_holds := sat_sub (hold_holds h) 1\<rparr>) (cs_locks s)\<rparr>)
          else (Inr (), remove_heartbeat_if_unused (owner_session (hold_owner h))
                  (s\<lparr>cs_locks := bt_remove key (cs_locks s)\<rparr>)))"

definition force_unlock :: "string \<Rightarrow> conditional_store \<Rightarrow> fence_token option \<times> conditional_store" where
  "force_unlock key s =
     (case bt_get (cs_locks s) key of
        Some removed \<Rightarrow>
          let s = remove_heartbeat_if_unused (owner_session (hold_owner removed)) (s\<lparr>cs_locks := bt_remove key (cs_locks s)\<rparr>)
          in (Some (cs_next_fence s), s\<lparr>cs_next_fence := sat_add (cs_next_fence s) 1\<rparr>)
      | None \<Rightarrow> (None, s))"

definition validate_fence_token :: "string \<Rightarrow> fence_token \<Rightarrow> conditional_store \<Rightarrow> (conditional_error + unit) \<times> conditional_store" where
  "validate_fence_token key token s =
     (let current = current_fence key s
      in if current = Some token then (Inr (), s)
         else (Inl (StaleFenceToken current token), count_metric lock_stale_token_rejected_total_update s))"

end
