(* ===== verification/Conditional_Props.thy ===== *)
theory Conditional_Props
  imports Conditional_Store
begin

text \<open>
  Properties of the conditional store: the refinement of the conditional writes by operations on a map, fencing and
  exclusion of the locks, and deletes that stay deleted when their tombstones are collected.
\<close>

section \<open>Histories\<close>

datatype cond_op =
    OpCas string "bytes option" bytes consistency_level
  | OpReplace string bytes consistency_level
  | OpRemove string bytes consistency_level
  | OpApply string replicated_value_record
  | OpGc tombstone_gc_watermark
  | OpReset
  | OpAcquire string consistency_level lock_owner logical_duration logical_time
  | OpForceAcquire string consistency_level lock_owner logical_duration logical_time
  | OpRenew string lock_owner fence_token logical_time
  | OpHeartbeat session_id logical_time
  | OpExpireDue logical_time
  | OpExpireLost logical_time logical_duration
  | OpRelease string lock_owner fence_token
  | OpForceUnlock string
  | OpValidate string fence_token

fun cond_step :: "cond_op \<Rightarrow> conditional_store \<Rightarrow> conditional_store" where
  "cond_step (OpCas key expected new level) s = snd (compare_and_set key expected new level s)"
| "cond_step (OpReplace key new level) s = snd (replace_if_present key new level s)"
| "cond_step (OpRemove key expected level) s = snd (remove_if_value key expected level s)"
| "cond_step (OpApply key r) s = snd (apply_replicated_record key r s)"
| "cond_step (OpGc w) s = snd (advance_tombstone_gc_watermark w s)"
| "cond_step OpReset s = snd (clear_for_diagnostic_reset s)"
| "cond_step (OpAcquire key level owner lease now) s = snd (try_acquire_lock key level owner lease now s)"
| "cond_step (OpForceAcquire key level owner lease now) s = snd (force_acquire_lock key level owner lease now s)"
| "cond_step (OpRenew key owner token deadline) s = snd (renew_lease key owner token deadline s)"
| "cond_step (OpHeartbeat session now) s = record_session_heartbeat session now s"
| "cond_step (OpExpireDue now) s = snd (expire_due now s)"
| "cond_step (OpExpireLost now silence) s = snd (expire_lost_sessions now silence s)"
| "cond_step (OpRelease key owner token) s = snd (release_lock key owner token s)"
| "cond_step (OpForceUnlock key) s = snd (force_unlock key s)"
| "cond_step (OpValidate key token) s = snd (validate_fence_token key token s)"

definition cond_run :: "cond_op list \<Rightarrow> conditional_store \<Rightarrow> conditional_store" where
  "cond_run ops s = fold cond_step ops s"

lemma cond_run_simps [simp]: "cond_run [] s = s" "cond_run (op # ops) s = cond_run ops (cond_step op s)"
  by (simp_all add: cond_run_def)

text \<open>The two halves of the store, which the operations of the other half leave alone.\<close>

definition rec_view :: "conditional_store \<Rightarrow> (string, replicated_value_record) btmap \<times> (partition_id, tombstone_gc_watermark) btmap
    \<times> value_version \<times> cluster_epoch \<times> u32" where
  "rec_view s = (cs_records s, cs_watermarks s, cs_next_version s, cs_epoch s, cs_partition_count s)"

definition lock_view :: "conditional_store \<Rightarrow> (string, lock_hold) btmap \<times> session_heartbeats \<times> u64" where
  "lock_view s = (cs_locks s, cs_heartbeats s, cs_next_fence s)"

lemma count_metric_sel [simp]:
  "cs_records (count_metric f s) = cs_records s" "cs_watermarks (count_metric f s) = cs_watermarks s"
  "cs_locks (count_metric f s) = cs_locks s" "cs_heartbeats (count_metric f s) = cs_heartbeats s"
  "cs_next_version (count_metric f s) = cs_next_version s" "cs_next_fence (count_metric f s) = cs_next_fence s"
  "cs_epoch (count_metric f s) = cs_epoch s" "cs_partition_count (count_metric f s) = cs_partition_count s"
  "cs_acquire_limit (count_metric f s) = cs_acquire_limit s"
  by (simp_all add: count_metric_def)

lemma snd_case_result [simp]: "snd (case p of (t, s) \<Rightarrow> (f t, s)) = snd p" "fst (case p of (t, s) \<Rightarrow> (f t, s)) = f (fst p)"
  by (simp_all split: prod.splits)

lemma rec_view_update [simp]:
  "rec_view (cs_locks_update f s) = rec_view s" "rec_view (cs_heartbeats_update g s) = rec_view s"
  "rec_view (cs_next_fence_update h s) = rec_view s"
  by (simp_all add: rec_view_def)

lemma lock_view_update [simp]:
  "lock_view (cs_records_update f s) = lock_view s" "lock_view (cs_watermarks_update g s) = lock_view s"
  "lock_view (cs_next_version_update h s) = lock_view s" "lock_view (cs_metrics_update k s) = lock_view s"
  by (simp_all add: lock_view_def)

lemma unused_sel [simp]:
  "cs_locks (remove_heartbeat_if_unused session s) = cs_locks s"
  "cs_next_fence (remove_heartbeat_if_unused session s) = cs_next_fence s"
  "rec_view (remove_heartbeat_if_unused session s) = rec_view s"
  by (simp_all add: remove_heartbeat_if_unused_def rec_view_def)

lemma fold_unused_sel [simp]:
  "cs_locks (fold remove_heartbeat_if_unused sessions s) = cs_locks s"
  "cs_next_fence (fold remove_heartbeat_if_unused sessions s) = cs_next_fence s"
  "rec_view (fold remove_heartbeat_if_unused sessions s) = rec_view s"
  by (induction sessions arbitrary: s) simp_all

lemma fold_forget_sel [simp]:
  "cs_locks (fold (\<lambda>session s. s\<lparr>cs_heartbeats := bt_remove session (cs_heartbeats s)\<rparr>) sessions s) = cs_locks s"
  "cs_next_fence (fold (\<lambda>session s. s\<lparr>cs_heartbeats := bt_remove session (cs_heartbeats s)\<rparr>) sessions s) = cs_next_fence s"
  "rec_view (fold (\<lambda>session s. s\<lparr>cs_heartbeats := bt_remove session (cs_heartbeats s)\<rparr>) sessions s) = rec_view s"
  by (induction sessions arbitrary: s) (simp_all add: rec_view_def)

lemma rec_view_count [simp]: "rec_view (count_metric f s) = rec_view s"
  by (simp add: rec_view_def)

lemma lock_view_count [simp]: "lock_view (count_metric f s) = lock_view s"
  by (simp add: lock_view_def)

lemma rec_view_grant [simp]: "rec_view (snd (grant_lock key owner lease now rs s)) = rec_view s"
  by (simp add: grant_lock_def Let_def split: option.splits)

lemma rec_view_expire_fold: "rec_view (fst (fold expire_key keys acc)) = rec_view (fst acc)"
  by (induction keys arbitrary: acc) (auto simp: expire_key_def rec_view_def split: prod.splits option.splits)

lemma rec_view_expire_keys [simp]: "rec_view (snd (expire_keys keys s)) = rec_view s"
  using rec_view_expire_fold [of keys "(s, [], 0)"] by (auto simp: expire_keys_def split: prod.splits)

fun is_lock_op :: "cond_op \<Rightarrow> bool" where
  "is_lock_op (OpCas _ _ _ _) = False"
| "is_lock_op (OpReplace _ _ _) = False"
| "is_lock_op (OpRemove _ _ _) = False"
| "is_lock_op (OpApply _ _) = False"
| "is_lock_op (OpGc _) = False"
| "is_lock_op OpReset = False"
| "is_lock_op _ = True"

definition lost_keys :: "logical_time \<Rightarrow> logical_duration \<Rightarrow> conditional_store \<Rightarrow> string list" where
  "lost_keys now silence s =
     map fst (filter (\<lambda>(_, h). owner_session (hold_owner h) \<in> set (lost_sessions now silence (cs_heartbeats s))) (cs_locks s))"

lemma expire_lost_eq:
  "snd (expire_lost_sessions now silence s) =
    fold (\<lambda>session s. s\<lparr>cs_heartbeats := bt_remove session (cs_heartbeats s)\<rparr>) (lost_sessions now silence (cs_heartbeats s))
      (snd (expire_keys (lost_keys now silence s) s))"
  by (simp add: expire_lost_sessions_def lost_keys_def Let_def split: prod.splits)

lemma rec_view_expire_lost [simp]: "rec_view (snd (expire_lost_sessions now silence s)) = rec_view s"
  by (simp add: expire_lost_eq)

lemma rec_view_acquire [simp]: "rec_view (snd (try_acquire_lock key level owner lease now s)) = rec_view s"
  by (simp add: try_acquire_lock_def Let_def split: option.split)

lemma rec_view_lock_ops [simp]:
  "rec_view (snd (force_acquire_lock key level owner lease now s)) = rec_view s"
  "rec_view (snd (renew_lease key owner token deadline s)) = rec_view s"
  "rec_view (record_session_heartbeat session now s) = rec_view s"
  "rec_view (snd (expire_due now s)) = rec_view s"
  "rec_view (snd (release_lock key owner token s)) = rec_view s"
  "rec_view (snd (force_unlock key s)) = rec_view s"
  "rec_view (snd (validate_fence_token key token s)) = rec_view s"
  by (simp_all add: force_acquire_lock_def renew_lease_def record_session_heartbeat_def expire_due_def
      release_lock_def force_unlock_def validate_fence_token_def Let_def split: option.split)

lemma lock_op_rec_view: "is_lock_op op \<Longrightarrow> rec_view (cond_step op s) = rec_view s"
  by (cases op) simp_all

lemma compare_and_set_locks [simp]: "lock_view (snd (compare_and_set key e new level s)) = lock_view s"
  by (simp add: compare_and_set_def Let_def)

lemma apply_record_locks [simp]: "lock_view (snd (apply_replicated_record key r s)) = lock_view s"
  by (simp add: apply_replicated_record_def Let_def split: option.splits)

lemma rec_op_lock_view: "\<not> is_lock_op op \<Longrightarrow> op \<noteq> OpReset \<Longrightarrow> lock_view (cond_step op s) = lock_view s"
  by (cases op) (simp_all add: replace_if_present_def remove_if_value_def apply_tombstone_def
      advance_tombstone_gc_watermark_def Let_def split: option.splits)

section \<open>Fencing\<close>

text \<open>A counter that has not reached its maximum is above all numbers it has issued.\<close>

definition issued :: "u64 \<Rightarrow> u64 \<Rightarrow> bool" where
  "issued t counter \<longleftrightarrow> t < counter \<or> counter = - 1"

lemma issued_mono: "issued t n \<Longrightarrow> n \<le> n' \<Longrightarrow> issued t n'"
  unfolding issued_def by (metis less_le_trans word_order.extremum_uniqueI)

lemma issued_next: "issued n (sat_add n 1)"
  unfolding issued_def by (metis sat_add_one_gt sat_add_one_eq_max_iff)

definition fences_ok :: "conditional_store \<Rightarrow> bool" where
  "fences_ok s \<longleftrightarrow> (\<forall>k t. current_fence k s = Some t \<longrightarrow> issued t (cs_next_fence s))"

text \<open>What a step may do to the tokens: keep them, drop them, or issue the next one.\<close>

definition fence_step :: "conditional_store \<Rightarrow> conditional_store \<Rightarrow> bool" where
  "fence_step s s' \<longleftrightarrow> cs_next_fence s \<le> cs_next_fence s' \<and> (fences_ok s \<longrightarrow> fences_ok s')
     \<and> (\<forall>k t. current_fence k s' = Some t \<longrightarrow> current_fence k s = Some t \<or> cs_next_fence s \<le> t)"

lemma fence_step_refl: "fence_step s s"
  by (simp add: fence_step_def)

lemma fence_step_trans: "fence_step s s' \<Longrightarrow> fence_step s' s'' \<Longrightarrow> fence_step s s''"
  unfolding fence_step_def by (meson order_trans)

lemma fence_step_view:
  "lock_view s' = lock_view s \<Longrightarrow> fence_step s s'"
  by (simp add: fence_step_def fences_ok_def lock_view_def current_fence_def)

lemma fence_step_shrink:
  assumes "\<And>k t. current_fence k s' = Some t \<Longrightarrow> current_fence k s = Some t" "cs_next_fence s \<le> cs_next_fence s'"
  shows "fence_step s s'"
  unfolding fence_step_def fences_ok_def using assms issued_mono by meson

lemma fence_step_grant: "fence_step s (snd (grant_lock key owner lease now rs s))"
proof -
  let ?s = "snd (grant_lock key owner lease now rs s)"
  have cur: "current_fence k ?s = (if k = key then Some (cs_next_fence s) else current_fence k s)" for k
    by (simp add: grant_lock_def current_fence_def Let_def split: option.splits)
  have nf: "cs_next_fence ?s = sat_add (cs_next_fence s) 1"
    by (simp add: grant_lock_def Let_def split: option.splits)
  show ?thesis
    unfolding fence_step_def fences_ok_def cur nf
    using issued_next issued_mono [OF _ sat_add_ge] by (auto split: if_splits)
qed

lemma current_fence_expire_fold:
  "cs_next_fence (fst acc) \<le> cs_next_fence (fst (fold expire_key keys acc))
   \<and> current_fence k (fst (fold expire_key keys acc)) = (if k \<in> set keys then None else current_fence k (fst acc))"
proof (induction keys arbitrary: acc)
  case (Cons key keys)
  have "cs_next_fence (fst acc) \<le> cs_next_fence (fst (expire_key key acc))
    \<and> current_fence k (fst (expire_key key acc)) = (if k = key then None else current_fence k (fst acc))"
    by (auto simp: expire_key_def current_fence_def split: prod.splits option.splits)
  with Cons [of "expire_key key acc"] show ?case by (auto intro: order_trans)
qed simp

lemma expire_keys_fence:
  "cs_next_fence s \<le> cs_next_fence (snd (expire_keys keys s))"
  "current_fence k (snd (expire_keys keys s)) = (if k \<in> set keys then None else current_fence k s)"
  using current_fence_expire_fold [where acc = "(s, [], 0)" and keys = keys and k = k]
  by (auto simp: expire_keys_def current_fence_def split: prod.splits)

lemma expire_lost_fence:
  "cs_next_fence s \<le> cs_next_fence (snd (expire_lost_sessions now silence s))"
  "current_fence k (snd (expire_lost_sessions now silence s)) = (if k \<in> set (lost_keys now silence s) then None else current_fence k s)"
proof -
  show "cs_next_fence s \<le> cs_next_fence (snd (expire_lost_sessions now silence s))"
    by (simp add: expire_lost_eq expire_keys_fence)
  have "current_fence k (snd (expire_lost_sessions now silence s)) = current_fence k (snd (expire_keys (lost_keys now silence s) s))"
    by (simp add: current_fence_def expire_lost_eq)
  then show "current_fence k (snd (expire_lost_sessions now silence s)) =
    (if k \<in> set (lost_keys now silence s) then None else current_fence k s)"
    by (simp add: expire_keys_fence)
qed

lemma acquire_fence_step: "fence_step s (snd (try_acquire_lock key level owner lease now s))"
proof -
  have grant: "fence_step s (snd (grant_lock key owner lease now rs (count_metric f s)))" for owner rs f
    using fence_step_grant [of "count_metric f s"] by (simp add: fence_step_def fences_ok_def current_fence_def)
  have again: "fence_step s (count_metric f (s\<lparr>cs_locks := bt_insert key h' (cs_locks s), cs_heartbeats := hb\<rparr>))"
    if "bt_get (cs_locks s) key = Some h" "hold_fence h' = hold_fence h" for f h h' hb
    by (rule fence_step_shrink) (use that in \<open>auto simp: current_fence_def split: if_splits\<close>)
  show ?thesis
    by (auto simp: try_acquire_lock_def Let_def fence_step_refl fence_step_grant intro: grant again fence_step_view
        split: option.split)
qed

lemma cond_step_fence: "fence_step s (cond_step op s)"
proof (cases "is_lock_op op")
  case False
  show ?thesis
  proof (cases "op = OpReset")
    case True
    then show ?thesis
      by (intro fence_step_shrink) (simp_all add: clear_for_diagnostic_reset_def current_fence_def)
  next
    case reset: False
    show ?thesis by (rule fence_step_view [OF rec_op_lock_view [OF False reset]])
  qed
next
  case True
  show ?thesis
  proof (cases op)
    case (OpAcquire key level owner lease now)
    then show ?thesis by (simp add: acquire_fence_step)
  next
    case (OpExpireDue now)
    then show ?thesis
      by (intro fence_step_shrink) (auto simp: expire_due_def expire_keys_fence split: if_splits)
  next
    case (OpExpireLost now silence)
    then show ?thesis
      by (intro fence_step_shrink) (auto simp: expire_lost_fence split: if_splits)
  next
    case (OpForceAcquire key level owner lease now)
    then show ?thesis by (simp add: force_acquire_lock_def fence_step_grant fence_step_refl)
  next
    case (OpRenew key owner token deadline)
    then show ?thesis
      by (intro fence_step_shrink) (auto simp: renew_lease_def Let_def current_fence_def split: option.splits if_splits)
  next
    case (OpRelease key owner token)
    then show ?thesis
      by (intro fence_step_shrink) (auto simp: release_lock_def current_fence_def split: option.splits if_splits)
  next
    case (OpForceUnlock key)
    then show ?thesis
      by (intro fence_step_shrink) (auto simp: force_unlock_def Let_def current_fence_def split: option.splits if_splits)
  qed (use True in \<open>auto simp: record_session_heartbeat_def validate_fence_token_def Let_def current_fence_def
      intro!: fence_step_shrink\<close>)
qed

lemma cond_run_fence: "fence_step s (cond_run ops s)"
  by (induction ops arbitrary: s) (auto intro: fence_step_refl fence_step_trans cond_step_fence)

lemma fences_ok_run: "fences_ok (cond_run ops (with_lock_acquire_limit lim (cond_new e n)))"
proof -
  have "fences_ok (with_lock_acquire_limit lim (cond_new e n))" by (simp add: fences_ok_def with_lock_acquire_limit_def cond_new_def current_fence_def)
  then show ?thesis using cond_run_fence [of "with_lock_acquire_limit lim (cond_new e n)" ops] by (simp add: fence_step_def)
qed

text \<open>
  C11. A fencing token that was overtaken is refused for good. Take any history of a store, with or without a limit on nested
  acquisitions, after which a key is locked under a token, and any
  continuation after which that token is not current any more, because the lock was released, expired, forced,
  taken over or reset. Whatever happens later, also further acquisitions, the token is never accepted
  again: it does not validate, release or renew. The token must not be the very last 64-bit number.
\<close>
theorem stale_token_fenced:
  assumes "s = cond_run ops (with_lock_acquire_limit lim (cond_new e n))" "current_fence key s = Some token" "cs_next_fence s \<noteq> - 1"
    and "current_fence key (cond_run ops' s) \<noteq> Some token"
  shows "let s'' = cond_run ops'' (cond_run ops' s) in
      fst (validate_fence_token key token s'') = Inl (StaleFenceToken (current_fence key s'') token)
      \<and> \<not> is_ok (fst (release_lock key owner token s'')) \<and> \<not> is_ok (fst (renew_lease key owner token deadline s''))"
proof -
  define s' where "s' = cond_run ops' s"
  define s'' where "s'' = cond_run ops'' s'"
  have "token < cs_next_fence s"
    using fences_ok_run [of ops lim e n] assms(1-3) by (auto simp: fences_ok_def issued_def)
  also have "\<dots> \<le> cs_next_fence s'"
    using cond_run_fence [of s ops'] by (simp add: s'_def fence_step_def)
  finally have "\<not> cs_next_fence s' \<le> token" by simp
  then have "current_fence key s'' \<noteq> Some token"
    using cond_run_fence [of s' ops''] assms(4) by (auto simp: s''_def s'_def fence_step_def)
  then show ?thesis
    unfolding s'_def [symmetric] s''_def [symmetric] Let_def
    by (auto simp: validate_fence_token_def release_lock_def renew_lease_def current_fence_def Let_def split: option.splits)
qed

section \<open>Exclusion\<close>

definition tracked :: "conditional_store \<Rightarrow> bool" where
  "tracked s \<longleftrightarrow> bt_ok (cs_locks s) \<and> bt_ok (cs_heartbeats s)
     \<and> (\<forall>k h. bt_get (cs_locks s) k = Some h \<longrightarrow> bt_get (cs_heartbeats s) (owner_session (hold_owner h)) \<noteq> None)"

lemma tracked_view: "lock_view s' = lock_view s \<Longrightarrow> tracked s \<Longrightarrow> tracked s'"
  by (simp add: tracked_def lock_view_def)

lemma tracked_unused: "tracked s \<Longrightarrow> tracked (remove_heartbeat_if_unused session s)"
  by (fastforce simp: tracked_def remove_heartbeat_if_unused_def list_ex_iff bt_values_def dest: bt_get_in_set)

lemma tracked_remove: "tracked s \<Longrightarrow> tracked (s\<lparr>cs_locks := bt_remove key (cs_locks s)\<rparr>)"
  by (auto simp: tracked_def split: if_splits)

lemma tracked_hold:
  "tracked s \<Longrightarrow> owner_session (hold_owner h) = session
    \<Longrightarrow> tracked (s\<lparr>cs_locks := bt_insert key h (cs_locks s), cs_heartbeats := hb_record session now (cs_heartbeats s)\<rparr>)"
  by (auto simp: tracked_def hb_record_def split: if_splits)

lemma tracked_grant: "tracked s \<Longrightarrow> tracked (snd (grant_lock key owner lease now rs s))"
proof -
  assume s: "tracked s"
  let ?h = "\<lparr>hold_owner = owner, hold_fence = cs_next_fence s, hold_holds = 1, hold_lease_deadline = sat_add now lease\<rparr>"
  let ?s = "s\<lparr>cs_next_fence := sat_add (cs_next_fence s) 1,
    cs_heartbeats := hb_record (owner_session owner) now (cs_heartbeats s), cs_locks := bt_insert key ?h (cs_locks s)\<rparr>"
  have "tracked ?s" using s by (auto simp: tracked_def hb_record_def split: if_splits)
  then have "tracked (count_metric f ?s)" "tracked (count_metric f (remove_heartbeat_if_unused x ?s))" for f x
    using tracked_unused tracked_view [OF lock_view_count] by blast+
  then show ?thesis by (simp add: grant_lock_def Let_def split: option.split)
qed

lemma tracked_expire_fold: "tracked (fst acc) \<Longrightarrow> tracked (fst (fold expire_key keys acc))"
proof (induction keys arbitrary: acc)
  case (Cons key keys)
  have "tracked (fst (expire_key key acc))"
    using Cons.prems by (auto simp: expire_key_def tracked_def split: prod.splits option.splits if_splits)
  with Cons.IH show ?case by simp
qed simp

lemma tracked_expire_keys: "tracked s \<Longrightarrow> tracked (snd (expire_keys keys s))"
proof -
  have "tracked s \<Longrightarrow> tracked (fold remove_heartbeat_if_unused sessions s)" for sessions s
    by (induction sessions arbitrary: s) (auto intro: tracked_unused)
  then show "tracked s \<Longrightarrow> tracked (snd (expire_keys keys s))"
    using tracked_expire_fold [of "(s, [], 0)" keys]
    by (cases "fold expire_key keys (s, [], 0)") (simp add: expire_keys_def)
qed

lemma expire_keys_locks: "bt_get (cs_locks (snd (expire_keys keys s))) k = (if k \<in> set keys then None else bt_get (cs_locks s) k)"
proof -
  have "bt_get (cs_locks (fst (fold expire_key keys acc))) k = (if k \<in> set keys then None else bt_get (cs_locks (fst acc)) k)" for acc
    by (induction keys arbitrary: acc) (auto simp: expire_key_def split: prod.splits option.splits)
  from this [of "(s, [], 0)"] show ?thesis
    by (cases "fold expire_key keys (s, [], 0)") (simp add: expire_keys_def)
qed

lemma fold_forget_heartbeats:
  "bt_ok (cs_heartbeats s) \<Longrightarrow>
    bt_ok (cs_heartbeats (fold (\<lambda>session s. s\<lparr>cs_heartbeats := bt_remove session (cs_heartbeats s)\<rparr>) xs s))
    \<and> bt_get (cs_heartbeats (fold (\<lambda>session s. s\<lparr>cs_heartbeats := bt_remove session (cs_heartbeats s)\<rparr>) xs s)) k =
      (if k \<in> set xs then None else bt_get (cs_heartbeats s) k)"
  by (induction xs arbitrary: s) auto

lemma lost_keys_iff:
  assumes "tracked s"
  shows "k \<in> set (lost_keys now silence s) \<longleftrightarrow>
    (\<exists>h. bt_get (cs_locks s) k = Some h \<and> owner_session (hold_owner h) \<in> set (lost_sessions now silence (cs_heartbeats s)))"
  using assms by (force simp: lost_keys_def tracked_def bt_get_iff)

lemma due_keys_iff:
  assumes "tracked s" "bt_get (cs_locks s) k = Some h"
  shows "k \<in> set (map fst (filter (\<lambda>(_, h). expired_at now h) (cs_locks s))) \<longleftrightarrow> expired_at now h"
proof -
  have "(k, h') \<in> set (cs_locks s) \<longleftrightarrow> h' = h" for h'
    using assms bt_get_iff [of "cs_locks s" k h'] by (auto simp: tracked_def)
  then show ?thesis by force
qed

lemma lost_sessions_iff:
  assumes "tracked s" "bt_get (cs_locks s) k = Some h"
  shows "owner_session (hold_owner h) \<in> set (lost_sessions now silence (cs_heartbeats s)) \<longleftrightarrow>
    hb_is_lost (owner_session (hold_owner h)) now silence (cs_heartbeats s)"
proof -
  obtain t where t: "bt_get (cs_heartbeats s) (owner_session (hold_owner h)) = Some t"
    using assms by (auto simp: tracked_def)
  moreover have "(owner_session (hold_owner h), t') \<in> set (cs_heartbeats s) \<longleftrightarrow> t' = t" for t'
    using assms(1) t bt_get_iff [of "cs_heartbeats s" "owner_session (hold_owner h)" t'] by (auto simp: tracked_def)
  ultimately show ?thesis by (force simp: lost_sessions_def hb_is_lost_def)
qed

lemma tracked_expire_lost: "tracked s \<Longrightarrow> tracked (snd (expire_lost_sessions now silence s))"
proof -
  assume s: "tracked s"
  let ?t = "snd (expire_keys (lost_keys now silence s) s)"
  have t: "tracked ?t" using s by (rule tracked_expire_keys)
  have "owner_session (hold_owner h) \<notin> set (lost_sessions now silence (cs_heartbeats s))" if "bt_get (cs_locks ?t) k = Some h" for k h
    using that lost_keys_iff [OF s, of k now silence] by (auto simp: expire_keys_locks split: if_splits)
  with t show ?thesis
    by (auto simp: tracked_def expire_lost_eq fold_forget_heartbeats)
qed

lemma tracked_step: "tracked s \<Longrightarrow> tracked (cond_step op s)"
proof -
  assume s: "tracked s"
  have count: "tracked t \<Longrightarrow> tracked (count_metric f t)" for t f
    by (rule tracked_view [OF lock_view_count])
  have same: "tracked (s\<lparr>cs_locks := bt_insert key h' (cs_locks s)\<rparr>)"
    if "bt_get (cs_locks s) key = Some h" "hold_owner h' = hold_owner h" for key h h'
    using that s by (auto simp: tracked_def split: if_splits)
  show ?thesis
  proof (cases "is_lock_op op")
    case False
    then show ?thesis
      using s tracked_view [OF rec_op_lock_view [OF False]]
      by (cases "op = OpReset") (auto simp: clear_for_diagnostic_reset_def tracked_def)
  next
    case True
    then show ?thesis
    proof (cases op)
      case (OpAcquire key level owner lease now)
      then show ?thesis using s
        by (auto simp: try_acquire_lock_def Let_def intro!: count tracked_grant tracked_hold split: option.split)
    next
      case (OpForceAcquire key level owner lease now)
      then show ?thesis using s by (simp add: force_acquire_lock_def tracked_grant)
    next
      case (OpRenew key owner token deadline)
      then show ?thesis using s
        by (auto simp: renew_lease_def Let_def intro!: count tracked_hold split: option.split)
    next
      case (OpRelease key owner token)
      then show ?thesis using s
        by (auto simp: release_lock_def intro!: count tracked_unused tracked_remove same split: option.split)
    next
      case (OpForceUnlock key)
      have "tracked (cs_next_fence_update f t) \<longleftrightarrow> tracked t" for f t by (simp add: tracked_def)
      with OpForceUnlock show ?thesis using s
        by (auto simp: force_unlock_def Let_def intro!: tracked_unused tracked_remove split: option.split)
    next
      case (OpHeartbeat session now)
      then show ?thesis using s by (auto simp: record_session_heartbeat_def hb_record_def tracked_def)
    qed (use s in \<open>auto simp: expire_due_def validate_fence_token_def Let_def
        intro: tracked_expire_keys tracked_expire_lost count\<close>)
  qed
qed

lemma tracked_run: "tracked (cond_run ops (with_lock_acquire_limit lim (cond_new e n)))"
proof -
  have "tracked s \<Longrightarrow> tracked (cond_run ops s)" for s
    by (induction ops arbitrary: s) (auto intro: tracked_step)
  then show ?thesis by (simp add: tracked_def with_lock_acquire_limit_def cond_new_def)
qed

text \<open>The operations that end the hold \<open>h\<close> of a key.\<close>

fun ends_hold :: "string \<Rightarrow> lock_hold \<Rightarrow> conditional_store \<Rightarrow> cond_op \<Rightarrow> bool" where
  "ends_hold k h s OpReset = True"
| "ends_hold k h s (OpAcquire key level owner lease now) = (key = k \<and> allows_single_key_linearizable level \<and> expired_at now h)"
| "ends_hold k h s (OpForceAcquire key level owner lease now) = (key = k \<and> allows_single_key_linearizable level)"
| "ends_hold k h s (OpExpireDue now) = expired_at now h"
| "ends_hold k h s (OpExpireLost now silence) = hb_is_lost (owner_session (hold_owner h)) now silence (cs_heartbeats s)"
| "ends_hold k h s (OpRelease key owner token) =
    (key = k \<and> owner = hold_owner h \<and> token = hold_fence h \<and> \<not> 1 < hold_holds h)"
| "ends_hold k h s (OpForceUnlock key) = (key = k)"
| "ends_hold k h s _ = False"

definition held_as :: "string \<Rightarrow> lock_hold \<Rightarrow> conditional_store \<Rightarrow> bool" where
  "held_as k h s \<longleftrightarrow> (case bt_get (cs_locks s) k of Some h' \<Rightarrow> hold_owner h' = hold_owner h \<and> hold_fence h' = hold_fence h | None \<Rightarrow> False)"

lemma held_as_grant:
  assumes "hold_fence h \<noteq> cs_next_fence s"
  shows "held_as k h (snd (grant_lock key owner lease now rs s)) \<longleftrightarrow> key \<noteq> k \<and> held_as k h s"
  using assms by (auto simp: held_as_def grant_lock_def Let_def split: option.split)

lemma held_as_view: "lock_view s' = lock_view s \<Longrightarrow> held_as k h s' = held_as k h s"
  by (simp add: held_as_def lock_view_def)

lemma held_as_acquire:
  assumes "bt_get (cs_locks s) k = Some h" "hold_fence h \<noteq> cs_next_fence s"
  shows "held_as k h (snd (try_acquire_lock key level owner lease now s))
    \<longleftrightarrow> \<not> (key = k \<and> allows_single_key_linearizable level \<and> expired_at now h)"
proof -
  have g: "held_as k h (snd (grant_lock key owner lease now rs (count_metric f s))) \<longleftrightarrow> key \<noteq> k" for owner rs f
    using assms held_as_grant [of h "count_metric f s"] by (simp add: held_as_def)
  have g': "held_as k h (snd (grant_lock key owner lease now rs s)) \<longleftrightarrow> key \<noteq> k" for owner rs
    using assms held_as_grant [of h s] by (simp add: held_as_def)
  have s: "held_as k h s" "held_as k h (count_metric f s)" for f using assms by (simp_all add: held_as_def)
  have i: "held_as k h (count_metric f (s\<lparr>cs_locks := bt_insert key h' (cs_locks s), cs_heartbeats := hb\<rparr>))"
    if "bt_get (cs_locks s) key = Some h1" "hold_fence h' = hold_fence h1" "hold_owner h' = hold_owner h1" for f h1 h' hb
    using that assms by (auto simp: held_as_def)
  show ?thesis
  proof (cases "allows_single_key_linearizable level")
    case True
    show ?thesis
    proof (cases "bt_get (cs_locks s) key")
      case None
      with True assms(1) show ?thesis by (auto simp: try_acquire_lock_def g')
    next
      case (Some h1)
      show ?thesis
      proof (cases "expired_at now h1")
        case exp: True
        with True Some assms(1) show ?thesis by (auto simp: try_acquire_lock_def g)
      next
        case False
        with True Some assms(1) have "held_as k h (snd (try_acquire_lock key level owner lease now s))"
          by (auto simp: try_acquire_lock_def Let_def s intro!: i)
        with False Some assms(1) show ?thesis by auto
      qed
    qed
  qed (simp add: try_acquire_lock_def s)
qed

text \<open>
  C12. A lock stays with its owner until one of a few things happens. After any history of a store, with or without a limit on nested
  acquisitions, if a key is locked, an operation
  leaves owner and token of the lock as they are unless it is one of: a release by the owner with the current token that
  gives back the last hold, an acquisition at a time when the lease has run out, the expiry of leases at such a time, the expiry
  of a session that has been silent for too long, a forced acquisition or unlock of the key, or a reset. Each of these
  does end the hold. Before the lease runs out, an acquisition by another owner is answered with no token and changes
  nothing. The 64-bit fencing sequence must not be exhausted.
\<close>
theorem lock_exclusive:
  assumes "s = cond_run ops (with_lock_acquire_limit lim (cond_new e n))" "bt_get (cs_locks s) k = Some h" "cs_next_fence s \<noteq> - 1"
  shows "(held_as k h (cond_step op s) \<longleftrightarrow> \<not> ends_hold k h s op)
    \<and> (owner \<noteq> hold_owner h \<and> \<not> expired_at now h \<and> allows_single_key_linearizable level
        \<longrightarrow> try_acquire_lock k level owner lease now s = (Inr None, s))"
proof (rule conjI)
  have tr: "tracked s" and "fences_ok s" using assms(1) tracked_run fences_ok_run by simp_all
  moreover have "current_fence k s = Some (hold_fence h)" using assms(2) by (simp add: current_fence_def)
  ultimately have "issued (hold_fence h) (cs_next_fence s)" unfolding fences_ok_def by blast
  then have ne: "hold_fence h \<noteq> cs_next_fence s"
    using assms(3) by (auto simp: issued_def)
  have rec: "\<not> is_lock_op op \<Longrightarrow> op \<noteq> OpReset \<Longrightarrow> held_as k h (cond_step op s)"
    using assms(2) held_as_view [OF rec_op_lock_view, of op k h s] by (simp add: held_as_def)
  have here: "held_as k h s" using assms(2) by (simp add: held_as_def)
  show "held_as k h (cond_step op s) \<longleftrightarrow> \<not> ends_hold k h s op"
  proof (cases op)
    case OpReset
    then show ?thesis by (simp add: clear_for_diagnostic_reset_def held_as_def)
  next
    case (OpAcquire key level owner lease now)
    then show ?thesis by (simp add: held_as_acquire [OF assms(2) ne])
  next
    case (OpForceAcquire key level owner lease now)
    then show ?thesis by (simp add: force_acquire_lock_def held_as_grant [OF ne] here)
  next
    case (OpExpireDue now)
    then show ?thesis
      using assms(2) due_keys_iff [OF tr assms(2)] by (simp add: expire_due_def held_as_def expire_keys_locks)
  next
    case (OpExpireLost now silence)
    then show ?thesis
      using assms(2) lost_keys_iff [OF tr, of k now silence] lost_sessions_iff [OF tr assms(2), of now silence]
      by (auto simp: held_as_def expire_lost_eq expire_keys_locks)
  next
    case (OpRenew key owner token deadline)
    then show ?thesis using assms(2) here
      by (auto simp: renew_lease_def Let_def held_as_def split: option.split)
  next
    case (OpRelease key owner token)
    then show ?thesis using assms(2)
      by (auto simp: release_lock_def held_as_def split: option.split)
  next
    case (OpForceUnlock key)
    then show ?thesis using assms(2)
      by (auto simp: force_unlock_def Let_def held_as_def split: option.split)
  next
    case (OpHeartbeat session now)
    then show ?thesis using assms(2) by (simp add: record_session_heartbeat_def held_as_def)
  next
    case (OpValidate key token)
    then show ?thesis using assms(2) by (simp add: validate_fence_token_def Let_def held_as_def)
  qed (use rec in \<open>simp_all del: cond_step.simps\<close>)
  show "owner \<noteq> hold_owner h \<and> \<not> expired_at now h \<and> allows_single_key_linearizable level
    \<longrightarrow> try_acquire_lock k level owner lease now s = (Inr None, s)"
    using assms(2) by (simp add: try_acquire_lock_def)
qed

section \<open>Records\<close>

definition recs_ok :: "conditional_store \<Rightarrow> bool" where
  "recs_ok s \<longleftrightarrow> bt_ok (cs_records s) \<and> bt_ok (cs_watermarks s)
     \<and> (\<forall>k r. bt_get (cs_records s) k = Some r
          \<longrightarrow> rec_partition r = partition_for_key k (cs_partition_count s) \<and> issued (rec_version r) (cs_next_version s))
     \<and> (\<forall>p w. bt_get (cs_watermarks s) p = Some w \<longrightarrow> gw_epoch w = cs_epoch s \<and> issued (gw_version w) (cs_next_version s))"

lemma recs_ok_view: "rec_view s' = rec_view s \<Longrightarrow> recs_ok s \<Longrightarrow> recs_ok s'"
  by (simp add: recs_ok_def rec_view_def)

lemma recs_ok_insert:
  assumes "recs_ok s" "rec_partition r = partition_for_key key (cs_partition_count s)" "cs_next_version s \<le> n"
    "issued (rec_version r) n"
  shows "recs_ok (s\<lparr>cs_next_version := n, cs_records := bt_insert key r (cs_records s)\<rparr>)"
  using assms issued_mono [OF _ assms(3)] by (auto simp: recs_ok_def)

lemma recs_ok_version:
  assumes "recs_ok s" "cs_next_version s \<le> n"
  shows "recs_ok (s\<lparr>cs_next_version := n\<rparr>)"
  using assms issued_mono [OF _ assms(2)] by (auto simp: recs_ok_def)

lemma recs_ok_cas: "recs_ok s \<Longrightarrow> recs_ok (snd (compare_and_set key e new level s))"
proof -
  assume s: "recs_ok s"
  have "recs_ok (count_metric f t) \<longleftrightarrow> recs_ok t" for f t by (simp add: recs_ok_def)
  moreover have "recs_ok (s\<lparr>cs_next_version := sat_add (cs_next_version s) 1,
      cs_records := bt_insert key (record_value (partition_for_key key (cs_partition_count s)) (cs_next_version s) (cs_epoch s) new)
        (cs_records s)\<rparr>)"
    by (rule recs_ok_insert [OF s]) (simp_all add: record_value_def issued_next)
  ultimately show ?thesis using s by (simp add: compare_and_set_def Let_def)
qed

lemma recs_ok_apply: "recs_ok s \<Longrightarrow> recs_ok (snd (apply_replicated_record key r s))"
proof -
  assume s: "recs_ok s"
  let ?n = "max (cs_next_version s) (sat_add (rec_version r) 1)"
  have c: "recs_ok (count_metric f t) \<longleftrightarrow> recs_ok t" for f t by (simp add: recs_ok_def)
  have n: "issued (rec_version r) ?n" "cs_next_version s \<le> ?n"
    using issued_mono [OF issued_next, of "rec_version r" ?n] by simp_all
  have "recs_ok (s\<lparr>cs_next_version := ?n, cs_records := bt_insert key (rec_merge cur r) (cs_records s)\<rparr>)"
    if "bt_get (cs_records s) key = Some cur" "rec_partition r = partition_for_key key (cs_partition_count s)" for cur
  proof (rule recs_ok_insert [OF s _ n(2)])
    have "rec_merge cur r = cur \<or> rec_merge cur r = r" by (simp add: rec_merge_def)
    moreover have "rec_partition cur = partition_for_key key (cs_partition_count s)" "issued (rec_version cur) ?n"
      using s that(1) issued_mono [OF _ n(2)] by (auto simp: recs_ok_def)
    ultimately show "rec_partition (rec_merge cur r) = partition_for_key key (cs_partition_count s)"
      "issued (rec_version (rec_merge cur r)) ?n"
      using that(2) n(1) by auto
  qed
  moreover have "recs_ok (s\<lparr>cs_next_version := ?n\<rparr>)" using s n(2) by (rule recs_ok_version)
  moreover have "rec_partition r = partition_for_key key (cs_partition_count s)
    \<Longrightarrow> recs_ok (s\<lparr>cs_next_version := ?n, cs_records := bt_insert key r (cs_records s)\<rparr>)"
    using s n by (intro recs_ok_insert) simp_all
  ultimately show ?thesis using s c by (simp add: apply_replicated_record_def Let_def split: option.split)
qed

lemma recs_ok_gc: "recs_ok s \<Longrightarrow> recs_ok (snd (advance_tombstone_gc_watermark w s))"
proof -
  assume s: "recs_ok s"
  let ?n = "max (cs_next_version s) (sat_add (gw_version w) 1)"
  have n: "issued (gw_version w) ?n" "cs_next_version s \<le> ?n"
    using issued_mono [OF issued_next, of "gw_version w" ?n] by simp_all
  have "recs_ok (s\<lparr>cs_next_version := ?n, cs_watermarks := bt_insert (gw_partition w) w (cs_watermarks s),
      cs_records := bt_retain P (cs_records s), cs_metrics := m\<rparr>)" if "gw_epoch w = cs_epoch s" for P m
    using s n that issued_mono [OF _ n(2)] by (auto simp: recs_ok_def bt_get_retain split: option.splits if_splits)
  then show ?thesis
    using s by (simp add: advance_tombstone_gc_watermark_def Let_def split: option.split)
qed

lemma recs_ok_step: "recs_ok s \<Longrightarrow> recs_ok (cond_step op s)"
proof -
  assume s: "recs_ok s"
  have c: "recs_ok (count_metric f t) \<longleftrightarrow> recs_ok t" for f t by (simp add: recs_ok_def)
  show ?thesis
  proof (cases "is_lock_op op")
    case True
    with s show ?thesis by (metis recs_ok_view lock_op_rec_view)
  next
    case False
    then show ?thesis
    proof (cases op)
      case (OpReplace key new level)
      with s show ?thesis by (simp add: replace_if_present_def c recs_ok_cas split: option.split)
    next
      case (OpRemove key expected level)
      with s show ?thesis by (simp add: remove_if_value_def Let_def c apply_tombstone_def recs_ok_apply)
    next
      case OpReset
      with s show ?thesis by (simp add: clear_for_diagnostic_reset_def recs_ok_def)
    qed (use s in \<open>simp_all add: recs_ok_cas recs_ok_apply recs_ok_gc\<close>)
  qed
qed

lemma recs_ok_run: "recs_ok (cond_run ops (with_lock_acquire_limit lim (cond_new e n)))"
proof -
  have "recs_ok s \<Longrightarrow> recs_ok (cond_run ops s)" for s
    by (induction ops arbitrary: s) (auto intro: recs_ok_step)
  moreover have "recs_ok (with_lock_acquire_limit lim (cond_new e n))" by (simp add: recs_ok_def with_lock_acquire_limit_def cond_new_def)
  ultimately show ?thesis by blast
qed

subsection \<open>Conditional writes on a map\<close>

definition cond_abs :: "conditional_store \<Rightarrow> string \<Rightarrow> bytes option" where
  "cond_abs s = (\<lambda>k. current_value k s)"

definition set_if :: "bool \<Rightarrow> 'k \<Rightarrow> 'v option \<Rightarrow> ('k \<Rightarrow> 'v option) \<Rightarrow> bool \<times> ('k \<Rightarrow> 'v option)" where
  "set_if c k v m = (c, if c then m(k := v) else m)"

fun write_result :: "cond_op \<Rightarrow> conditional_store \<Rightarrow> conditional_error + cas_result" where
  "write_result (OpCas key expected new level) s = fst (compare_and_set key expected new level s)"
| "write_result (OpReplace key new level) s = fst (replace_if_present key new level s)"
| "write_result (OpRemove key expected level) s = fst (remove_if_value key expected level s)"
| "write_result _ s = Inl LockNotHeld"

fun write_spec :: "cond_op \<Rightarrow> (string \<Rightarrow> bytes option) \<Rightarrow> bool \<times> (string \<Rightarrow> bytes option)" where
  "write_spec (OpCas key expected new level) m = set_if (m key = expected) key (Some new) m"
| "write_spec (OpReplace key new level) m = set_if (m key \<noteq> None) key (Some new) m"
| "write_spec (OpRemove key expected level) m = set_if (m key = Some expected) key None m"
| "write_spec _ m = (False, m)"

fun write_key :: "cond_op \<Rightarrow> (string \<times> consistency_level) option" where
  "write_key (OpCas key _ _ level) = Some (key, level)"
| "write_key (OpReplace key _ level) = Some (key, level)"
| "write_key (OpRemove key _ level) = Some (key, level)"
| "write_key _ = None"

lemma cond_abs_count [simp]: "cond_abs (count_metric f s) = cond_abs s"
  by (simp add: cond_abs_def current_value_def)

lemma record_tombstone_sel [simp]:
  "rec_partition (record_tombstone p v e gc) = p" "rec_stamp (record_tombstone p v e gc) = (v, e)"
  "rec_version (record_tombstone p v e gc) = v" "current_bytes (record_tombstone p v e gc) = None"
  by (simp_all add: record_tombstone_def rec_stamp_def current_bytes_def)

lemma current_value_abs: "current_value k s = cond_abs s k"
  by (simp add: cond_abs_def)

lemma issued_less: "issued v n \<Longrightarrow> n \<noteq> - 1 \<Longrightarrow> v < n"
  by (simp add: issued_def)

lemma apply_tombstone_records:
  assumes "recs_ok s" "cs_next_version s \<noteq> - 1"
  shows "cs_records (apply_tombstone key (cs_next_version s) s) =
    bt_insert key (record_tombstone (partition_for_key key (cs_partition_count s)) (cs_next_version s) (cs_epoch s) None) (cs_records s)"
proof -
  let ?r = "record_tombstone (partition_for_key key (cs_partition_count s)) (cs_next_version s) (cs_epoch s) None"
  have "\<not> below_watermark ?r s"
  proof (cases "bt_get (cs_watermarks s) (partition_for_key key (cs_partition_count s))")
    case (Some w)
    then have "gw_version w < cs_next_version s"
      using assms issued_less by (auto simp: recs_ok_def)
    with Some show ?thesis by (auto simp: below_watermark_def less_eq_prod_simp)
  qed (simp add: below_watermark_def)
  moreover have "rec_merge cur ?r = ?r \<and> ?r \<noteq> cur" if "bt_get (cs_records s) key = Some cur" for cur
  proof -
    have "rec_version cur < cs_next_version s"
      using assms that issued_less by (auto simp: recs_ok_def)
    then have "rec_stamp cur < rec_stamp ?r" by (simp add: rec_stamp_def [of cur] less_prod_simp)
    then show ?thesis by (auto simp: rec_merge_def)
  qed
  ultimately show ?thesis
    by (auto simp: apply_tombstone_def apply_replicated_record_def Let_def split: option.split)
qed

text \<open>
  C10. The conditional writes are atomic operations on a map. After any history, with a linearizable level, each of compare-and-set, replace
  and remove tests and updates the live value of its key exactly as the specification on a map from keys to
  values does, answers with the current value on a mismatch, and on success returns a version
  above that of every record in the store. A weaker level is refused without any change. The 64-bit
  version counter must not be exhausted.
\<close>
theorem conditional_writes_refine:
  assumes "s = cond_run ops (with_lock_acquire_limit lim (cond_new e n))" "cs_next_version s \<noteq> - 1" "write_key op = Some (key, level)"
  shows "if allows_single_key_linearizable level
    then cond_abs (cond_step op s) = snd (write_spec op (cond_abs s))
      \<and> write_result op s = (if fst (write_spec op (cond_abs s)) then Inr (CasApplied (cs_next_version s))
          else Inr (CasMismatch (cond_abs s key)))
      \<and> (\<forall>k r. bt_get (cs_records s) k = Some r \<longrightarrow> rec_version r < cs_next_version s)
    else cond_step op s = s \<and> write_result op s = Inl (WeakConsistency level)"
proof -
  have ok: "recs_ok s" using assms(1) recs_ok_run by simp
  have fresh: "\<forall>k r. bt_get (cs_records s) k = Some r \<longrightarrow> rec_version r < cs_next_version s"
    using ok assms(2) by (auto simp: recs_ok_def dest!: issued_less)
  have cas: "cond_abs (snd (compare_and_set key x v level s)) = (if cond_abs s key = x then (cond_abs s)(key := Some v) else cond_abs s)"
    "fst (compare_and_set key x v level s) = (if cond_abs s key = x then Inr (CasApplied (cs_next_version s)) else Inr (CasMismatch (cond_abs s key)))"
    if "allows_single_key_linearizable level" for key x v level
    using that by (auto simp: compare_and_set_def cond_abs_def current_value_def Let_def record_value_def current_bytes_def fun_eq_iff)
  have rem: "cond_abs (apply_tombstone key (cs_next_version s) s) = (cond_abs s)(key := None)" for key
    by (auto simp: cond_abs_def current_value_def apply_tombstone_records [OF ok assms(2)] fun_eq_iff)
  show ?thesis
  proof (cases "allows_single_key_linearizable level")
    case True
    with assms(3) fresh show ?thesis
      by (cases op) (auto simp: cas rem set_if_def replace_if_present_def remove_if_value_def Let_def current_value_abs
          split: option.split)
  next
    case False
    with assms(3) show ?thesis
      by (cases op) (auto simp: compare_and_set_def replace_if_present_def remove_if_value_def)
  qed
qed

subsection \<open>Deletes\<close>

definition guarded :: "string \<Rightarrow> value_version \<times> cluster_epoch \<Rightarrow> conditional_store \<Rightarrow> bool" where
  "guarded k st s \<longleftrightarrow> (case bt_get (cs_records s) k of
       Some r \<Rightarrow> st \<le> rec_stamp r \<and> (rec_is_tombstone r \<or> st < rec_stamp r)
     | None \<Rightarrow> (case bt_get (cs_watermarks s) (partition_for_key k (cs_partition_count s)) of
         Some w \<Rightarrow> st \<le> (gw_version w, gw_epoch w) | None \<Rightarrow> False))"

lemma guarded_simps:
  "bt_get (cs_records s) k = Some r \<Longrightarrow> guarded k st s \<longleftrightarrow> st \<le> rec_stamp r \<and> (rec_is_tombstone r \<or> st < rec_stamp r)"
  "bt_get (cs_records s) k = None \<Longrightarrow> guarded k st s \<longleftrightarrow>
    (\<exists>w. bt_get (cs_watermarks s) (partition_for_key k (cs_partition_count s)) = Some w \<and> st \<le> (gw_version w, gw_epoch w))"
  by (simp_all add: guarded_def split: option.splits)

lemma guarded_view: "rec_view s' = rec_view s \<Longrightarrow> guarded k st s' = guarded k st s"
  by (cases "bt_get (cs_records s) k") (simp_all add: guarded_simps rec_view_def)

lemma guarded_count [simp]: "guarded k st (count_metric f s) = guarded k st s"
  by (rule guarded_view) simp

lemma guarded_fresh:
  assumes "recs_ok s" "guarded k st s" "cs_next_version s \<noteq> - 1"
  shows "st < (cs_next_version s, x)"
proof -
  obtain v y where vy: "st \<le> (v, y)" "v < cs_next_version s"
  proof (cases "bt_get (cs_records s) k")
    case None
    then obtain w where "bt_get (cs_watermarks s) (partition_for_key k (cs_partition_count s)) = Some w"
      "st \<le> (gw_version w, gw_epoch w)" using assms(2) by (auto simp: guarded_simps)
    with assms(1,3) show ?thesis by (intro that [of "gw_version w"]) (auto simp: recs_ok_def intro!: issued_less)
  next
    case (Some r)
    with assms show ?thesis
      by (intro that [of "rec_version r" "rec_epoch r"]) (auto simp: guarded_simps recs_ok_def rec_stamp_def intro!: issued_less)
  qed
  then show ?thesis by (cases st) (auto simp: less_prod_simp less_eq_prod_simp)
qed

lemma guarded_insert:
  assumes "guarded k st s" "key = k \<Longrightarrow> st \<le> rec_stamp r \<and> (rec_is_tombstone r \<or> st < rec_stamp r)"
  shows "guarded k st (s\<lparr>cs_next_version := v, cs_records := bt_insert key r (cs_records s)\<rparr>)"
  using assms by (cases "key = k"; cases "bt_get (cs_records s) k") (simp_all add: guarded_simps)

lemma guarded_cas:
  assumes "recs_ok s" "guarded k st s" "cs_next_version s \<noteq> - 1"
  shows "guarded k st (snd (compare_and_set key x v level s))"
  using assms(2) guarded_fresh [OF assms, of "cs_epoch s"]
  by (auto simp: compare_and_set_def Let_def record_value_def rec_stamp_def intro!: guarded_insert)

lemma guarded_version [simp]: "guarded k st (s\<lparr>cs_next_version := v\<rparr>) = guarded k st s"
  by (cases "bt_get (cs_records s) k") (simp_all add: guarded_simps)

lemma guarded_apply:
  assumes "guarded k st s"
  shows "guarded k st (snd (apply_replicated_record key r s))"
proof -
  have "st < rec_stamp r"
    if "bt_get (cs_records s) k = None" "rec_partition r = partition_for_key k (cs_partition_count s)" "\<not> below_watermark r s"
    using that assms by (auto simp: guarded_simps below_watermark_def)
  moreover have "st \<le> rec_stamp (rec_merge cur r) \<and> (rec_is_tombstone (rec_merge cur r) \<or> st < rec_stamp (rec_merge cur r))"
    if "bt_get (cs_records s) k = Some cur" for cur
    using that assms by (auto simp: guarded_simps rec_merge_def)
  ultimately show ?thesis
    using assms by (auto simp: apply_replicated_record_def Let_def intro!: guarded_insert split: option.split)
qed

lemma guarded_gc:
  assumes "recs_ok s" "guarded k st s"
  shows "guarded k st (snd (advance_tombstone_gc_watermark w s))"
proof -
  let ?P = "\<lambda>_ r. rec_partition r \<noteq> gw_partition w \<or> \<not> rec_is_tombstone r \<or> (gw_version w, gw_epoch w) < rec_stamp r"
  let ?s = "\<lambda>v m. s\<lparr>cs_next_version := v, cs_watermarks := bt_insert (gw_partition w) w (cs_watermarks s),
    cs_records := bt_retain ?P (cs_records s), cs_metrics := m\<rparr>"
  have "guarded k st (?s v m)"
    if new: "gw_epoch w = cs_epoch s" "\<And>c. bt_get (cs_watermarks s) (gw_partition w) = Some c \<Longrightarrow> gw_version c \<le> gw_version w" for v m
  proof (cases "bt_get (cs_records s) k")
    case None
    then obtain c where c: "bt_get (cs_watermarks s) (partition_for_key k (cs_partition_count s)) = Some c"
      "st \<le> (gw_version c, gw_epoch c)" using assms(2) by (auto simp: guarded_simps)
    moreover have "gw_epoch c = cs_epoch s" using assms(1) c(1) by (simp add: recs_ok_def)
    moreover have "bt_get (bt_retain ?P (cs_records s)) k = None"
      using None assms(1) by (simp add: recs_ok_def bt_get_retain)
    ultimately show ?thesis
      using new by (auto simp: guarded_simps less_eq_prod_simp intro: order_trans)
  next
    case (Some r)
    have r: "bt_get (bt_retain ?P (cs_records s)) k = (if ?P k r then Some r else None)"
      using Some assms(1) by (simp add: recs_ok_def bt_get_retain)
    have part: "rec_partition r = partition_for_key k (cs_partition_count s)"
      using Some assms(1) by (simp add: recs_ok_def)
    show ?thesis
    proof (cases "?P k r")
      case True
      with r Some assms(2) show ?thesis by (simp add: guarded_simps)
    next
      case False
      with r have "bt_get (cs_records (?s v m)) k = None" by simp
      moreover have "st \<le> (gw_version w, gw_epoch w)"
        using False Some assms(2) by (auto simp: guarded_simps)
      ultimately show ?thesis using False part by (auto simp: guarded_simps(2))
    qed
  qed
  then show ?thesis
    using assms(2) by (auto simp: advance_tombstone_gc_watermark_def Let_def not_less split: option.split)
qed

lemma next_version_mono: "cs_next_version s \<le> cs_next_version (cond_step op s)"
proof (cases "is_lock_op op")
  case True
  then show ?thesis using lock_op_rec_view [of op s] by (simp add: rec_view_def)
next
  case False
  have cas: "cs_next_version s \<le> cs_next_version (snd (compare_and_set key x v level s))" for key x v level
    by (simp add: compare_and_set_def Let_def)
  have app: "cs_next_version s \<le> cs_next_version (snd (apply_replicated_record key r s))" for key r
    by (simp add: apply_replicated_record_def Let_def split: option.split)
  show ?thesis
    using False cas app by (cases op) (simp_all add: replace_if_present_def remove_if_value_def apply_tombstone_def
        advance_tombstone_gc_watermark_def clear_for_diagnostic_reset_def Let_def split: option.split)
qed

lemma guarded_step:
  assumes "recs_ok s" "guarded k st s" "cs_next_version s \<noteq> - 1" "op \<noteq> OpReset"
  shows "guarded k st (cond_step op s)"
proof (cases "is_lock_op op")
  case True
  with assms(2) show ?thesis by (simp add: guarded_view [OF lock_op_rec_view])
next
  case False
  with assms show ?thesis
    by (cases op) (simp_all add: replace_if_present_def remove_if_value_def apply_tombstone_def guarded_cas guarded_apply
        guarded_gc Let_def split: option.split)
qed

lemma guarded_run:
  assumes "recs_ok s" "guarded k st s" "OpReset \<notin> set ops" "cs_next_version (cond_run ops s) \<noteq> - 1"
  shows "guarded k st (cond_run ops s)"
  using assms
proof (induction ops arbitrary: s)
  case (Cons op ops)
  have mono: "cs_next_version t \<le> cs_next_version (cond_run ops t)" for ops t
    by (induction ops arbitrary: t) (auto intro: order_trans next_version_mono)
  have "cs_next_version s \<noteq> - 1"
    using Cons.prems(4) mono [of s "op # ops"] by (auto dest: word_order.extremum_uniqueI)
  then have "guarded k st (cond_step op s)"
    using Cons.prems(1-3) by (intro guarded_step) auto
  with Cons.prems show ?case by (simp add: Cons.IH recs_ok_step)
qed simp

text \<open>
  C13. A deleted key does not come back by an older write, also after its tombstone was collected. Take any history after which a key
  has a tombstone, and any continuation without a reset: conditional writes, records that arrive late or repeatedly from
  replication or repair, and collections of tombstones at any point. If the key then has a live value, that value is
  strictly newer than the tombstone. The 64-bit version counter must not be exhausted.
\<close>
theorem deleted_key_stays_deleted:
  assumes "s = cond_run ops (with_lock_acquire_limit lim (cond_new e n))" "bt_get (cs_records s) key = Some r" "rec_is_tombstone r"
    and "OpReset \<notin> set ops'" "cs_next_version (cond_run ops' s) \<noteq> - 1"
    and "bt_get (cs_records (cond_run ops' s)) key = Some r'" "\<not> rec_is_tombstone r'"
  shows "rec_stamp r < rec_stamp r'"
proof -
  have "recs_ok s" using assms(1) recs_ok_run by simp
  moreover have "guarded key (rec_stamp r) s" using assms(2,3) by (simp add: guarded_simps)
  ultimately have "guarded key (rec_stamp r) (cond_run ops' s)" using assms(4,5) by (rule guarded_run)
  with assms(6,7) show ?thesis by (simp add: guarded_simps)
qed

section \<open>Examples\<close>

definition sample_owner :: "string \<Rightarrow> lock_owner" where
  "sample_owner session = \<lparr>owner_session = session, owner_endpoint = 1\<rparr>"

theorem stale_token_fenced_witness:
  "let s = cond_run [OpAcquire ''k'' Quorum (sample_owner ''a'') 10 0] (with_lock_acquire_limit (Some 1) (cond_new 1 8));
       s' = cond_run [OpForceUnlock ''k'', OpAcquire ''k'' Quorum (sample_owner ''b'') 10 11] s in
   current_fence ''k'' s = Some 1 \<and> current_fence ''k'' s' = Some 3
   \<and> fst (validate_fence_token ''k'' 1 (cond_run [OpRelease ''k'' (sample_owner ''b'') 3] s')) = Inl (StaleFenceToken None 1)"
proof -
  let ?s = "cond_run [OpAcquire ''k'' Quorum (sample_owner ''a'') 10 0] (with_lock_acquire_limit (Some 1) (cond_new 1 8))"
  let ?ops = "[OpForceUnlock ''k'', OpAcquire ''k'' Quorum (sample_owner ''b'') 10 11]"
  have e: "current_fence ''k'' ?s = Some 1" "cs_next_fence ?s \<noteq> - 1" "current_fence ''k'' (cond_run ?ops ?s) = Some 3"
    "current_fence ''k'' (cond_run [OpRelease ''k'' (sample_owner ''b'') 3] (cond_run ?ops ?s)) = None"
    by code_simp+
  show ?thesis
    using stale_token_fenced [OF refl e(1,2), of ?ops "[OpRelease ''k'' (sample_owner ''b'') 3]"] e by (simp add: Let_def)
qed

theorem lock_exclusive_witness:
  "let s = cond_run [OpAcquire ''k'' Quorum (sample_owner ''a'') 10 0] (with_lock_acquire_limit (Some 1) (cond_new 1 8)) in
   try_acquire_lock ''k'' Quorum (sample_owner ''b'') 10 5 s = (Inr None, s)
   \<and> is_locked_by ''k'' (sample_owner ''a'') (cond_step (OpExpireDue 9) s)"
proof -
  let ?s = "cond_run [OpAcquire ''k'' Quorum (sample_owner ''a'') 10 0] (with_lock_acquire_limit (Some 1) (cond_new 1 8))"
  let ?h = "\<lparr>hold_owner = sample_owner ''a'', hold_fence = 1, hold_holds = 1, hold_lease_deadline = 10\<rparr>"
  have e: "bt_get (cs_locks ?s) ''k'' = Some ?h" "cs_next_fence ?s \<noteq> - 1" "\<not> expired_at 9 ?h" "\<not> expired_at 5 ?h"
    "sample_owner ''b'' \<noteq> hold_owner ?h" "allows_single_key_linearizable Quorum"
    by code_simp+
  note x = lock_exclusive [OF refl e(1,2), where op = "OpExpireDue 9" and owner = "sample_owner ''b''" and now = 5
      and level = Quorum and lease = 10]
  from x e(3) have "held_as ''k'' ?h (cond_step (OpExpireDue 9) ?s)" by simp
  then have "is_locked_by ''k'' (sample_owner ''a'') (cond_step (OpExpireDue 9) ?s)"
    by (simp add: held_as_def is_locked_by_def split: option.splits)
  with x e(4-6) show ?thesis by (simp add: Let_def)
qed

theorem conditional_writes_refine_witness:
  "let s = cond_run [OpCas ''k'' None [1] Quorum] (with_lock_acquire_limit (Some 1) (cond_new 1 8)) in
   cond_abs s ''k'' = Some [1] \<and> cond_abs (cond_step (OpRemove ''k'' [1] AllReplicas) s) = (cond_abs s)(''k'' := None)
   \<and> write_result (OpRemove ''k'' [1] AllReplicas) s = Inr (CasApplied 2)"
proof -
  let ?s = "cond_run [OpCas ''k'' None [1] Quorum] (with_lock_acquire_limit (Some 1) (cond_new 1 8))"
  have e: "cs_next_version ?s = 2" "cond_abs ?s ''k'' = Some [1]" "allows_single_key_linearizable AllReplicas"
    by code_simp+
  show ?thesis
    using conditional_writes_refine [OF refl, of "[OpCas ''k'' None [1] Quorum]" "Some 1" 1 8 "OpRemove ''k'' [1] AllReplicas" "''k''" AllReplicas] e
    by (simp add: Let_def set_if_def)
qed

theorem deleted_key_stays_deleted_witness:
  "let p = partition_for_key ''k'' 8;
       ops = [OpCas ''k'' None [1] Quorum, OpRemove ''k'' [1] Quorum];
       ops' = [OpGc \<lparr>gw_partition = p, gw_version = 2, gw_epoch = 1, gw_replica_count = 3\<rparr>,
               OpApply ''k'' (record_value p 1 1 [1]), OpApply ''k'' (record_value p 5 1 [7])];
       s = cond_run ops (with_lock_acquire_limit (Some 1) (cond_new 1 8)) in
   \<exists>r r'. bt_get (cs_records s) ''k'' = Some r \<and> rec_is_tombstone r
     \<and> bt_get (cs_records (cond_run (butlast ops') s)) ''k'' = None
     \<and> bt_get (cs_records (cond_run ops' s)) ''k'' = Some r' \<and> rec_stamp r < rec_stamp r'"
proof -
  let ?p = "partition_for_key ''k'' 8"
  let ?s = "cond_run [OpCas ''k'' None [1] Quorum, OpRemove ''k'' [1] Quorum] (with_lock_acquire_limit (Some 1) (cond_new 1 8))"
  let ?ops = "[OpGc \<lparr>gw_partition = ?p, gw_version = 2, gw_epoch = 1, gw_replica_count = 3\<rparr>,
               OpApply ''k'' (record_value ?p 1 1 [1]), OpApply ''k'' (record_value ?p 5 1 [7])]"
  let ?r = "record_tombstone ?p 2 1 None" and ?r' = "record_value ?p 5 1 [7]"
  have e: "bt_get (cs_records ?s) ''k'' = Some ?r" "rec_is_tombstone ?r" "cs_next_version (cond_run ?ops ?s) \<noteq> - 1"
    "bt_get (cs_records (cond_run ?ops ?s)) ''k'' = Some ?r'" "\<not> rec_is_tombstone ?r'"
    "bt_get (cs_records (cond_run (butlast ?ops) ?s)) ''k'' = None"
    by code_simp+
  have "rec_stamp ?r < rec_stamp ?r'"
    by (rule deleted_key_stays_deleted [OF refl e(1,2) _ e(3-5)]) simp
  with e show ?thesis unfolding Let_def by blast
qed

end
