(* ===== verification/Client_Keys.thy ===== *)
theory Client_Keys
  imports Fnv Cache_Key
begin

text \<open>
  Keys of the client surface: structured keys and namespaces (\<open>hydracache-client-protocol/src/lib.rs\<close>), the keys under which the server stores
  values and locks (\<open>hydracache-client-transport-axum/src/lib.rs\<close>), and the encoding of binary Redis keys
  (\<open>hydracache-redis-compat/src/lib.rs\<close>). Strings are their UTF-8 bytes, as elsewhere.
\<close>

section \<open>Structured keys\<close>

text \<open>The encodings of the white space characters that \<open>trim\<close> removes.\<close>

definition white_space :: "string list" where
  "white_space = [[CHR 0x09], [CHR 0x0A], [CHR 0x0B], [CHR 0x0C], [CHR 0x0D], [CHR 0x20], [CHR 0xC2, CHR 0x85],
     [CHR 0xC2, CHR 0xA0], [CHR 0xE1, CHR 0x9A, CHR 0x80], [CHR 0xE2, CHR 0x80, CHR 0xA8], [CHR 0xE2, CHR 0x80, CHR 0xA9],
     [CHR 0xE2, CHR 0x80, CHR 0xAF], [CHR 0xE2, CHR 0x81, CHR 0x9F], [CHR 0xE3, CHR 0x80, CHR 0x80]]
     @ map (\<lambda>c. [CHR 0xE2, CHR 0x80, c]) [CHR 0x80, CHR 0x81, CHR 0x82, CHR 0x83, CHR 0x84, CHR 0x85, CHR 0x86, CHR 0x87,
          CHR 0x88, CHR 0x89, CHR 0x8A]"

fun blank_upto :: "nat \<Rightarrow> string \<Rightarrow> bool" where
  "blank_upto 0 s \<longleftrightarrow> s = []"
| "blank_upto (Suc n) s \<longleftrightarrow> s = []
     \<or> list_ex (\<lambda>w. take (length w) s = w \<and> blank_upto n (drop (length w) s)) white_space"

definition trim_is_empty :: "string \<Rightarrow> bool" where
  "trim_is_empty s \<longleftrightarrow> blank_upto (length s) s"

datatype client_protocol_error = InvalidField string

type_synonym client_namespace = string

definition namespace_new :: "string \<Rightarrow> client_protocol_error + client_namespace" where
  "namespace_new s = (if trim_is_empty s then Inl (InvalidField ''namespace'') else Inr s)"

record structured_key =
  key_segments :: "string list"

definition structured_key_new :: "string list \<Rightarrow> client_protocol_error + structured_key" where
  "structured_key_new segs =
     (if segs = [] \<or> list_ex trim_is_empty segs then Inl (InvalidField ''key_segments'')
      else Inr \<lparr>key_segments = segs\<rparr>)"

definition stable_key :: "structured_key \<Rightarrow> string" where
  "stable_key k = join '':'' (key_segments k)"

section \<open>Server keys\<close>

type_synonym store_key = "string \<times> string \<times> string"

definition store_key_of :: "string \<Rightarrow> client_namespace \<Rightarrow> structured_key \<Rightarrow> store_key" where
  "store_key_of tenant ns k = (tenant, ns, stable_key k)"

definition lock_key :: "string \<Rightarrow> client_namespace \<Rightarrow> structured_key \<Rightarrow> string" where
  "lock_key tenant ns k =
     decimal (length tenant) @ '':'' @ tenant @ ''|'' @ decimal (length ns) @ '':'' @ ns @ ''|''
     @ decimal (length (stable_key k)) @ '':'' @ stable_key k"

section \<open>Redis keys\<close>

definition hex_digit :: "nat \<Rightarrow> char" where
  "hex_digit n = (if n < 10 then char_of (48 + n) else char_of (87 + n))"

definition hex_byte :: "u8 \<Rightarrow> string" where
  "hex_byte b = [hex_digit (unat b div 16), hex_digit (unat b mod 16)]"

definition REDIS_KEY_PREFIX :: string where
  "REDIS_KEY_PREFIX = ''redis-binary-v1-''"

definition redis_key_to_structured_key :: "bytes \<Rightarrow> client_protocol_error + structured_key" where
  "redis_key_to_structured_key key =
     (let encoded = (if key = [] then ''redis-binary-v1-empty'' else REDIS_KEY_PREFIX @ concat (map hex_byte key))
      in structured_key_new [encoded])"

definition redis_keys_to_structured_keys :: "bytes list \<Rightarrow> client_protocol_error + structured_key list" where
  "redis_keys_to_structured_keys keys =
     try_fold (\<lambda>out key. result_bind (redis_key_to_structured_key key) (\<lambda>k. Inr (out @ [k]))) [] keys"

definition dedupe_structured_keys :: "structured_key list \<Rightarrow> structured_key list" where
  "dedupe_structured_keys keys = fold (\<lambda>k unique. if k \<in> set unique then unique else unique @ [k]) keys []"

definition hex_nibble :: "u8 \<Rightarrow> u8 option" where
  "hex_nibble b =
     (if 48 \<le> b \<and> b \<le> 57 then Some (b - 48)
      else if 97 \<le> b \<and> b \<le> 102 then Some (b - 97 + 10)
      else if 65 \<le> b \<and> b \<le> 70 then Some (b - 65 + 10)
      else None)"

unbundle bit_operations_syntax

fun hex_pairs :: "bytes \<Rightarrow> bytes option" where
  "hex_pairs (a # b # rest) =
     (case hex_nibble a of
        None \<Rightarrow> None
      | Some high \<Rightarrow>
          (case hex_nibble b of
             None \<Rightarrow> None
           | Some low \<Rightarrow> map_option (\<lambda>out. (push_bit 4 high OR low) # out) (hex_pairs rest)))"
| "hex_pairs _ = Some []"

definition strip_prefix :: "string \<Rightarrow> string \<Rightarrow> string option" where
  "strip_prefix prefix s = (if take (length prefix) s = prefix then Some (drop (length prefix) s) else None)"

definition redis_structured_key_to_bytes :: "structured_key \<Rightarrow> bytes option" where
  "redis_structured_key_to_bytes k =
     (case key_segments k of
        [segment] \<Rightarrow>
          if segment = ''redis-binary-v1-empty'' then Some []
          else (case strip_prefix REDIS_KEY_PREFIX segment of
            None \<Rightarrow> None
          | Some encoded \<Rightarrow> if length encoded mod 2 \<noteq> 0 then None else hex_pairs (str_bytes encoded))
      | _ \<Rightarrow> None)"

section \<open>Encoding\<close>

lemma hex_nibble_digit:
  assumes "n < 16"
  shows "hex_nibble (of_char (hex_digit n)) = Some (of_nat n)"
proof (cases "n < 10")
  case True
  then have b: "(of_char (hex_digit n) :: u8) = of_nat (48 + n)"
    by (simp add: hex_digit_def of_char_of flip: of_nat_of_char [where ?'a = u8])
  have "unat (of_nat (48 + n) :: u8) = 48 + n" using True by (subst unat_of_nat) simp
  then have "(48 :: u8) \<le> of_nat (48 + n)" "of_nat (48 + n) \<le> (57 :: u8)"
    using True by (simp_all only: word_le_nat_alt) simp_all
  then show ?thesis unfolding b hex_nibble_def by simp
next
  case False
  then have b: "(of_char (hex_digit n) :: u8) = of_nat (87 + n)"
    using assms by (simp add: hex_digit_def of_char_of flip: of_nat_of_char [where ?'a = u8])
  have "unat (of_nat (87 + n) :: u8) = 87 + n" using assms by (subst unat_of_nat) simp
  then have "\<not> of_nat (87 + n) \<le> (57 :: u8)" "(97 :: u8) \<le> of_nat (87 + n)" "of_nat (87 + n) \<le> (102 :: u8)"
    using False assms by (simp_all only: word_le_nat_alt) simp_all
  then show ?thesis unfolding b hex_nibble_def by simp
qed

lemma hex_halves: "unat (b :: u8) div 16 < 16" "unat b mod 16 < 16"
  using unat_bound [of b] by (simp_all add: less_mult_imp_div_less)

lemma hex_join: "push_bit 4 (of_nat (unat b div 16)) OR of_nat (unat b mod 16) = (b :: u8)"
proof -
  have "push_bit 4 (unat b div 16) OR (unat b mod 16) = unat b"
  proof -
    have "push_bit 4 (drop_bit 4 (unat b)) OR take_bit 4 (unat b) = unat b"
      by (rule bit_eqI) (auto simp: bit_simps)
    then show ?thesis by (simp add: drop_bit_eq_div take_bit_eq_mod)
  qed
  then have "(of_nat (push_bit 4 (unat b div 16) OR (unat b mod 16)) :: u8) = of_nat (unat b)" by (rule arg_cong)
  then show ?thesis unfolding of_nat_or_eq of_nat_push_bit by simp
qed

lemma hex_pairs_encode: "hex_pairs (str_bytes (concat (map hex_byte key))) = Some key"
  by (induction key) (simp_all add: str_bytes_def hex_byte_def hex_nibble_digit hex_halves hex_join)


lemma hex_pairs_length: "length (concat (map hex_byte key)) = 2 * length key"
  by (induction key) (simp_all add: hex_byte_def)

lemma hex_chars:
  assumes "c \<in> set (concat (map hex_byte key))"
  shows "c \<noteq> CHR '':'' \<and> c \<noteq> CHR ''m''"
proof -
  have d: "hex_digit n \<noteq> CHR '':'' \<and> hex_digit n \<noteq> CHR ''m''" if "n < 16" for n
  proof -
    have "(of_char (hex_digit n) :: nat) = (if n < 10 then 48 + n else 87 + n)"
      using that by (simp add: hex_digit_def of_char_of)
    then have "of_char (hex_digit n) \<noteq> (of_char CHR '':'' :: nat)" "of_char (hex_digit n) \<noteq> (of_char CHR ''m'' :: nat)"
      using that by (auto split: if_splits)
    then show ?thesis by auto
  qed
  from assms obtain b where "c \<in> set (hex_byte b)" by auto
  then have "c = hex_digit (unat b div 16) \<or> c = hex_digit (unat b mod 16)"
    by (auto simp: hex_byte_def)
  then show ?thesis using d hex_halves [of b] by auto
qed

definition redis_segment :: "bytes \<Rightarrow> string" where
  "redis_segment key = (if key = [] then ''redis-binary-v1-empty'' else REDIS_KEY_PREFIX @ concat (map hex_byte key))"

lemma plain_segment: "s \<noteq> [] \<Longrightarrow> hd s \<in> {CHR ''a'', CHR ''b'', CHR ''r''} \<Longrightarrow> \<not> trim_is_empty s"
proof -
  have "\<not> list_ex (\<lambda>w. take (length w) (c # s) = w \<and> blank_upto n (drop (length w) (c # s))) white_space"
    if "c \<in> {CHR ''a'', CHR ''b'', CHR ''r''}" for c s n
    using that by (auto simp: white_space_def)
  then show "s \<noteq> [] \<Longrightarrow> hd s \<in> {CHR ''a'', CHR ''b'', CHR ''r''} \<Longrightarrow> \<not> trim_is_empty s"
    by (cases s) (simp_all add: trim_is_empty_def del: insert_iff)
qed

lemma redis_segment_not_blank: "\<not> trim_is_empty (redis_segment key)"
  by (rule plain_segment) (simp_all add: redis_segment_def REDIS_KEY_PREFIX_def)

lemma redis_key_ok: "redis_key_to_structured_key key = Inr \<lparr>key_segments = [redis_segment key]\<rparr>"
  using redis_segment_not_blank [of key]
  by (simp add: redis_key_to_structured_key_def structured_key_new_def redis_segment_def [symmetric] Let_def)

lemma redis_segment_decode: "redis_structured_key_to_bytes \<lparr>key_segments = [redis_segment key]\<rparr> = Some key"
proof (cases "key = []")
  case False
  let ?h = "concat (map hex_byte key)"
  have "REDIS_KEY_PREFIX @ ?h \<noteq> ''redis-binary-v1-empty''"
  proof
    assume "REDIS_KEY_PREFIX @ ?h = ''redis-binary-v1-empty''"
    then have "?h = ''empty''" by (simp add: REDIS_KEY_PREFIX_def)
    then have "CHR ''m'' \<in> set ?h" by (simp only:) simp
    then show False using hex_chars by blast
  qed
  with False show ?thesis
    by (simp add: redis_structured_key_to_bytes_def redis_segment_def strip_prefix_def hex_pairs_encode hex_pairs_length)
qed (simp add: redis_structured_key_to_bytes_def redis_segment_def)

lemma redis_segment_no_colon: "CHR '':'' \<notin> set (redis_segment key)"
  using hex_chars [of "CHR '':''" key] by (auto simp: redis_segment_def REDIS_KEY_PREFIX_def)

section \<open>Length prefixes\<close>

lemma length_prefix_inject:
  assumes "decimal (length a) @ '':'' @ a @ x = decimal (length b) @ '':'' @ b @ y"
  shows "a = b \<and> x = y"
proof -
  have tw: "takeWhile (\<lambda>c. c \<noteq> CHR '':'') (decimal n @ '':'' @ z) = decimal n" for n z
    using decimal_no_colon [of n] by (subst takeWhile_append2) auto
  have "decimal (length a) = decimal (length b)"
    using arg_cong [OF assms, of "takeWhile (\<lambda>c. c \<noteq> CHR '':'')"] by (simp only: tw)
  with assms show ?thesis by simp
qed

lemma lock_key_inject:
  "lock_key t n k = lock_key t' n' k' \<longleftrightarrow> t = t' \<and> n = n' \<and> stable_key k = stable_key k'"
proof
  assume "lock_key t n k = lock_key t' n' k'"
  then have 1: "decimal (length t) @ '':'' @ t @ (''|'' @ decimal (length n) @ '':'' @ n @ ''|''
      @ decimal (length (stable_key k)) @ '':'' @ stable_key k) =
    decimal (length t') @ '':'' @ t' @ (''|'' @ decimal (length n') @ '':'' @ n' @ ''|''
      @ decimal (length (stable_key k')) @ '':'' @ stable_key k')"
    by (simp add: lock_key_def)
  from length_prefix_inject [OF 1] have t: "t = t'"
    and 2: "decimal (length n) @ '':'' @ n @ (''|'' @ decimal (length (stable_key k)) @ '':'' @ stable_key k) =
      decimal (length n') @ '':'' @ n' @ (''|'' @ decimal (length (stable_key k')) @ '':'' @ stable_key k')"
    by simp_all
  from length_prefix_inject [OF 2] have n: "n = n'"
    and 3: "decimal (length (stable_key k)) @ '':'' @ stable_key k @ [] =
      decimal (length (stable_key k')) @ '':'' @ stable_key k' @ []"
    by simp_all
  from length_prefix_inject [OF 3] t n show "t = t' \<and> n = n' \<and> stable_key k = stable_key k'" by simp
qed (simp add: lock_key_def)

text \<open>
  C21. Binary Redis keys are stored faithfully and apart. Every byte string, the empty one included, is accepted as a key and
  decodes to itself; two keys of any tenants and namespaces share a stored value, or a lock, only if
  tenant, namespace and key are all the same.
\<close>
theorem redis_keys_roundtrip:
  "\<exists>k. redis_key_to_structured_key key = Inr k \<and> redis_structured_key_to_bytes k = Some key
     \<and> (\<forall>key' k' t n t' n'. redis_key_to_structured_key key' = Inr k' \<longrightarrow>
          (store_key_of t n k = store_key_of t' n' k' \<longleftrightarrow> t = t' \<and> n = n' \<and> key = key')
          \<and> (lock_key t n k = lock_key t' n' k' \<longleftrightarrow> t = t' \<and> n = n' \<and> key = key'))"
proof -
  have "redis_segment key = redis_segment key' \<longleftrightarrow> key = key'" for key'
    using redis_segment_decode by (metis option.inject)
  then show ?thesis
    by (auto simp: redis_key_ok redis_segment_decode store_key_of_def lock_key_inject stable_key_def)
qed

theorem redis_keys_roundtrip_witness:
  "redis_key_to_structured_key [0, 58, 255] = Inr \<lparr>key_segments = [''redis-binary-v1-003aff'']\<rparr>
   \<and> redis_structured_key_to_bytes \<lparr>key_segments = [''redis-binary-v1-003aff'']\<rparr> = Some [0, 58, 255]"
proof -
  have "redis_key_to_structured_key [0, 58, 255] = Inr \<lparr>key_segments = [''redis-binary-v1-003aff'']\<rparr>" by code_simp
  with redis_keys_roundtrip [of "[0, 58, 255]"] show ?thesis by auto
qed

lemma stable_key_split:
  assumes "key_segments k \<noteq> []" "\<forall>s \<in> set (key_segments k). CHR '':'' \<notin> set s"
  shows "split_colon (stable_key k) = key_segments k"
  unfolding stable_key_def using assms by (rule split_colon_join)

lemma stable_key_collision: "stable_key \<lparr>key_segments = [''a:b'']\<rparr> = stable_key \<lparr>key_segments = [''a'', ''b'']\<rparr>"
  by (simp add: stable_key_def)

text \<open>
  C39. Structured keys with a colon in a segment share stored values with other keys. For keys whose segments have no colon, the
  key of the store determines the key. But the distinct valid keys with the one segment \<open>a:b\<close> and with
  the two segments \<open>a\<close> and \<open>b\<close> have the same store key and the same lock key, for every tenant and
  namespace: one reads and overwrites the value of the other.
\<close>
theorem structured_keys_collide:
  "(\<forall>k k'. (key_segments k \<noteq> [] \<and> key_segments k' \<noteq> []
        \<and> (\<forall>s \<in> set (key_segments k) \<union> set (key_segments k'). CHR '':'' \<notin> set s))
      \<longrightarrow> (store_key_of t n k = store_key_of t n k' \<longleftrightarrow> key_segments k = key_segments k'))
   \<and> structured_key_new [''a:b''] = Inr \<lparr>key_segments = [''a:b'']\<rparr>
   \<and> structured_key_new [''a'', ''b''] = Inr \<lparr>key_segments = [''a'', ''b'']\<rparr>
   \<and> store_key_of t n \<lparr>key_segments = [''a:b'']\<rparr> = store_key_of t n \<lparr>key_segments = [''a'', ''b'']\<rparr>
   \<and> lock_key t n \<lparr>key_segments = [''a:b'']\<rparr> = lock_key t n \<lparr>key_segments = [''a'', ''b'']\<rparr>"
proof -
  have "store_key_of t n k = store_key_of t n k' \<longleftrightarrow> key_segments k = key_segments k'"
    if a: "key_segments k \<noteq> [] \<and> key_segments k' \<noteq> []
      \<and> (\<forall>s \<in> set (key_segments k) \<union> set (key_segments k'). CHR '':'' \<notin> set s)" for k k'
  proof
    assume "store_key_of t n k = store_key_of t n k'"
    then have "split_colon (stable_key k) = split_colon (stable_key k')" by (simp add: store_key_of_def)
    then show "key_segments k = key_segments k'" using a by (simp add: stable_key_split)
  qed (simp add: store_key_of_def stable_key_def)
  moreover have "structured_key_new [''a:b''] = Inr \<lparr>key_segments = [''a:b'']\<rparr>"
    by (simp add: structured_key_new_def plain_segment)
  moreover have "structured_key_new [''a'', ''b''] = Inr \<lparr>key_segments = [''a'', ''b'']\<rparr>"
    by (simp add: structured_key_new_def plain_segment)
  moreover have "store_key_of t n \<lparr>key_segments = [''a:b'']\<rparr> = store_key_of t n \<lparr>key_segments = [''a'', ''b'']\<rparr>"
    "lock_key t n \<lparr>key_segments = [''a:b'']\<rparr> = lock_key t n \<lparr>key_segments = [''a'', ''b'']\<rparr>"
    by (simp_all only: store_key_of_def lock_key_inject stable_key_collision)
  ultimately show ?thesis by blast
qed

theorem structured_keys_collide_witness:
  "store_key_of ''t'' ''n'' \<lparr>key_segments = [''a'', ''b'']\<rparr> \<noteq> store_key_of ''t'' ''n'' \<lparr>key_segments = [''ab'']\<rparr>"
  using structured_keys_collide [of "''t''" "''n''", THEN conjunct1, rule_format,
      of "\<lparr>key_segments = [''a'', ''b'']\<rparr>" "\<lparr>key_segments = [''ab'']\<rparr>"]
  by simp

end
