(* ===== verification/Redis_Glob.thy ===== *)
theory Redis_Glob
  imports Prelude
begin

text \<open>
  The pattern matcher of the Redis keyspace subscriptions (\<open>redis_glob_matches\<close> of
  \<open>hydracache-redis-compat/src/lib.rs\<close>): two index loops with one remembered star, and a specification by tokens. The
  theorem is that the loops end and decide exactly the specification.
\<close>

section \<open>The matcher\<close>

definition glob_class_start :: "bytes \<Rightarrow> nat \<Rightarrow> nat" where
  "glob_class_start pattern index = (if pattern ! index = 92 \<and> index + 1 < length pattern then index + 1 else index)"

lemma glob_class_start_ge: "index \<le> glob_class_start pattern index"
  by (simp add: glob_class_start_def)

function glob_class_loop :: "bytes \<Rightarrow> u8 \<Rightarrow> bool \<Rightarrow> nat \<Rightarrow> bool \<Rightarrow> bool \<Rightarrow> (nat \<times> bool) option" where
  "glob_class_loop pattern candidate negated index matched saw_item =
     (if index < length pattern then
        if pattern ! index = 93 \<and> saw_item then Some (index + 1, if negated then \<not> matched else matched)
        else
          let index = glob_class_start pattern index;
              start = pattern ! index
          in if index + 2 < length pattern \<and> pattern ! (index + 1) = 45 \<and> pattern ! (index + 2) \<noteq> 93
             then glob_class_loop pattern candidate negated (index + 3)
                    (matched \<or> start \<le> candidate \<and> candidate \<le> pattern ! (index + 2)) True
             else glob_class_loop pattern candidate negated (index + 1) (matched \<or> start = candidate) True
      else None)"
  by pat_completeness auto
termination
  by (relation "measure (\<lambda>(pattern, _, _, index, _, _). length pattern - index)")
    (auto simp: glob_class_start_def split: if_splits)

declare glob_class_loop.simps [simp del]

definition glob_class_match :: "bytes \<Rightarrow> nat \<Rightarrow> u8 \<Rightarrow> (nat \<times> bool) option" where
  "glob_class_match pattern open_index candidate =
     (let index = open_index + 1;
          negated = (index < length pattern \<and> pattern ! index \<in> {94, 33})
      in glob_class_loop pattern candidate negated (if negated then index + 1 else index) False False)"

definition glob_next :: "bytes \<Rightarrow> nat \<Rightarrow> u8 \<Rightarrow> nat option" where
  "glob_next pattern pi b =
     (if pi < length pattern then
        if pattern ! pi = 63 then Some (pi + 1)
        else if pattern ! pi = 92 \<and> pi + 1 < length pattern
        then (if pattern ! (pi + 1) = b then Some (pi + 2) else None)
        else if pattern ! pi = 91
        then (case glob_class_match pattern pi b of
                Some (next_pattern, True) \<Rightarrow> Some next_pattern
              | Some (_, False) \<Rightarrow> None
              | None \<Rightarrow> if b = 91 then Some (pi + 1) else None)
        else if pattern ! pi = b then Some (pi + 1) else None
      else None)"

function glob_tail :: "bytes \<Rightarrow> nat \<Rightarrow> bool" where
  "glob_tail pattern pi = (if pi < length pattern \<and> pattern ! pi = 42 then glob_tail pattern (pi + 1) else pi = length pattern)"
  by pat_completeness auto
termination
  by (relation "measure (\<lambda>(pattern, pi). length pattern - pi)") auto

declare glob_tail.simps [simp del]

function glob_loop :: "bytes \<Rightarrow> bytes \<Rightarrow> nat \<Rightarrow> nat \<Rightarrow> nat option \<Rightarrow> nat \<Rightarrow> bool" where
  "glob_loop pattern v pi vi star sv =
     (if vi < length v then
        if pi < length pattern \<and> pattern ! pi = 42 then glob_loop pattern v (pi + 1) vi (Some pi) vi
        else (case glob_next pattern pi (v ! vi) of
            Some next_pattern \<Rightarrow> glob_loop pattern v next_pattern (vi + 1) star sv
          | None \<Rightarrow>
              (case star of
                 None \<Rightarrow> False
               | Some s \<Rightarrow> glob_loop pattern v (s + 1) (sv + 1) star (sv + 1)))
      else glob_tail pattern pi)"
  by pat_completeness auto
termination
  by (relation "measures
      [\<lambda>(pattern, v, pi, vi, star, sv).
         if vi < length v then (case star of None \<Rightarrow> length v + 2 | Some _ \<Rightarrow> Suc (length v - min sv vi)) else 0,
       \<lambda>(pattern, v, pi, vi, star, sv). length v - vi,
       \<lambda>(pattern, v, pi, vi, star, sv). length pattern - pi]")
    (auto split: option.splits)

declare glob_loop.simps [simp del]

definition redis_glob_matches :: "bytes \<Rightarrow> bytes \<Rightarrow> bool" where
  "redis_glob_matches pattern v = glob_loop pattern v 0 0 None 0"

section \<open>Specification\<close>

datatype glob_token = AnyString | AnyByte | Literal u8 | ByteClass bool "(u8 \<times> u8) list"

fun token_matches :: "glob_token \<Rightarrow> u8 \<Rightarrow> bool" where
  "token_matches AnyString b = False"
| "token_matches AnyByte b = True"
| "token_matches (Literal c) b = (c = b)"
| "token_matches (ByteClass negated items) b = (negated \<noteq> list_ex (\<lambda>(lo, hi). lo \<le> b \<and> b \<le> hi) items)"

fun glob_spec :: "glob_token list \<Rightarrow> bytes \<Rightarrow> bool" where
  "glob_spec [] v = (v = [])"
| "glob_spec (AnyString # ts) [] = glob_spec ts []"
| "glob_spec (AnyString # ts) (b # v) = (glob_spec ts (b # v) \<or> glob_spec (AnyString # ts) v)"
| "glob_spec (t # ts) [] = False"
| "glob_spec (t # ts) (b # v) = (token_matches t b \<and> glob_spec ts v)"

function class_items :: "bool \<Rightarrow> bytes \<Rightarrow> ((u8 \<times> u8) list \<times> bytes) option" where
  "class_items saw [] = None"
| "class_items saw (b # bs) =
     (if b = 93 \<and> saw then Some ([], bs)
      else
        let (start, rest) = (if b = 92 \<and> bs \<noteq> [] then (hd bs, tl bs) else (b, bs))
        in if 2 \<le> length rest \<and> rest ! 0 = 45 \<and> rest ! 1 \<noteq> 93
           then map_option (\<lambda>(items, out). ((start, rest ! 1) # items, out)) (class_items True (drop 2 rest))
           else map_option (\<lambda>(items, out). ((start, start) # items, out)) (class_items True rest))"
  by pat_completeness auto
termination
  by (relation "measure (\<lambda>(_, bs). length bs)") (auto split: if_splits)

declare class_items.simps(2) [simp del]

definition parse_class :: "bytes \<Rightarrow> (glob_token \<times> bytes) option" where
  "parse_class bs =
     (let negated = (bs \<noteq> [] \<and> hd bs \<in> {94, 33})
      in map_option (\<lambda>(items, out). (ByteClass negated items, out)) (class_items False (if negated then tl bs else bs)))"

definition glob_token_at :: "u8 \<Rightarrow> bytes \<Rightarrow> glob_token \<times> bytes" where
  "glob_token_at b bs =
     (if b = 42 then (AnyString, bs)
      else if b = 63 then (AnyByte, bs)
      else if b = 92 \<and> bs \<noteq> [] then (Literal (hd bs), tl bs)
      else if b = 91 then (case parse_class bs of Some (t, out) \<Rightarrow> (t, out) | None \<Rightarrow> (Literal 91, bs))
      else (Literal b, bs))"

lemma class_items_suffix: "class_items saw bs = Some (items, out) \<Longrightarrow> \<exists>pre. bs = pre @ out"
proof (induction saw bs arbitrary: items rule: class_items.induct)
  case (2 saw b bs)
  show ?case
  proof (cases "b = 93 \<and> saw")
    case True
    with "2.prems" show ?thesis by (simp add: class_items.simps(2))
  next
    case False
    obtain start rest where sr: "(if b = 92 \<and> bs \<noteq> [] then (hd bs, tl bs) else (b, bs)) = (start, rest)"
      by fastforce
    then have "\<exists>pre. b # bs = pre @ rest" by (auto split: if_splits) (metis append_Cons append_Nil list.collapse)+
    then obtain pre where pre: "b # bs = pre @ rest" ..
    show ?thesis
    proof (cases "2 \<le> length rest \<and> rest ! 0 = 45 \<and> rest ! 1 \<noteq> 93")
      case True
      with "2.prems" False sr obtain its where "class_items True (drop 2 rest) = Some (its, out)"
        by (auto simp: class_items.simps(2))
      from "2.IH"(1) [OF False sr [symmetric] refl True this] obtain q where "drop 2 rest = q @ out" ..
      then have "rest = take 2 rest @ q @ out" by (metis append_take_drop_id)
      with pre show ?thesis by (metis append_assoc)
    next
      case no: False
      with "2.prems" False sr obtain its where "class_items True rest = Some (its, out)"
        by (auto simp: class_items.simps(2))
      from "2.IH"(2) [OF False sr [symmetric] refl no this] obtain q where "rest = q @ out" ..
      with pre show ?thesis by (metis append_assoc)
    qed
  qed
qed simp

lemma parse_class_suffix: "parse_class bs = Some (t, out) \<Longrightarrow> \<exists>pre. bs = pre @ out"
proof -
  assume "parse_class bs = Some (t, out)"
  then obtain items where items: "class_items False (if bs \<noteq> [] \<and> hd bs \<in> {94, 33} then tl bs else bs) = Some (items, out)"
    unfolding parse_class_def Let_def by auto
  from class_items_suffix [OF items] obtain pre
    where "(if bs \<noteq> [] \<and> hd bs \<in> {94, 33} then tl bs else bs) = pre @ out" ..
  then have "bs = pre @ out \<or> bs = (hd bs # pre) @ out"
    by (metis append_Cons list.collapse)
  then show ?thesis by blast
qed

lemma glob_token_at_length: "length (snd (glob_token_at b bs)) \<le> length bs"
proof -
  have "length out \<le> length bs" if "parse_class bs = Some (t, out)" for t out
    using parse_class_suffix [OF that] by auto
  then show ?thesis by (auto simp: glob_token_at_def split: option.splits)
qed

function glob_tokens :: "bytes \<Rightarrow> glob_token list" where
  "glob_tokens [] = []"
| "glob_tokens (b # bs) = (case glob_token_at b bs of (t, rest) \<Rightarrow> t # glob_tokens rest)"
  by pat_completeness auto
termination
  by (relation "measure length") (auto simp: less_Suc_eq_le, metis glob_token_at_length snd_conv)

section \<open>Correctness\<close>

lemma drop_cons: "i < length p \<Longrightarrow> drop i p = p ! i # drop (i + 1) p"
  by (simp add: Cons_nth_drop_Suc)

lemma class_loop_items:
  "glob_class_loop p c neg i m saw =
    (case class_items saw (drop i p) of None \<Rightarrow> None
     | Some (items, out) \<Rightarrow> Some (length p - length out, neg \<noteq> (m \<or> list_ex (\<lambda>(lo, hi). lo \<le> c \<and> c \<le> hi) items)))"
proof (induction p c neg i m saw rule: glob_class_loop.induct)
  case (1 p c neg i m saw)
  show ?case
  proof (cases "i < length p")
    case False
    then show ?thesis by (simp add: glob_class_loop.simps [of p c neg i])
  next
    case i: True
    note step = glob_class_loop.simps [of p c neg i m saw] class_items.simps(2) [of saw "p ! i" "drop (i + 1) p"]
    show ?thesis
    proof (cases "p ! i = 93 \<and> saw")
      case True
      then show ?thesis unfolding drop_cons [OF i] step using i by auto
    next
      case False
      define k where "k = glob_class_start p i"
      have k: "k < length p" using i by (simp add: k_def glob_class_start_def)
      have sr: "(if p ! i = 92 \<and> drop (i + 1) p \<noteq> [] then (hd (drop (i + 1) p), tl (drop (i + 1) p)) else (p ! i, drop (i + 1) p))
        = (p ! k, drop (k + 1) p)"
        by (auto simp: k_def glob_class_start_def hd_drop_conv_nth tl_drop drop_Suc [symmetric])
      have cond: "(2 \<le> length (drop (k + 1) p) \<and> drop (k + 1) p ! 0 = 45 \<and> drop (k + 1) p ! 1 \<noteq> 93)
        \<longleftrightarrow> (k + 2 < length p \<and> p ! (k + 1) = 45 \<and> p ! (k + 2) \<noteq> 93)"
        by (auto simp: add.commute)
      show ?thesis
      proof (cases "k + 2 < length p \<and> p ! (k + 1) = 45 \<and> p ! (k + 2) \<noteq> 93")
        case True
        have "glob_class_loop p c neg i m saw = glob_class_loop p c neg (k + 3) (m \<or> p ! k \<le> c \<and> c \<le> p ! (k + 2)) True"
          unfolding step(1) Let_def k_def [symmetric] using i False True by auto
        moreover have "class_items saw (drop i p) =
          map_option (\<lambda>(items, out). ((p ! k, p ! (k + 2)) # items, out)) (class_items True (drop (k + 3) p))"
          unfolding drop_cons [OF i] step(2) if_not_P [OF False] sr Let_def prod.case if_P [OF cond [THEN iffD2, OF True]]
          using True by (simp add: add.commute numeral_3_eq_3)
        ultimately show ?thesis
          using "1.IH"(1) [OF i False k_def refl] True by (auto split: option.splits)
      next
        case no: False
        have "glob_class_loop p c neg i m saw = glob_class_loop p c neg (k + 1) (m \<or> p ! k = c) True"
          unfolding step(1) Let_def k_def [symmetric] using i False no by auto
        moreover have "class_items saw (drop i p) =
          map_option (\<lambda>(items, out). ((p ! k, p ! k) # items, out)) (class_items True (drop (k + 1) p))"
          unfolding drop_cons [OF i] step(2) if_not_P [OF False] sr Let_def prod.case
          using no cond by (simp only: if_False simp_thms)
        ultimately show ?thesis
          using "1.IH"(2) [OF i False k_def refl] no by (auto split: option.splits)
      qed
    qed
  qed
qed

lemma drop_suffix: "p = pre @ out \<Longrightarrow> drop (length p - length out) p = out"
  by simp

lemma parse_class_match:
  assumes "i < length p"
  shows "glob_class_match p i b =
    (case parse_class (drop (i + 1) p) of None \<Rightarrow> None | Some (t, out) \<Rightarrow> Some (length p - length out, token_matches t b))"
proof -
  define neg where "neg \<longleftrightarrow> i + 1 < length p \<and> p ! (i + 1) \<in> {94, 33}"
  have "(drop (i + 1) p \<noteq> [] \<and> hd (drop (i + 1) p) \<in> {94, 33}) = neg"
    by (auto simp: neg_def hd_drop_conv_nth)
  moreover have "(if neg then tl (drop (i + 1) p) else drop (i + 1) p) = drop (if neg then i + 1 + 1 else i + 1) p"
    by (simp add: tl_drop drop_Suc [symmetric])
  ultimately show ?thesis
    unfolding glob_class_match_def parse_class_def Let_def neg_def [symmetric] class_loop_items
    by (auto split: option.splits)
qed

text \<open>One token of the pattern: where it ends does not depend on the byte it is matched with.\<close>

lemma glob_next_token:
  assumes "i < length p" "p ! i \<noteq> 42"
  shows "\<exists>t j. glob_tokens (drop i p) = t # glob_tokens (drop j p) \<and> t \<noteq> AnyString \<and> j \<le> length p
    \<and> (\<forall>b. glob_next p i b = (if token_matches t b then Some j else None))"
proof -
  obtain t rest where tr: "glob_token_at (p ! i) (drop (i + 1) p) = (t, rest)" by fastforce
  have toks: "glob_tokens (drop i p) = t # glob_tokens rest"
    unfolding drop_cons [OF assms(1)] using tr by simp
  have "t \<noteq> AnyString \<and> (\<exists>j \<le> length p. rest = drop j p \<and> (\<forall>b. glob_next p i b = (if token_matches t b then Some j else None)))"
  proof (cases "p ! i = 91")
    case True
    show ?thesis
    proof (cases "parse_class (drop (i + 1) p)")
      case None
      with True tr have "t = Literal 91" "rest = drop (i + 1) p" by (simp_all add: glob_token_at_def)
      with True None assms show ?thesis
        by (auto simp: glob_next_def parse_class_match intro!: exI [of _ "i + 1"])
    next
      case (Some to)
      with True tr have to: "to = (t, rest)" by (auto simp: glob_token_at_def split: prod.splits)
      then obtain pre where "drop (i + 1) p = pre @ rest" using Some parse_class_suffix by blast
      then have "p = (take (i + 1) p @ pre) @ rest" by (metis append_assoc append_take_drop_id)
      from drop_suffix [OF this] have "rest = drop (length p - length rest) p" by simp
      moreover have "t \<noteq> AnyString" using Some to by (auto simp: parse_class_def Let_def)
      ultimately show ?thesis
        using True Some to assms
        by (intro conjI exI [of _ "length p - length rest"]) (auto simp: glob_next_def parse_class_match)
    qed
  next
    case False
    consider (any) "p ! i = 63" | (escaped) "p ! i = 92" "i + 1 < length p"
      | (plain) "p ! i \<noteq> 63" "\<not> (p ! i = 92 \<and> i + 1 < length p)" by blast
    then show ?thesis
    proof cases
      case any
      with False tr assms have "t = AnyByte" "rest = drop (i + 1) p" by (simp_all add: glob_token_at_def)
      with any assms show ?thesis by (intro conjI exI [of _ "i + 1"]) (simp_all add: glob_next_def)
    next
      case escaped
      with False tr assms have "t = Literal (p ! (i + 1))" "rest = drop (i + 2) p"
        by (auto simp: glob_token_at_def hd_drop_conv_nth tl_drop drop_Suc [symmetric])
      with escaped assms show ?thesis by (intro conjI exI [of _ "i + 2"]) (simp_all add: glob_next_def)
    next
      case plain
      with False tr assms have "t = Literal (p ! i)" "rest = drop (i + 1) p"
        by (auto simp: glob_token_at_def split: if_splits)
      moreover have "glob_next p i b = (if p ! i = b then Some (i + 1) else None)" for b
        unfolding glob_next_def using plain False assms(1) by auto
      ultimately show ?thesis using assms(1) by (intro conjI exI [of _ "i + 1"]) simp_all
    qed
  qed
  with toks show ?thesis by blast
qed

lemma glob_tokens_star: "i < length p \<Longrightarrow> p ! i = 42 \<Longrightarrow> glob_tokens (drop i p) = AnyString # glob_tokens (drop (i + 1) p)"
  by (simp add: drop_cons glob_token_at_def)

lemma glob_spec_star: "glob_spec (AnyString # ts) (drop j v) \<longleftrightarrow> (\<exists>k \<ge> j. k \<le> max j (length v) \<and> glob_spec ts (drop k v))"
proof -
  have "glob_spec (AnyString # ts) w \<longleftrightarrow> (\<exists>n \<le> length w. glob_spec ts (drop n w))" for w
  proof (induction w)
    case (Cons b w)
    have "(\<exists>n \<le> length (b # w). glob_spec ts (drop n (b # w))) \<longleftrightarrow> glob_spec ts (b # w) \<or> (\<exists>n \<le> length w. glob_spec ts (drop n w))"
      by (metis Suc_le_mono drop0 drop_Suc_Cons le0 length_Cons not0_implies_Suc)
    with Cons show ?case by simp
  qed simp
  then have "glob_spec (AnyString # ts) (drop j v) \<longleftrightarrow> (\<exists>n \<le> length v - j. glob_spec ts (drop (n + j) v))" by simp
  also have "\<dots> \<longleftrightarrow> (\<exists>k \<ge> j. k \<le> max j (length v) \<and> glob_spec ts (drop k v))"
  proof
    assume "\<exists>n \<le> length v - j. glob_spec ts (drop (n + j) v)"
    then obtain n where "n \<le> length v - j" "glob_spec ts (drop (n + j) v)" by blast
    then show "\<exists>k \<ge> j. k \<le> max j (length v) \<and> glob_spec ts (drop k v)" by (intro exI [of _ "n + j"]) auto
  next
    assume "\<exists>k \<ge> j. k \<le> max j (length v) \<and> glob_spec ts (drop k v)"
    then obtain k where "j \<le> k" "k \<le> max j (length v)" "glob_spec ts (drop k v)" by blast
    then show "\<exists>n \<le> length v - j. glob_spec ts (drop (n + j) v)" by (intro exI [of _ "k - j"]) auto
  qed
  finally show ?thesis .
qed

lemma glob_spec_token: "t \<noteq> AnyString \<Longrightarrow> glob_spec (t # ts) w \<longleftrightarrow> w \<noteq> [] \<and> token_matches t (hd w) \<and> glob_spec ts (tl w)"
  by (cases t; cases w) simp_all

lemma glob_tail_spec: "i \<le> length p \<Longrightarrow> glob_tail p i \<longleftrightarrow> glob_spec (glob_tokens (drop i p)) []"
proof (induction p i rule: glob_tail.induct)
  case (1 p i)
  show ?case
  proof (cases "i < length p")
    case True
    show ?thesis
    proof (cases "p ! i = 42")
      case star: True
      with True 1 show ?thesis by (simp add: glob_tail.simps [of p i] glob_tokens_star)
    next
      case False
      obtain t j where "glob_tokens (drop i p) = t # glob_tokens (drop j p)" "t \<noteq> AnyString"
        using glob_next_token [OF True False] by blast
      with True False show ?thesis by (simp add: glob_tail.simps [of p i] glob_spec_token)
    qed
  next
    case False
    with "1.prems" show ?thesis unfolding glob_tail.simps [of p i] by simp
  qed
qed

text \<open>
  The loop at pattern position \<open>i\<close> and value position \<open>j\<close>, with a star remembered at \<open>st\<close> that has absorbed the value up to \<open>sv\<close>.
  Whatever the pattern after the star matches at some position is matched by the rest of the pattern as many bytes
  later as the loop has advanced since; so an earlier star never needs to be tried again once a later one is reached.
\<close>

definition glob_at :: "bytes \<Rightarrow> bytes \<Rightarrow> nat \<Rightarrow> nat \<Rightarrow> bool" where
  "glob_at p v i j = glob_spec (glob_tokens (drop i p)) (drop j v)"

definition star_inv :: "bytes \<Rightarrow> bytes \<Rightarrow> nat \<Rightarrow> nat \<Rightarrow> nat option \<Rightarrow> nat \<Rightarrow> bool" where
  "star_inv p v i j star sv \<longleftrightarrow> (case star of None \<Rightarrow> True | Some st \<Rightarrow> sv \<le> j \<and> st < length p
     \<and> (\<forall>k \<le> length v. glob_at p v (st + 1) k \<longrightarrow> k + (j - sv) \<le> length v \<and> glob_at p v i (k + (j - sv))))"

definition retry :: "bytes \<Rightarrow> bytes \<Rightarrow> nat option \<Rightarrow> nat \<Rightarrow> bool" where
  "retry p v star sv \<longleftrightarrow> (case star of None \<Rightarrow> False | Some st \<Rightarrow> \<exists>k > sv. k \<le> length v \<and> glob_at p v (st + 1) k)"

lemma glob_at_star:
  assumes "i < length p" "p ! i = 42" "j \<le> length v"
  shows "glob_at p v i j \<longleftrightarrow> (\<exists>k \<ge> j. k \<le> length v \<and> glob_at p v (i + 1) k)"
  using assms by (simp add: glob_at_def glob_tokens_star glob_spec_star max_def)

lemma glob_at_next:
  assumes "i < length p" "p ! i \<noteq> 42" "j < length v" "glob_next p i (v ! j) = Some i'"
  shows "i' \<le> length p \<and> glob_at p v i j = glob_at p v i' (j + 1)
    \<and> (\<forall>k \<le> length v. glob_at p v i k \<longrightarrow> k < length v \<and> glob_at p v i' (k + 1))"
proof -
  obtain t l where t: "glob_tokens (drop i p) = t # glob_tokens (drop l p)" "t \<noteq> AnyString" "l \<le> length p"
    "\<forall>b. glob_next p i b = (if token_matches t b then Some l else None)"
    using glob_next_token [OF assms(1,2)] by blast
  with assms(4) have "l = i'" "token_matches t (v ! j)" by (auto split: if_splits)
  with t assms(3) show ?thesis
    by (auto simp: glob_at_def glob_spec_token hd_drop_conv_nth tl_drop drop_Suc [symmetric])
qed

lemma glob_at_stuck:
  assumes "\<not> (i < length p \<and> p ! i = 42)" "j < length v" "glob_next p i (v ! j) = None"
  shows "\<not> glob_at p v i j"
proof (cases "i < length p")
  case True
  with assms(1) obtain t l where "glob_tokens (drop i p) = t # glob_tokens (drop l p)" "t \<noteq> AnyString"
    "\<forall>b. glob_next p i b = (if token_matches t b then Some l else None)"
    using glob_next_token [of i p] by blast
  with assms(2,3) show ?thesis by (auto simp: glob_at_def glob_spec_token hd_drop_conv_nth split: if_splits)
qed (use assms(2) in \<open>simp add: glob_at_def\<close>)

lemma retry_from:
  "sv < length v \<Longrightarrow> glob_at p v (st + 1) (sv + 1) \<or> retry p v (Some st) (sv + 1) \<longleftrightarrow> retry p v (Some st) sv"
proof -
  assume "sv < length v"
  then have "(\<exists>k > sv. k \<le> length v \<and> glob_at p v (st + 1) k) \<longleftrightarrow>
      glob_at p v (st + 1) (sv + 1) \<or> (\<exists>k > sv + 1. k \<le> length v \<and> glob_at p v (st + 1) k)"
    by (metis Suc_eq_plus1 Suc_leI Suc_lessD Suc_lessI lessI)
  then show ?thesis by (simp only: retry_def option.case)
qed

lemma retry_star:
  assumes "i < length p" "p ! i = 42" "j \<le> length v"
  shows "glob_at p v (i + 1) j \<or> retry p v (Some i) j \<longleftrightarrow> glob_at p v i j"
  unfolding glob_at_star [OF assms] retry_def option.case using assms(3) by (metis le_eq_less_or_eq)

lemma retry_absorbed:
  assumes "i < length p" "p ! i = 42" "j \<le> length v" "star_inv p v i j star sv" "retry p v star sv"
  shows "glob_at p v i j"
proof -
  from assms(5) obtain st k where k: "star = Some st" "sv < k" "k \<le> length v" "glob_at p v (st + 1) k"
    by (auto simp: retry_def split: option.splits)
  with assms(4) have "k + (j - sv) \<le> length v" "glob_at p v i (k + (j - sv))"
    by (auto simp: star_inv_def)
  then obtain k' where "k + (j - sv) \<le> k'" "k' \<le> length v" "glob_at p v (i + 1) k'"
    using glob_at_star [OF assms(1,2), of "k + (j - sv)" v] by blast
  moreover have "j \<le> k + (j - sv)" using k(2) by simp
  ultimately show ?thesis unfolding glob_at_star [OF assms(1-3)] by (meson le_trans)
qed

lemma star_inv_start: "st < length p \<Longrightarrow> star_inv p v (st + 1) j (Some st) j"
  by (simp add: star_inv_def)

lemma star_inv_next:
  assumes "star_inv p v i j star sv" "\<forall>k \<le> length v. glob_at p v i k \<longrightarrow> k < length v \<and> glob_at p v i' (k + 1)"
  shows "star_inv p v i' (j + 1) star sv"
proof (cases star)
  case (Some st)
  have "k + (j + 1 - sv) \<le> length v \<and> glob_at p v i' (k + (j + 1 - sv))" if "k \<le> length v" "glob_at p v (st + 1) k" for k
  proof -
    have "sv \<le> j" "k + (j - sv) \<le> length v" "glob_at p v i (k + (j - sv))"
      using assms(1) that Some by (auto simp: star_inv_def)
    moreover from this(2,3) assms(2) have "k + (j - sv) < length v" "glob_at p v i' (k + (j - sv) + 1)" by blast+
    ultimately show ?thesis by (simp add: Suc_diff_le)
  qed
  with assms(1) Some show ?thesis by (simp add: star_inv_def)
qed (simp add: star_inv_def)

lemma star_inv_end: "star_inv p v i (length v) star sv \<Longrightarrow> \<not> retry p v star sv"
  by (fastforce simp: star_inv_def retry_def split: option.splits)

lemma glob_loop_spec:
  assumes "i \<le> length p" "j \<le> length v" "star_inv p v i j star sv"
  shows "glob_loop p v i j star sv \<longleftrightarrow> glob_at p v i j \<or> retry p v star sv"
  using assms
proof (induction p v i j star sv rule: glob_loop.induct)
  case (1 p v i j star sv)
  note loop = glob_loop.simps [of p v i j star sv]
  show ?case
  proof (cases "j < length v")
    case False
    with "1.prems" have "\<not> retry p v star sv" "glob_tail p i \<longleftrightarrow> glob_at p v i j"
      using star_inv_end [of p v i star sv] by (simp_all add: glob_at_def glob_tail_spec)
    then show ?thesis unfolding loop if_not_P [OF False] by blast
  next
    case j: True
    show ?thesis
    proof (cases "i < length p \<and> p ! i = 42")
      case True
      have "glob_loop p v (i + 1) j (Some i) j \<longleftrightarrow> glob_at p v (i + 1) j \<or> retry p v (Some i) j"
        using True j by (intro "1.IH"(1) star_inv_start) simp_all
      then show ?thesis
        unfolding loop if_P [OF j] if_P [OF True]
        using retry_star [of i p j v] retry_absorbed [OF _ _ _ "1.prems"(3)] True "1.prems"(2) by blast
    next
      case False
      show ?thesis
      proof (cases "glob_next p i (v ! j)")
        case (Some i')
        then have i: "i < length p" "p ! i \<noteq> 42" using False by (auto simp: glob_next_def split: if_splits)
        note n = glob_at_next [OF i j Some]
        have "glob_loop p v i' (j + 1) star sv \<longleftrightarrow> glob_at p v i' (j + 1) \<or> retry p v star sv"
          using n j by (intro "1.IH"(3) [OF j False Some] star_inv_next [OF "1.prems"(3)]) simp_all
        with n show ?thesis unfolding loop if_P [OF j] if_not_P [OF False] Some option.case by blast
      next
        case None
        note stuck = glob_at_stuck [OF False j None]
        show ?thesis
        proof (cases star)
          case no_star: None
          show ?thesis
            unfolding loop if_P [OF j] if_not_P [OF False] None option.case using no_star stuck by (simp add: retry_def)
        next
          case (Some st)
          have sv: "sv \<le> j" "st < length p" using "1.prems"(3) Some by (simp_all add: star_inv_def)
          have "glob_loop p v (st + 1) (sv + 1) star (sv + 1) \<longleftrightarrow> glob_at p v (st + 1) (sv + 1) \<or> retry p v star (sv + 1)"
            using sv j Some by (intro "1.IH"(2) [OF j False None Some]) (simp_all add: star_inv_start [simplified])
          moreover have "glob_at p v (st + 1) (sv + 1) \<or> retry p v star (sv + 1) \<longleftrightarrow> retry p v star sv"
            unfolding Some by (rule retry_from) (use sv(1) j in simp)
          moreover have "glob_loop p v i j star sv = glob_loop p v (st + 1) (sv + 1) star (sv + 1)"
            unfolding loop if_P [OF j] if_not_P [OF False] None option.case using Some by simp
          ultimately show ?thesis using stuck by blast
        qed
      qed
    qed
  qed
qed

text \<open>
  C22. The pattern matcher decides its specification. For every pattern and every byte string the two loops of the
  matcher end, and the answer is whether the tokens of the pattern (stars, single-byte wild cards, escapes, classes with ranges and negation, and
  literals, an unclosed bracket being one) match the whole string.
\<close>
theorem redis_glob_matches_spec:
  "redis_glob_matches pattern v = glob_spec (glob_tokens pattern) v"
  using glob_loop_spec [of 0 pattern 0 v None 0]
  by (simp add: redis_glob_matches_def star_inv_def retry_def glob_at_def)

end
