(* ===== verification/Tenant_Isolation.thy ===== *)
theory Tenant_Isolation
  imports Ordered_Map Client_Keys
begin

text \<open>
  Tenant isolation of the client surface (\<open>hydracache/src/multitenancy.rs\<close>): the roster of tenants, the admission of requests
  against rate, fair share and namespace quotas, and the ledger of stored bytes and entries the quotas are checked with. A commit
  callback of the source, which changes the caller's state, is a function of that state here. A \<open>Tenant\<close> is a record value here, its validated
  identifier a string, and the setters that build it have no definition of their own; the metrics snapshot is not modelled. An \<open>expect\<close> on the
  tenant of a resolved client is the branch that returns \<open>UnknownTenant\<close>; \<open>roster_resolves\<close> shows it is never taken.
\<close>

section \<open>Tenants\<close>

datatype multitenancy_error =
    InvalidTenant
  | DuplicateTenant
  | DuplicateClient string
  | TenantWithoutClients string
  | TenantWithoutNamespaces string

type_synonym tenant_id = string

record namespace_quota =
  quota_max_bytes :: u64
  quota_max_entries :: u64

record tenant =
  ten_id :: tenant_id
  ten_client_ids :: "string set"
  ten_namespaces :: "(string, namespace_quota) btmap"
  ten_rate_limit_per_window :: u64
  ten_fair_share_per_window :: u64
  ten_max_subscriptions :: u64

record tenant_roster =
  roster_tenants :: "(tenant_id, tenant) btmap"
  roster_client_to_tenant :: "(string, tenant_id) btmap"

definition roster_add :: "tenant_roster \<Rightarrow> tenant \<Rightarrow> multitenancy_error + tenant_roster" where
  "roster_add r t =
     (if ten_client_ids t = {} then Inl (TenantWithoutClients (ten_id t))
      else if ten_namespaces t = [] then Inl (TenantWithoutNamespaces (ten_id t))
      else result_bind
        (try_fold (\<lambda>m c. if bt_get m c \<noteq> None then Inl (DuplicateClient c) else Inr (bt_insert c (ten_id t) m))
           (roster_client_to_tenant r) (sorted_list_of_set (ten_client_ids t)))
        (\<lambda>m. if bt_get (roster_tenants r) (ten_id t) \<noteq> None then Inl DuplicateTenant
              else Inr \<lparr>roster_tenants = bt_insert (ten_id t) t (roster_tenants r), roster_client_to_tenant = m\<rparr>))"

definition roster_new :: "tenant list \<Rightarrow> multitenancy_error + tenant_roster" where
  "roster_new ts = try_fold roster_add \<lparr>roster_tenants = bt_empty, roster_client_to_tenant = bt_empty\<rparr> ts"

section \<open>Isolation state\<close>

record isolation_config =
  iso_max_value_bytes :: u64
  iso_max_request_bytes :: u64
  iso_max_batch_items :: usize

record namespace_usage =
  usage_bytes :: u64
  usage_entries :: u64

definition project :: "u64 option \<Rightarrow> u64 \<Rightarrow> namespace_usage \<Rightarrow> namespace_usage" where
  "project old new u =
     \<lparr>usage_bytes = sat_add (sat_sub (usage_bytes u) (case old of None \<Rightarrow> 0 | Some b \<Rightarrow> b)) new,
      usage_entries = (if old \<noteq> None then usage_entries u else sat_add (usage_entries u) 1)\<rparr>"

datatype admission_rejection =
    UnknownTenant
  | UnknownNamespace tenant_id string
  | RejectQuota tenant_id string duration
  | RejectRate tenant_id duration
  | GlobalLimit string

record consumer_isolation =
  iso_roster :: tenant_roster
  iso_config :: isolation_config
  iso_entries :: "(tenant_id \<times> string \<times> string, u64) btmap"
  iso_usage :: "(tenant_id \<times> string, namespace_usage) btmap"
  iso_request_counts :: "(tenant_id, u64) btmap"
  iso_fair_share_counts :: "(tenant_id, u64) btmap"
  iso_subscriptions :: "(tenant_id, u64) btmap"
  iso_metric_labels :: "tenant_id set"
  iso_rejected_total :: "(tenant_id, u64) btmap"

definition isolation_new :: "tenant_roster \<Rightarrow> isolation_config \<Rightarrow> consumer_isolation" where
  "isolation_new r c =
     \<lparr>iso_roster = r, iso_config = c, iso_entries = bt_empty, iso_usage = bt_empty, iso_request_counts = bt_empty,
      iso_fair_share_counts = bt_empty, iso_subscriptions = bt_empty, iso_metric_labels = {}, iso_rejected_total = bt_empty\<rparr>"

definition resolve_tenant :: "string \<Rightarrow> consumer_isolation \<Rightarrow> admission_rejection + tenant_id" where
  "resolve_tenant client isol = ok_or UnknownTenant (bt_get (roster_client_to_tenant (iso_roster isol)) client)"

abbreviation millis :: "nat \<Rightarrow> duration" where
  "millis n \<equiv> n * 1000000"

text \<open>A counter of a map whose entry defaults to zero.\<close>

abbreviation count_of :: "('k, u64) btmap \<Rightarrow> 'k \<Rightarrow> u64" where
  "count_of m k \<equiv> (case bt_get m k of None \<Rightarrow> 0 | Some n \<Rightarrow> n)"

definition record_rejection :: "tenant_id \<Rightarrow> consumer_isolation \<Rightarrow> consumer_isolation" where
  "record_rejection t isol =
     isol\<lparr>iso_metric_labels := insert t (iso_metric_labels isol),
         iso_rejected_total := bt_insert t (count_of (iso_rejected_total isol) t + 1) (iso_rejected_total isol)\<rparr>"

definition check_rate :: "tenant_id \<Rightarrow> consumer_isolation \<Rightarrow> (admission_rejection + unit) \<times> consumer_isolation" where
  "check_rate t isol =
     (case bt_get (roster_tenants (iso_roster isol)) t of
        None \<Rightarrow> (Inl UnknownTenant, isol)
      | Some tenant \<Rightarrow>
          let count = count_of (iso_request_counts isol) t in
          if ten_rate_limit_per_window tenant \<le> count then (Inl (RejectRate t (millis 50)), record_rejection t isol)
          else (Inr (), isol\<lparr>iso_request_counts := bt_insert t (sat_add count 1) (iso_request_counts isol)\<rparr>))"

definition check_fair_share :: "tenant_id \<Rightarrow> consumer_isolation \<Rightarrow> (admission_rejection + unit) \<times> consumer_isolation" where
  "check_fair_share t isol =
     (case bt_get (roster_tenants (iso_roster isol)) t of
        None \<Rightarrow> (Inl UnknownTenant, isol)
      | Some tenant \<Rightarrow>
          let count = count_of (iso_fair_share_counts isol) t in
          if ten_fair_share_per_window tenant \<le> count then (Inl (RejectRate t (millis 50)), record_rejection t isol)
          else (Inr (), isol\<lparr>iso_fair_share_counts := bt_insert t (sat_add count 1) (iso_fair_share_counts isol)\<rparr>))"

definition admit_request :: "string \<Rightarrow> consumer_isolation \<Rightarrow> (admission_rejection + tenant_id) \<times> consumer_isolation" where
  "admit_request client isol =
     (case resolve_tenant client isol of
        Inl e \<Rightarrow> (Inl e, isol)
      | Inr t \<Rightarrow>
          (case check_rate t isol of
             (Inl e, isol) \<Rightarrow> (Inl e, isol)
           | (Inr _, isol) \<Rightarrow>
               (case check_fair_share t isol of
                  (Inl e, isol) \<Rightarrow> (Inl e, isol)
                | (Inr _, isol) \<Rightarrow> (Inr t, isol\<lparr>iso_metric_labels := insert t (iso_metric_labels isol)\<rparr>))))"

definition tenant_quota :: "tenant_id \<Rightarrow> string \<Rightarrow> consumer_isolation \<Rightarrow> admission_rejection + namespace_quota" where
  "tenant_quota t ns isol =
     (case bt_get (roster_tenants (iso_roster isol)) t of
        None \<Rightarrow> Inl UnknownTenant
      | Some tenant \<Rightarrow> ok_or (UnknownNamespace t ns) (bt_get (ten_namespaces tenant) ns))"

definition usage_of :: "tenant_id \<Rightarrow> string \<Rightarrow> consumer_isolation \<Rightarrow> namespace_usage" where
  "usage_of t ns isol = (case bt_get (iso_usage isol) (t, ns) of None \<Rightarrow> \<lparr>usage_bytes = 0, usage_entries = 0\<rparr> | Some u \<Rightarrow> u)"

definition over_quota :: "namespace_quota \<Rightarrow> namespace_usage \<Rightarrow> bool" where
  "over_quota q u \<longleftrightarrow> quota_max_bytes q < usage_bytes u \<or> quota_max_entries q < usage_entries u"

definition admit_put_if_committed :: "string \<Rightarrow> string \<Rightarrow> string \<Rightarrow> u64 \<Rightarrow> bool \<Rightarrow> ('s \<Rightarrow> bool \<times> 's)
    \<Rightarrow> consumer_isolation \<Rightarrow> 's \<Rightarrow> (admission_rejection + bool) \<times> consumer_isolation \<times> 's" where
  "admit_put_if_committed client ns key value_bytes condition_holds commit isol s =
     (if iso_max_value_bytes (iso_config isol) < value_bytes then (Inl (GlobalLimit ''max_value_bytes''), isol, s)
      else case admit_request client isol of
        (Inl e, isol) \<Rightarrow> (Inl e, isol, s)
      | (Inr t, isol) \<Rightarrow>
          (case tenant_quota t ns isol of
             Inl e \<Rightarrow> (Inl e, isol, s)
           | Inr quota \<Rightarrow>
               if \<not> condition_holds then (Inr False, isol, s)
               else
                 let projected = project (bt_get (iso_entries isol) (t, ns, key)) value_bytes (usage_of t ns isol) in
                 if over_quota quota projected then (Inl (RejectQuota t ns (millis 100)), record_rejection t isol, s)
                 else case commit s of
                   (False, s) \<Rightarrow> (Inr False, isol, s)
                 | (True, s) \<Rightarrow>
                     (Inr True,
                      isol\<lparr>iso_entries := bt_insert (t, ns, key) value_bytes (iso_entries isol),
                          iso_usage := bt_insert (t, ns) projected (iso_usage isol)\<rparr>, s)))"

definition request_bytes :: "(string \<times> u64) list \<Rightarrow> u64" where
  "request_bytes entries = foldl (\<lambda>total (_, b). sat_add total b) 0 entries"

definition admit_batch_put_if_committed :: "string \<Rightarrow> string \<Rightarrow> (string \<times> u64) list \<Rightarrow> ('s \<Rightarrow> bool \<times> 's)
    \<Rightarrow> consumer_isolation \<Rightarrow> 's \<Rightarrow> (admission_rejection + bool) \<times> consumer_isolation \<times> 's" where
  "admit_batch_put_if_committed client ns entries commit isol s =
     (if iso_max_batch_items (iso_config isol) < length entries then (Inl (GlobalLimit ''max_batch_items''), isol, s)
      else if iso_max_request_bytes (iso_config isol) < request_bytes entries then (Inl (GlobalLimit ''max_request_bytes''), isol, s)
      else if list_ex (\<lambda>(_, b). iso_max_value_bytes (iso_config isol) < b) entries then (Inl (GlobalLimit ''max_value_bytes''), isol, s)
      else
        let final_entries = bt_extend entries bt_empty in
        case admit_request client isol of
          (Inl e, isol) \<Rightarrow> (Inl e, isol, s)
        | (Inr t, isol) \<Rightarrow>
            (case tenant_quota t ns isol of
               Inl e \<Rightarrow> (Inl e, isol, s)
             | Inr quota \<Rightarrow>
                 let projected = foldl (\<lambda>u (key, b). project (bt_get (iso_entries isol) (t, ns, key)) b u)
                                   (usage_of t ns isol) final_entries in
                 if over_quota quota projected then (Inl (RejectQuota t ns (millis 100)), record_rejection t isol, s)
                 else case commit s of
                   (False, s) \<Rightarrow> (Inr False, isol, s)
                 | (True, s) \<Rightarrow>
                     (Inr True,
                      isol\<lparr>iso_entries := bt_extend (map (\<lambda>(key, b). ((t, ns, key), b)) final_entries) (iso_entries isol),
                          iso_usage := bt_insert (t, ns) projected (iso_usage isol)\<rparr>, s)))"

definition remove_entry_for_tenant :: "tenant_id \<Rightarrow> string \<Rightarrow> string \<Rightarrow> consumer_isolation \<Rightarrow> bool \<times> consumer_isolation" where
  "remove_entry_for_tenant t ns key isol =
     (if bt_get (roster_tenants (iso_roster isol)) t = None then (False, isol)
      else case bt_get (iso_entries isol) (t, ns, key) of
        None \<Rightarrow> (False, isol)
      | Some old_bytes \<Rightarrow>
          let current = usage_of t ns isol in
          (True, isol\<lparr>iso_entries := bt_remove (t, ns, key) (iso_entries isol),
                     iso_usage := bt_insert (t, ns)
                       \<lparr>usage_bytes = sat_sub (usage_bytes current) old_bytes, usage_entries = sat_sub (usage_entries current) 1\<rparr>
                       (iso_usage isol)\<rparr>))"

definition remove_entry :: "string \<Rightarrow> string \<Rightarrow> string \<Rightarrow> consumer_isolation \<Rightarrow> (admission_rejection + bool) \<times> consumer_isolation" where
  "remove_entry client ns key isol =
     (case resolve_tenant client isol of
        Inl e \<Rightarrow> (Inl e, isol)
      | Inr t \<Rightarrow>
          (case tenant_quota t ns isol of
             Inl e \<Rightarrow> (Inl e, isol)
           | Inr _ \<Rightarrow> (case remove_entry_for_tenant t ns key isol of (removed, isol) \<Rightarrow> (Inr removed, isol))))"

definition begin_subscription :: "string \<Rightarrow> consumer_isolation \<Rightarrow> (admission_rejection + unit) \<times> consumer_isolation" where
  "begin_subscription client isol =
     (case admit_request client isol of
        (Inl e, isol) \<Rightarrow> (Inl e, isol)
      | (Inr t, isol) \<Rightarrow>
          (case bt_get (roster_tenants (iso_roster isol)) t of
             None \<Rightarrow> (Inl UnknownTenant, isol)
           | Some tenant \<Rightarrow>
               let current = count_of (iso_subscriptions isol) t in
               if ten_max_subscriptions tenant \<le> current then (Inl (RejectRate t (millis 50)), record_rejection t isol)
               else (Inr (), isol\<lparr>iso_subscriptions := bt_insert t (sat_add current 1) (iso_subscriptions isol)\<rparr>)))"

definition evict_namespace :: "string \<Rightarrow> string \<Rightarrow> consumer_isolation \<Rightarrow> (admission_rejection + u64) \<times> consumer_isolation" where
  "evict_namespace client ns isol =
     (case admit_request client isol of
        (Inl e, isol) \<Rightarrow> (Inl e, isol)
      | (Inr t, isol) \<Rightarrow>
          let kept = bt_retain (\<lambda>(t', ns', _) _. t' \<noteq> t \<or> ns' \<noteq> ns) (iso_entries isol) in
          (Inr (of_nat (length (iso_entries isol) - length kept)),
           isol\<lparr>iso_entries := kept, iso_usage := bt_insert (t, ns) \<lparr>usage_bytes = 0, usage_entries = 0\<rparr> (iso_usage isol)\<rparr>))"

section \<open>Roster\<close>

definition roster_ok :: "tenant_roster \<Rightarrow> bool" where
  "roster_ok r \<longleftrightarrow> (\<forall>c t. bt_get (roster_client_to_tenant r) c = Some t \<longrightarrow> bt_get (roster_tenants r) t \<noteq> None)"

lemma add_clients_get:
  "try_fold (\<lambda>m c. if bt_get m c \<noteq> None then Inl (DuplicateClient c) else Inr (bt_insert c t m)) m cs = Inr m'
   \<Longrightarrow> bt_get m' c = Some u \<Longrightarrow> bt_get m c = Some u \<or> u = t"
  by (induction cs arbitrary: m) (fastforce split: if_splits)+

lemma roster_add_ok:
  assumes "roster_ok r" "roster_add r t = Inr r'"
  shows "roster_ok r'"
proof -
  from assms(2) obtain m where
    m: "try_fold (\<lambda>m c. if bt_get m c \<noteq> None then Inl (DuplicateClient c) else Inr (bt_insert c (ten_id t) m))
           (roster_client_to_tenant r) (sorted_list_of_set (ten_client_ids t)) = Inr m"
    and r': "r' = \<lparr>roster_tenants = bt_insert (ten_id t) t (roster_tenants r), roster_client_to_tenant = m\<rparr>"
    by (auto simp: roster_add_def result_bind_Inr_iff split: if_splits)
  from add_clients_get [OF m] assms(1) show ?thesis
    by (fastforce simp: roster_ok_def r')
qed

lemma roster_new_ok: "roster_new ts = Inr r \<Longrightarrow> roster_ok r"
proof -
  have "try_fold roster_add r0 ts = Inr r \<Longrightarrow> roster_ok r0 \<Longrightarrow> roster_ok r" for r0
    by (induction ts arbitrary: r0) (auto simp: result_bind_Inr_iff dest: roster_add_ok)
  then show "roster_new ts = Inr r \<Longrightarrow> roster_ok r"
    by (fastforce simp: roster_new_def roster_ok_def)
qed

lemma roster_resolves:
  "roster_ok (iso_roster isol) \<Longrightarrow> resolve_tenant client isol = Inr t
   \<Longrightarrow> \<exists>tenant. bt_get (roster_tenants (iso_roster isol)) t = Some tenant"
  by (auto simp: roster_ok_def resolve_tenant_def ok_or_def split: option.splits)

section \<open>The ledger\<close>

abbreviation ns_entries :: "tenant_id \<Rightarrow> string \<Rightarrow> consumer_isolation \<Rightarrow> (tenant_id \<times> string \<times> string, u64) btmap" where
  "ns_entries t ns isol \<equiv> bt_retain (\<lambda>(t', ns', _) _. t' = t \<and> ns' = ns) (iso_entries isol)"

text \<open>
  The usage of every namespace is exactly what its entries add up to, every entry lies in a namespace with a quota, and no
  usage exceeds its quota.
\<close>

definition usage_exact :: "tenant_id \<Rightarrow> string \<Rightarrow> consumer_isolation \<Rightarrow> bool" where
  "usage_exact t ns isol \<longleftrightarrow>
     unat (usage_bytes (usage_of t ns isol)) = bt_weight unat (ns_entries t ns isol)
     \<and> unat (usage_entries (usage_of t ns isol)) = length (ns_entries t ns isol)"

definition ledger_ok :: "consumer_isolation \<Rightarrow> bool" where
  "ledger_ok isol \<longleftrightarrow>
     bt_ok (iso_entries isol) \<and> roster_ok (iso_roster isol)
     \<and> (\<forall>t ns. usage_exact t ns isol)
     \<and> (\<forall>t ns key b. bt_get (iso_entries isol) (t, ns, key) = Some b \<longrightarrow> (\<exists>q. tenant_quota t ns isol = Inr q))
     \<and> (\<forall>t ns q. tenant_quota t ns isol = Inr q \<longrightarrow> \<not> over_quota q (usage_of t ns isol))"

text \<open>Quotas that leave room for one request below the largest machine word, so that no sum saturates.\<close>

definition quotas_bounded :: "consumer_isolation \<Rightarrow> bool" where
  "quotas_bounded isol \<longleftrightarrow>
     (\<forall>t ns q. tenant_quota t ns isol = Inr q \<longrightarrow>
        unat (quota_max_bytes q) + unat (iso_max_request_bytes (iso_config isol)) < 2 ^ 64 - 1
        \<and> unat (quota_max_bytes q) + unat (iso_max_value_bytes (iso_config isol)) < 2 ^ 64 - 1
        \<and> unat (quota_max_entries q) + iso_max_batch_items (iso_config isol) + 1 < 2 ^ 64 - 1)"

lemma retain_insert:
  "bt_ok m \<Longrightarrow> bt_retain (\<lambda>a _. P a) (bt_insert k v m)
     = (if P k then bt_insert k v (bt_retain (\<lambda>a _. P a) m) else bt_retain (\<lambda>a _. P a) m)"
  by (intro bt_eqI) (auto simp: fun_eq_iff bt_get_retain split: option.splits)

lemma retain_remove:
  "bt_ok m \<Longrightarrow> bt_retain (\<lambda>a _. P a) (bt_remove k m) = bt_remove k (bt_retain (\<lambda>a _. P a) m)"
  by (intro bt_eqI) (auto simp: fun_eq_iff bt_get_retain split: option.splits)

lemma retain_retain: "bt_retain P (bt_retain Q m) = bt_retain (\<lambda>a v. Q a v \<and> P a v) m"
  by (simp add: bt_retain_def case_prod_unfold conj_commute)

lemma in_ns_eta: "bt_retain (\<lambda>(t', ns', _) _. t' = t \<and> ns' = ns) m = bt_retain (\<lambda>a _. fst a = t \<and> fst (snd a) = ns) m"
  by (simp add: bt_retain_def case_prod_unfold)

lemma unat_project_bytes:
  "unat (usage_bytes (project old new u))
     = min (unat (usage_bytes u) - (case old of None \<Rightarrow> 0 | Some b \<Rightarrow> unat b) + unat new) (2 ^ 64 - 1)"
  by (auto simp: project_def unat_sat_add unat_sat_sub split: option.splits)

lemma unat_project_entries:
  "unat (usage_entries (project old new u))
     = (if old = None then min (unat (usage_entries u) + 1) (2 ^ 64 - 1) else unat (usage_entries u))"
  by (auto simp: project_def unat_sat_add)

lemma ledger_cong:
  "iso_entries i' = iso_entries i \<Longrightarrow> iso_usage i' = iso_usage i \<Longrightarrow> iso_roster i' = iso_roster i \<Longrightarrow> ledger_ok i' = ledger_ok i"
  by (simp add: ledger_ok_def usage_exact_def usage_of_def tenant_quota_def)

lemma quota_cong: "iso_roster i' = iso_roster i \<Longrightarrow> tenant_quota t ns i' = tenant_quota t ns i"
  by (simp add: tenant_quota_def)

lemma bounded_cong:
  "iso_roster i' = iso_roster i \<Longrightarrow> iso_config i' = iso_config i \<Longrightarrow> quotas_bounded i' = quotas_bounded i"
  by (simp add: quotas_bounded_def tenant_quota_def)

lemma ledger_entry_quota: "ledger_ok i \<Longrightarrow> bt_get (iso_entries i) (t, ns, key) = Some b \<Longrightarrow> \<exists>q. tenant_quota t ns i = Inr q"
  unfolding ledger_ok_def by blast

lemma ledger_set:
  assumes ok: "ledger_ok i" and E': "bt_ok E'"
    and other: "\<And>t' ns'. (t', ns') \<noteq> (t, ns) \<Longrightarrow>
      bt_retain (\<lambda>(a, b, _) _. a = t' \<and> b = ns') E' = ns_entries t' ns' i"
    and bytes: "unat (usage_bytes u) = bt_weight unat (bt_retain (\<lambda>(a, b, _) _. a = t \<and> b = ns) E')"
    and entries: "unat (usage_entries u) = length (bt_retain (\<lambda>(a, b, _) _. a = t \<and> b = ns) E')"
    and dom: "\<And>t' ns' key b. bt_get E' (t', ns', key) = Some b \<Longrightarrow> \<exists>q. tenant_quota t' ns' i = Inr q"
    and quota: "\<And>q. tenant_quota t ns i = Inr q \<Longrightarrow> \<not> over_quota q u"
  shows "ledger_ok (i\<lparr>iso_entries := E', iso_usage := bt_insert (t, ns) u (iso_usage i)\<rparr>)" (is "ledger_ok ?i'")
proof -
  have q: "tenant_quota t' ns' ?i' = tenant_quota t' ns' i" for t' ns' by (simp add: tenant_quota_def)
  have usage: "usage_of t' ns' ?i' = (if (t', ns') = (t, ns) then u else usage_of t' ns' i)" for t' ns'
    by (simp add: usage_of_def)
  have old: "usage_exact t' ns' i" "tenant_quota t' ns' i = Inr q' \<Longrightarrow> \<not> over_quota q' (usage_of t' ns' i)" for t' ns' q'
    using ok unfolding ledger_ok_def by blast+
  have "usage_exact t' ns' ?i'" for t' ns'
  proof (cases "(t', ns') = (t, ns)")
    case True
    then show ?thesis using bytes entries by (simp add: usage_exact_def usage)
  next
    case False
    then have "usage_of t' ns' ?i' = usage_of t' ns' i" unfolding usage by (simp only: if_False)
    with old(1) [of t' ns'] other [OF False] show ?thesis by (simp add: usage_exact_def)
  qed
  moreover have "\<not> over_quota q' (usage_of t' ns' ?i')" if "tenant_quota t' ns' ?i' = Inr q'" for t' ns' q'
    using old(2) [of t' ns' q'] quota [of q'] that unfolding q usage by (cases "(t', ns') = (t, ns)") auto
  moreover have "\<exists>q'. tenant_quota t' ns' ?i' = Inr q'" if "bt_get (iso_entries ?i') (t', ns', key) = Some b" for t' ns' key b
    using dom [of t' ns' key b] that unfolding q by simp
  moreover have "bt_ok (iso_entries ?i')" "roster_ok (iso_roster ?i')" using ok E' by (simp_all add: ledger_ok_def)
  ultimately show ?thesis unfolding ledger_ok_def by blast
qed

lemma record_rejection_keeps [simp]:
  "iso_entries (record_rejection t i) = iso_entries i" "iso_usage (record_rejection t i) = iso_usage i"
  "iso_roster (record_rejection t i) = iso_roster i" "iso_config (record_rejection t i) = iso_config i"
  by (simp_all add: record_rejection_def)

definition same_ledger :: "consumer_isolation \<Rightarrow> consumer_isolation \<Rightarrow> bool" where
  "same_ledger i i' \<longleftrightarrow> iso_entries i' = iso_entries i \<and> iso_usage i' = iso_usage i
     \<and> iso_roster i' = iso_roster i \<and> iso_config i' = iso_config i"

lemma same_ledger_refl [simp]: "same_ledger i i"
  by (simp add: same_ledger_def)

lemma same_ledger_trans: "same_ledger i i' \<Longrightarrow> same_ledger i' i'' \<Longrightarrow> same_ledger i i''"
  by (simp add: same_ledger_def)

lemma same_ledger_update [simp]:
  "same_ledger i (i'\<lparr>iso_metric_labels := l\<rparr>) = same_ledger i i'" "same_ledger i (record_rejection t i') = same_ledger i i'"
  "same_ledger i (i'\<lparr>iso_request_counts := m\<rparr>) = same_ledger i i'"
  "same_ledger i (i'\<lparr>iso_fair_share_counts := m\<rparr>) = same_ledger i i'" "same_ledger i (i'\<lparr>iso_subscriptions := m\<rparr>) = same_ledger i i'"
  by (simp_all add: same_ledger_def)

lemma same_ledger_keeps:
  assumes "same_ledger i i'"
  shows "ledger_ok i' = ledger_ok i" "quotas_bounded i' = quotas_bounded i" "tenant_quota t ns i' = tenant_quota t ns i"
    "usage_of t ns i' = usage_of t ns i" "resolve_tenant c i' = resolve_tenant c i"
proof -
  note eqs = assms [unfolded same_ledger_def]
  show "ledger_ok i' = ledger_ok i" by (rule ledger_cong) (use eqs in simp_all)
  show "quotas_bounded i' = quotas_bounded i" by (rule bounded_cong) (use eqs in simp_all)
  show "tenant_quota t ns i' = tenant_quota t ns i" by (rule quota_cong) (use eqs in simp)
  show "usage_of t ns i' = usage_of t ns i" "resolve_tenant c i' = resolve_tenant c i"
    using eqs by (simp_all add: usage_of_def resolve_tenant_def)
qed

lemma check_rate_same: "check_rate t i = (r, i') \<Longrightarrow> same_ledger i i'"
  by (auto simp: check_rate_def Let_def split: option.splits if_splits)

lemma check_fair_share_same: "check_fair_share t i = (r, i') \<Longrightarrow> same_ledger i i'"
  by (auto simp: check_fair_share_def Let_def split: option.splits if_splits)

lemma admit_request_same: "admit_request c i = (r, i') \<Longrightarrow> same_ledger i i'"
  unfolding admit_request_def
  by (auto split: sum.splits prod.splits dest!: check_rate_same check_fair_share_same intro: same_ledger_trans)

lemma admit_request_tenant: "admit_request c i = (Inr t, i') \<Longrightarrow> resolve_tenant c i = Inr t"
  by (auto simp: admit_request_def split: sum.splits prod.splits)

lemma begin_subscription_same: "begin_subscription c i = (r, i') \<Longrightarrow> same_ledger i i'"
  unfolding begin_subscription_def Let_def
  by (auto split: sum.splits prod.splits option.splits if_splits dest!: admit_request_same)

section \<open>Operations keep the ledger\<close>

text \<open>What an operation leaves of the configuration.\<close>

definition same_config :: "consumer_isolation \<Rightarrow> consumer_isolation \<Rightarrow> bool" where
  "same_config i i' \<longleftrightarrow> iso_roster i' = iso_roster i \<and> iso_config i' = iso_config i"

lemma same_config_refl [simp]: "same_config i i"
  by (simp add: same_config_def)

lemma same_config_trans: "same_config i i' \<Longrightarrow> same_config i' i'' \<Longrightarrow> same_config i i''"
  by (simp add: same_config_def)

lemma same_ledger_config: "same_ledger i i' \<Longrightarrow> same_config i i'"
  by (simp add: same_ledger_def same_config_def)

lemma same_config_keeps:
  assumes "same_config i i'"
  shows "quotas_bounded i' = quotas_bounded i" "tenant_quota t ns i' = tenant_quota t ns i" "resolve_tenant c i' = resolve_tenant c i"
    "roster_ok (iso_roster i') = roster_ok (iso_roster i)"
  using assms by (auto simp: same_config_def quotas_bounded_def tenant_quota_def resolve_tenant_def)

lemma admit_put_cases:
  assumes "admit_put_if_committed c ns key b cond commit i s = (r, i', s')"
  shows "(\<exists>t q. r = Inr True \<and> cond \<and> commit s = (True, s') \<and> resolve_tenant c i = Inr t \<and> tenant_quota t ns i = Inr q
           \<and> b \<le> iso_max_value_bytes (iso_config i)
           \<and> \<not> over_quota q (project (bt_get (iso_entries i) (t, ns, key)) b (usage_of t ns i))
           \<and> iso_entries i' = bt_insert (t, ns, key) b (iso_entries i)
           \<and> iso_usage i' = bt_insert (t, ns) (project (bt_get (iso_entries i) (t, ns, key)) b (usage_of t ns i)) (iso_usage i)
           \<and> same_config i i')
       \<or> (r = Inr False \<and> cond \<and> commit s = (False, s') \<and> same_ledger i i')
       \<or> (r = Inr False \<and> \<not> cond \<and> s' = s \<and> same_ledger i i')
       \<or> (\<exists>e. r = Inl e \<and> s' = s \<and> same_ledger i i')"
proof (cases "iso_max_value_bytes (iso_config i) < b")
  case True
  with assms show ?thesis by (auto simp: admit_put_if_committed_def)
next
  case small: False
  obtain x j where adm: "admit_request c i = (x, j)" by (cases "admit_request c i")
  note same = admit_request_same [OF adm]
  note eqs = same_ledger_keeps(3,4,5) [OF same] same [unfolded same_ledger_def]
  show ?thesis
  proof (cases x)
    case (Inl e)
    with assms small adm same show ?thesis by (auto simp: admit_put_if_committed_def)
  next
    case (Inr t)
    with adm have t: "resolve_tenant c i = Inr t" by (blast dest: admit_request_tenant)
    show ?thesis
    proof (cases "tenant_quota t ns i")
      case (Inl e)
      with assms small adm \<open>x = Inr t\<close> eqs same show ?thesis by (auto simp: admit_put_if_committed_def)
    next
      case (Inr q)
      obtain ok s'' where commit: "commit s = (ok, s'')" by (cases "commit s")
      from assms small adm \<open>x = Inr t\<close> Inr eqs same commit t show ?thesis
        by (cases cond; cases ok)
          (auto simp: admit_put_if_committed_def Let_def same_config_def split: if_splits)
    qed
  qed
qed

lemma ledger_put:
  assumes ok: "ledger_ok i" and bounded: "quotas_bounded i" and q: "tenant_quota t ns i = Inr q"
    and b: "b \<le> iso_max_value_bytes (iso_config i)"
    and fits: "\<not> over_quota q (project (bt_get (iso_entries i) (t, ns, key)) b (usage_of t ns i))"
  shows "ledger_ok (i\<lparr>iso_entries := bt_insert (t, ns, key) b (iso_entries i),
    iso_usage := bt_insert (t, ns) (project (bt_get (iso_entries i) (t, ns, key)) b (usage_of t ns i)) (iso_usage i)\<rparr>)"
proof (rule ledger_set [OF ok])
  note bt = ok [unfolded ledger_ok_def, THEN conjunct1]
  let ?E = "iso_entries i" and ?in = "\<lambda>t' ns' a. fst a = t' \<and> fst (snd a) = ns'"
  let ?F = "bt_retain (\<lambda>a _. ?in t ns a) ?E"
  have exact: "unat (usage_bytes (usage_of t ns i)) = bt_weight unat ?F" "unat (usage_entries (usage_of t ns i)) = length ?F"
    and under: "\<not> over_quota q (usage_of t ns i)"
    using ok q unfolding ledger_ok_def usage_exact_def in_ns_eta by blast+
  have get: "bt_get ?F (t, ns, key) = bt_get ?E (t, ns, key)" using bt by (simp add: bt_get_retain split: option.splits)
  have okF: "bt_ok ?F" using bt by simp
  have room: "unat (quota_max_bytes q) + unat (iso_max_value_bytes (iso_config i)) < 2 ^ 64 - 1"
    "unat (quota_max_entries q) + iso_max_batch_items (iso_config i) + 1 < 2 ^ 64 - 1"
    using bounded q unfolding quotas_bounded_def by blast+
  have le: "unat (usage_bytes (usage_of t ns i)) \<le> unat (quota_max_bytes q)" "unat (usage_entries (usage_of t ns i)) \<le> unat (quota_max_entries q)"
    "unat b \<le> unat (iso_max_value_bytes (iso_config i))"
    using under b by (simp_all add: over_quota_def word_less_nat_alt word_le_nat_alt)
  show "bt_ok (bt_insert (t, ns, key) b ?E)" using bt by simp
  show "bt_retain (\<lambda>(a, b, _) _. a = t' \<and> b = ns') (bt_insert (t, ns, key) b ?E) = ns_entries t' ns' i" if "(t', ns') \<noteq> (t, ns)" for t' ns'
    using that bt unfolding in_ns_eta by (auto simp: retain_insert)
  have ins: "bt_retain (\<lambda>(a, b, _) _. a = t \<and> b = ns) (bt_insert (t, ns, key) b ?E) = bt_insert (t, ns, key) b ?F"
    using bt unfolding in_ns_eta by (simp add: retain_insert)
  show "unat (usage_bytes (project (bt_get ?E (t, ns, key)) b (usage_of t ns i)))
      = bt_weight unat (bt_retain (\<lambda>(a, b, _) _. a = t \<and> b = ns) (bt_insert (t, ns, key) b ?E))"
    using bt_weight_insert [OF okF, of unat "(t, ns, key)" b] bt_weight_get_le [OF okF, of "(t, ns, key)" _ unat] exact le room
    unfolding ins unat_project_bytes get by (auto split: option.splits)
  show "unat (usage_entries (project (bt_get ?E (t, ns, key)) b (usage_of t ns i)))
      = length (bt_retain (\<lambda>(a, b, _) _. a = t \<and> b = ns) (bt_insert (t, ns, key) b ?E))"
    using length_bt_insert [OF okF, of "(t, ns, key)" b] exact le room
    unfolding ins unat_project_entries get by (auto split: if_splits)
  show "\<exists>q. tenant_quota t' ns' i = Inr q" if "bt_get (bt_insert (t, ns, key) b ?E) (t', ns', key') = Some b'" for t' ns' key' b'
    using that ledger_entry_quota [OF ok] q by (auto split: if_splits)
  show "\<not> over_quota q' (project (bt_get ?E (t, ns, key)) b (usage_of t ns i))" if "tenant_quota t ns i = Inr q'" for q'
    using that q fits by simp
qed

lemma ledger_batch:
  assumes "bt_ok M" "distinct (map fst kvs)" "\<forall>k \<in> fst ` set kvs. bt_get M (t, ns, k) = bt_get E (t, ns, k)"
    and "unat (usage_bytes u) = bt_weight unat (bt_retain (\<lambda>a _. fst a = t \<and> fst (snd a) = ns) M)"
    and "unat (usage_entries u) = length (bt_retain (\<lambda>a _. fst a = t \<and> fst (snd a) = ns) M)"
    and "unat (usage_bytes u) + bt_weight unat kvs < 2 ^ 64 - 1" "unat (usage_entries u) + length kvs < 2 ^ 64 - 1"
  shows "unat (usage_bytes (foldl (\<lambda>u (k, b). project (bt_get E (t, ns, k)) b u) u kvs))
      = bt_weight unat (bt_retain (\<lambda>a _. fst a = t \<and> fst (snd a) = ns) (bt_extend (map (\<lambda>(k, b). ((t, ns, k), b)) kvs) M))
    \<and> unat (usage_entries (foldl (\<lambda>u (k, b). project (bt_get E (t, ns, k)) b u) u kvs))
      = length (bt_retain (\<lambda>a _. fst a = t \<and> fst (snd a) = ns) (bt_extend (map (\<lambda>(k, b). ((t, ns, k), b)) kvs) M))"
  using assms
proof (induction kvs arbitrary: u M)
  case (Cons p kvs)
  obtain k b where p: "p = (k, b)" by (cases p)
  let ?in = "\<lambda>a. fst a = t \<and> fst (snd a) = ns" and ?u = "project (bt_get E (t, ns, k)) b u" and ?M = "bt_insert (t, ns, k) b M"
  let ?F = "bt_retain (\<lambda>a _. ?in a) M"
  have okF: "bt_ok ?F" using Cons.prems(1) by simp
  have ins: "bt_retain (\<lambda>a _. ?in a) ?M = bt_insert (t, ns, k) b ?F" using Cons.prems(1) by (simp add: retain_insert)
  have get: "bt_get E (t, ns, k) = bt_get ?F (t, ns, k)" using Cons.prems(1,3) p by (simp add: bt_get_retain split: option.splits)
  have w: "bt_weight unat (bt_insert (t, ns, k) b ?F) + (case bt_get ?F (t, ns, k) of Some w \<Rightarrow> unat w | None \<Rightarrow> 0)
      = bt_weight unat ?F + unat b"
    by (rule bt_weight_insert [OF okF])
  have le: "(case bt_get ?F (t, ns, k) of Some w \<Rightarrow> unat w | None \<Rightarrow> 0) \<le> bt_weight unat ?F"
    using bt_weight_get_le [OF okF] by (auto split: option.splits)
  have bytes: "unat (usage_bytes ?u) = bt_weight unat (bt_insert (t, ns, k) b ?F)"
    and bytes_le: "unat (usage_bytes ?u) \<le> unat (usage_bytes u) + unat b"
    using w le Cons.prems(4,6) p unfolding unat_project_bytes get by (auto split: option.splits)
  have entries: "unat (usage_entries ?u) = length (bt_insert (t, ns, k) b ?F)"
    and entries_le: "unat (usage_entries ?u) \<le> unat (usage_entries u) + 1"
    using length_bt_insert [OF okF, of "(t, ns, k)" b] Cons.prems(5,7) p unfolding unat_project_entries get by auto
  have keys: "\<forall>k' \<in> fst ` set kvs. bt_get ?M (t, ns, k') = bt_get E (t, ns, k')" using Cons.prems(2,3) p by auto
  have "unat (usage_bytes ?u) + bt_weight unat kvs < 2 ^ 64 - 1" "unat (usage_entries ?u) + length kvs < 2 ^ 64 - 1"
    using bytes_le entries_le Cons.prems(6,7) p by simp_all
  with Cons.IH [of ?M ?u] Cons.prems(1,2) p keys bytes entries ins show ?case by simp
qed simp

lemma weight_extend_le: "bt_weight f (bt_extend kvs m) \<le> bt_weight f m + sum_list (map (f \<circ> snd) kvs)"
proof (induction kvs arbitrary: m)
  case (Cons p kvs)
  obtain k v where p: "p = (k, v)" by (cases p)
  show ?case using Cons [of "bt_insert k v m"] bt_weight_insert_le [of f k v m] p by simp
qed simp

lemma length_extend_le: "length (bt_extend kvs m) \<le> length m + length kvs"
proof (induction kvs arbitrary: m)
  case (Cons p kvs)
  obtain k v where p: "p = (k, v)" by (cases p)
  show ?case using Cons [of "bt_insert k v m"] length_bt_insert_le [of k v m] p by simp
qed simp

lemma unat_request_bytes: "unat (request_bytes kvs) = min (sum_list (map (unat \<circ> snd) kvs)) (2 ^ 64 - 1)"
proof -
  have "unat (foldl (\<lambda>total (_, b). sat_add total b) a kvs) = min (unat a + sum_list (map (unat \<circ> snd) kvs)) (2 ^ 64 - 1)" for a :: u64
  proof (induction kvs arbitrary: a)
    case Nil
    then show ?case using unat_le_max [of a] by simp
  next
    case (Cons p kvs)
    then show ?case by (cases p) (simp add: unat_sat_add)
  qed
  from this [of 0] show ?thesis by (simp add: request_bytes_def)
qed

lemma admit_put_ledger:
  assumes "ledger_ok i" "quotas_bounded i" "admit_put_if_committed c ns key b cond commit i s = (r, i', s')"
  shows "ledger_ok i'"
  using admit_put_cases [OF assms(3)]
proof (elim disjE exE conjE)
  fix t q
  assume q: "tenant_quota t ns i = Inr q" "b \<le> iso_max_value_bytes (iso_config i)"
      "\<not> over_quota q (project (bt_get (iso_entries i) (t, ns, key)) b (usage_of t ns i))"
    and i': "iso_entries i' = bt_insert (t, ns, key) b (iso_entries i)"
      "iso_usage i' = bt_insert (t, ns) (project (bt_get (iso_entries i) (t, ns, key)) b (usage_of t ns i)) (iso_usage i)"
      "same_config i i'"
  show ?thesis
    by (rule ledger_cong [THEN iffD2, OF _ _ _ ledger_put [OF assms(1,2) q]]) (use i' in \<open>simp_all add: same_config_def\<close>)
qed (use assms(1) same_ledger_keeps(1) in blast)+

lemma admit_put_config: "admit_put_if_committed c ns key b cond commit i s = (r, i', s') \<Longrightarrow> same_config i i'"
  using admit_put_cases [of c ns key b cond commit i s r i' s'] by (auto dest: same_ledger_config)

lemma admit_batch_cases:
  assumes "admit_batch_put_if_committed c ns kvs commit i s = (r, i', s')"
  defines "final \<equiv> bt_extend kvs bt_empty"
  shows "(\<exists>t q. r = Inr True \<and> commit s = (True, s') \<and> resolve_tenant c i = Inr t \<and> tenant_quota t ns i = Inr q
           \<and> length kvs \<le> iso_max_batch_items (iso_config i) \<and> request_bytes kvs \<le> iso_max_request_bytes (iso_config i)
           \<and> \<not> over_quota q (foldl (\<lambda>u (k, b). project (bt_get (iso_entries i) (t, ns, k)) b u) (usage_of t ns i) final)
           \<and> iso_entries i' = bt_extend (map (\<lambda>(k, b). ((t, ns, k), b)) final) (iso_entries i)
           \<and> iso_usage i' = bt_insert (t, ns)
               (foldl (\<lambda>u (k, b). project (bt_get (iso_entries i) (t, ns, k)) b u) (usage_of t ns i) final) (iso_usage i)
           \<and> same_config i i')
       \<or> (r = Inr False \<and> commit s = (False, s') \<and> same_ledger i i')
       \<or> (\<exists>e. r = Inl e \<and> s' = s \<and> same_ledger i i')"
proof (cases "iso_max_batch_items (iso_config i) < length kvs \<or> iso_max_request_bytes (iso_config i) < request_bytes kvs
    \<or> list_ex (\<lambda>(_, b). iso_max_value_bytes (iso_config i) < b) kvs")
  case True
  then have "\<exists>e. admit_batch_put_if_committed c ns kvs commit i s = (Inl e, i, s)"
    unfolding admit_batch_put_if_committed_def
    by (cases "iso_max_batch_items (iso_config i) < length kvs"; cases "iso_max_request_bytes (iso_config i) < request_bytes kvs") simp_all
  with assms(1) show ?thesis by auto
next
  case small: False
  obtain x j where adm: "admit_request c i = (x, j)" by (cases "admit_request c i")
  note same = admit_request_same [OF adm]
  note eqs = same_ledger_keeps(3,4,5) [OF same] same [unfolded same_ledger_def]
  show ?thesis
  proof (cases x)
    case (Inl e)
    with assms(1) small adm same show ?thesis by (auto simp: admit_batch_put_if_committed_def)
  next
    case (Inr t)
    with adm have t: "resolve_tenant c i = Inr t" by (blast dest: admit_request_tenant)
    show ?thesis
    proof (cases "tenant_quota t ns i")
      case (Inl e)
      with assms(1) small adm \<open>x = Inr t\<close> eqs same show ?thesis by (auto simp: admit_batch_put_if_committed_def)
    next
      case (Inr q)
      obtain ok s'' where commit: "commit s = (ok, s'')" by (cases "commit s")
      from assms(1) small adm \<open>x = Inr t\<close> Inr eqs same commit t show ?thesis unfolding final_def
        by (cases ok) (auto simp: admit_batch_put_if_committed_def Let_def same_config_def split: if_splits)
    qed
  qed
qed

lemma admit_batch_config: "admit_batch_put_if_committed c ns kvs commit i s = (r, i', s') \<Longrightarrow> same_config i i'"
  using admit_batch_cases [of c ns kvs commit i s r i' s'] by (auto dest: same_ledger_config)

lemma admit_batch_ledger:
  assumes ok: "ledger_ok i" and bounded: "quotas_bounded i"
    and adm: "admit_batch_put_if_committed c ns kvs commit i s = (r, i', s')"
  shows "ledger_ok i'"
proof -
  define final where "final = bt_extend kvs bt_empty"
  show ?thesis using admit_batch_cases [OF adm, folded final_def]
  proof (elim disjE exE conjE)
    fix t q
    let ?E = "iso_entries i" and ?E' = "bt_extend (map (\<lambda>(k, b). ((t, ns, k), b)) final) (iso_entries i)"
      and ?u = "foldl (\<lambda>u (k, b). project (bt_get (iso_entries i) (t, ns, k)) b u) (usage_of t ns i) final"
    assume q: "tenant_quota t ns i = Inr q" and len: "length kvs \<le> iso_max_batch_items (iso_config i)"
      and bytes: "request_bytes kvs \<le> iso_max_request_bytes (iso_config i)" and fits: "\<not> over_quota q ?u"
      and i': "iso_entries i' = ?E'" "iso_usage i' = bt_insert (t, ns) ?u (iso_usage i)" "same_config i i'"
    note bt = ok [unfolded ledger_ok_def, THEN conjunct1]
    have exact: "usage_exact t ns i" and under: "\<not> over_quota q (usage_of t ns i)"
      using ok q unfolding ledger_ok_def by blast+
    have room: "unat (quota_max_bytes q) + unat (iso_max_request_bytes (iso_config i)) < 2 ^ 64 - 1"
      "unat (quota_max_entries q) + iso_max_batch_items (iso_config i) + 1 < 2 ^ 64 - 1"
      using bounded q unfolding quotas_bounded_def by blast+
    have "unat (request_bytes kvs) \<le> unat (iso_max_request_bytes (iso_config i))" using bytes by (simp add: word_le_nat_alt)
    then have "bt_weight unat final \<le> unat (iso_max_request_bytes (iso_config i))"
      using weight_extend_le [of unat kvs bt_empty] room(1) by (simp add: final_def unat_request_bytes bt_empty_def)
    moreover have "length final \<le> iso_max_batch_items (iso_config i)"
      using length_extend_le [of kvs bt_empty] len by (simp add: final_def bt_empty_def)
    moreover have "unat (usage_bytes (usage_of t ns i)) \<le> unat (quota_max_bytes q)" "unat (usage_entries (usage_of t ns i)) \<le> unat (quota_max_entries q)"
      using under by (simp_all add: over_quota_def word_less_nat_alt)
    ultimately have sums: "unat (usage_bytes ?u) = bt_weight unat (bt_retain (\<lambda>a _. fst a = t \<and> fst (snd a) = ns) ?E')
        \<and> unat (usage_entries ?u) = length (bt_retain (\<lambda>a _. fst a = t \<and> fst (snd a) = ns) ?E')"
      using bt exact room unfolding usage_exact_def in_ns_eta
      by (intro ledger_batch) (simp_all add: final_def bt_ok_distinct)
    have get: "bt_get ?E' (t', ns', k') = (if (t', ns') = (t, ns) then (case map_of (rev final) k' of Some b \<Rightarrow> Some b | None \<Rightarrow> bt_get ?E (t', ns', k'))
        else bt_get ?E (t', ns', k'))" for t' ns' k'
      by (induction final arbitrary: rule: rev_induct) (auto simp: bt_extend_def map_add_def split: option.splits)
    have "ledger_ok (i\<lparr>iso_entries := ?E', iso_usage := bt_insert (t, ns) ?u (iso_usage i)\<rparr>)"
    proof (rule ledger_set [OF ok])
      show "bt_ok ?E'" using bt by simp
      show "bt_retain (\<lambda>(a, b, _) _. a = t' \<and> b = ns') ?E' = ns_entries t' ns' i" if "(t', ns') \<noteq> (t, ns)" for t' ns'
        using bt that by (intro bt_eqI) (auto simp: fun_eq_iff bt_get_retain get split: option.splits)
      show "\<exists>q. tenant_quota t' ns' i = Inr q" if "bt_get ?E' (t', ns', k') = Some b'" for t' ns' k' b'
        using that ledger_entry_quota [OF ok] q by (auto simp: get split: if_splits option.splits)
    qed (use sums q fits in \<open>auto simp: in_ns_eta\<close>)
    then show ?thesis
      by (rule ledger_cong [THEN iffD2, rotated -1]) (use i' in \<open>simp_all add: same_config_def\<close>)
  qed (use ok same_ledger_keeps(1) in blast)+
qed

lemma remove_entry_for_tenant_config: "same_config i (snd (remove_entry_for_tenant t ns key i))"
  by (auto simp: remove_entry_for_tenant_def same_config_def Let_def split: option.splits)

lemma remove_entry_for_tenant_entries:
  "ledger_ok i \<Longrightarrow> bt_get (iso_entries (snd (remove_entry_for_tenant t ns key i))) = (bt_get (iso_entries i))((t, ns, key) := None)"
  using ledger_entry_quota [of i t ns key]
  by (auto simp: remove_entry_for_tenant_def Let_def tenant_quota_def fun_eq_iff split: option.splits if_splits)

lemma remove_entry_for_tenant_ledger:
  assumes ok: "ledger_ok i"
  shows "ledger_ok (snd (remove_entry_for_tenant t ns key i))"
proof (cases "bt_get (roster_tenants (iso_roster i)) t = None \<or> bt_get (iso_entries i) (t, ns, key) = None")
  case True
  with ok show ?thesis by (auto simp: remove_entry_for_tenant_def split: option.splits)
next
  case False
  then obtain old where old: "bt_get (iso_entries i) (t, ns, key) = Some old" and t: "bt_get (roster_tenants (iso_roster i)) t \<noteq> None" by auto
  note bt = ok [unfolded ledger_ok_def, THEN conjunct1]
  let ?E = "iso_entries i" and ?u = "\<lparr>usage_bytes = sat_sub (usage_bytes (usage_of t ns i)) old, usage_entries = sat_sub (usage_entries (usage_of t ns i)) 1\<rparr>"
  let ?F = "bt_retain (\<lambda>a _. fst a = t \<and> fst (snd a) = ns) ?E"
  have exact: "unat (usage_bytes (usage_of t ns i)) = bt_weight unat ?F" "unat (usage_entries (usage_of t ns i)) = length ?F"
    using ok unfolding ledger_ok_def usage_exact_def in_ns_eta by blast+
  have get: "bt_get ?F (t, ns, key) = Some old" using bt old by (simp add: bt_get_retain)
  have okF: "bt_ok ?F" using bt by simp
  have "ledger_ok (i\<lparr>iso_entries := bt_remove (t, ns, key) ?E, iso_usage := bt_insert (t, ns) ?u (iso_usage i)\<rparr>)"
  proof (rule ledger_set [OF ok])
    show "bt_ok (bt_remove (t, ns, key) ?E)" using bt by simp
    show "bt_retain (\<lambda>(a, b, _) _. a = t' \<and> b = ns') (bt_remove (t, ns, key) ?E) = ns_entries t' ns' i" if "(t', ns') \<noteq> (t, ns)" for t' ns'
      using that bt by (intro bt_eqI) (auto simp: fun_eq_iff bt_get_retain split: option.splits)
    show "unat (usage_bytes ?u) = bt_weight unat (bt_retain (\<lambda>(a, b, _) _. a = t \<and> b = ns) (bt_remove (t, ns, key) ?E))"
      using bt_weight_remove [OF okF, of unat "(t, ns, key)"] get exact bt
      unfolding in_ns_eta retain_remove [OF bt] by (simp add: unat_sat_sub)
    show "unat (usage_entries ?u) = length (bt_retain (\<lambda>(a, b, _) _. a = t \<and> b = ns) (bt_remove (t, ns, key) ?E))"
      using length_bt_remove [OF okF, of "(t, ns, key)"] get exact
      unfolding in_ns_eta retain_remove [OF bt] by (simp add: unat_sat_sub)
    show "\<exists>q. tenant_quota t' ns' i = Inr q" if "bt_get (bt_remove (t, ns, key) ?E) (t', ns', key') = Some b'" for t' ns' key' b'
      using that ledger_entry_quota [OF ok] by (auto split: if_splits)
    show "\<not> over_quota q ?u" if "tenant_quota t ns i = Inr q" for q
      using that ok unfolding ledger_ok_def over_quota_def by (fastforce simp: word_less_nat_alt unat_sat_sub)
  qed
  then show ?thesis using old t by (auto simp: remove_entry_for_tenant_def Let_def)
qed

lemma remove_entry_eq:
  "resolve_tenant c i = Inr t \<Longrightarrow> tenant_quota t ns i = Inr q \<Longrightarrow>
   remove_entry c ns key i = (Inr (fst (remove_entry_for_tenant t ns key i)), snd (remove_entry_for_tenant t ns key i))"
  by (simp add: remove_entry_def split: prod.split)

lemma remove_entry_ledger: "ledger_ok i \<Longrightarrow> ledger_ok (snd (remove_entry c ns key i))"
  using remove_entry_for_tenant_ledger
  by (auto simp: remove_entry_def split: sum.splits prod.splits) (metis snd_conv)

lemma remove_entry_config: "same_config i (snd (remove_entry c ns key i))"
  using remove_entry_for_tenant_config [of i _ ns key]
  by (auto simp: remove_entry_def split: sum.splits prod.splits) (metis snd_conv)

lemma remove_entry_entries:
  assumes "ledger_ok i" "resolve_tenant c i = Inr t"
  shows "bt_get (iso_entries (snd (remove_entry c ns key i))) = (bt_get (iso_entries i))((t, ns, key) := None)"
proof (cases "tenant_quota t ns i")
  case (Inl e)
  then have "bt_get (iso_entries i) (t, ns, key) = None" using ledger_entry_quota [OF assms(1)] by fastforce
  with Inl assms(2) show ?thesis by (simp add: remove_entry_def fun_upd_idem)
next
  case (Inr q)
  with assms remove_entry_for_tenant_entries [OF assms(1)] show ?thesis by (simp add: remove_entry_eq)
qed

lemma evict_cases:
  assumes "evict_namespace c ns i = (r, i')"
  shows "(\<exists>e. r = Inl e \<and> same_ledger i i')
       \<or> (\<exists>t n. r = Inr n \<and> resolve_tenant c i = Inr t \<and> same_config i i'
           \<and> iso_entries i' = bt_retain (\<lambda>(t', ns', _) _. t' \<noteq> t \<or> ns' \<noteq> ns) (iso_entries i)
           \<and> iso_usage i' = bt_insert (t, ns) \<lparr>usage_bytes = 0, usage_entries = 0\<rparr> (iso_usage i))"
proof -
  obtain x j where adm: "admit_request c i = (x, j)" by (cases "admit_request c i")
  note same = admit_request_same [OF adm]
  show ?thesis
    using assms adm same admit_request_tenant [of c i _ j]
    by (cases x) (auto simp: evict_namespace_def Let_def same_ledger_def same_config_def)
qed

lemma evict_config: "evict_namespace c ns i = (r, i') \<Longrightarrow> same_config i i'"
  using evict_cases [of c ns i r i'] by (auto dest: same_ledger_config)

lemma evict_ledger:
  assumes ok: "ledger_ok i" and ev: "evict_namespace c ns i = (r, i')"
  shows "ledger_ok i'"
  using evict_cases [OF ev]
proof (elim disjE exE conjE)
  fix t n
  let ?E' = "bt_retain (\<lambda>(t', ns', _) _. t' \<noteq> t \<or> ns' \<noteq> ns) (iso_entries i)"
  assume i': "same_config i i'" "iso_entries i' = ?E'" "iso_usage i' = bt_insert (t, ns) \<lparr>usage_bytes = 0, usage_entries = 0\<rparr> (iso_usage i)"
  note bt = ok [unfolded ledger_ok_def, THEN conjunct1]
  have none: "bt_retain (\<lambda>(a, b, _) _. a = t \<and> b = ns) ?E' = []"
    by (auto simp: bt_retain_def filter_empty_conv)
  have "ledger_ok (i\<lparr>iso_entries := ?E', iso_usage := bt_insert (t, ns) \<lparr>usage_bytes = 0, usage_entries = 0\<rparr> (iso_usage i)\<rparr>)"
  proof (rule ledger_set [OF ok])
    show "bt_ok ?E'" using bt by simp
    show "bt_retain (\<lambda>(a, b, _) _. a = t' \<and> b = ns') ?E' = ns_entries t' ns' i" if "(t', ns') \<noteq> (t, ns)" for t' ns'
      using that bt by (intro bt_eqI) (auto simp: fun_eq_iff bt_get_retain split: option.splits)
    show "\<exists>q. tenant_quota t' ns' i = Inr q" if "bt_get ?E' (t', ns', key') = Some b'" for t' ns' key' b'
      using that ledger_entry_quota [OF ok] bt by (auto simp: bt_get_retain split: option.splits if_splits)
  qed (simp_all only: none, simp_all add: over_quota_def)
  then show ?thesis
    by (rule ledger_cong [THEN iffD2, rotated -1]) (use i' in \<open>simp_all add: same_config_def\<close>)
qed (use ok same_ledger_keeps(1) in blast)

lemma isolation_new_ledger: "roster_ok r \<Longrightarrow> ledger_ok (isolation_new r c)"
  by (simp add: ledger_ok_def isolation_new_def usage_exact_def usage_of_def bt_empty_def bt_retain_def over_quota_def)

end
