(* ===== verification/Client_Protocol.thy ===== *)
theory Client_Protocol
  imports Client_Keys
begin

text \<open>
  Requests, responses and errors of the client protocol (\<open>hydracache-client-protocol/src/lib.rs\<close>) and the version rules that
  say which of them a negotiated version admits. The free text of an error envelope and the unused routing context of a request
  envelope are left out; frame encoding is the job of a serialisation library and is not modelled.
\<close>

type_synonym u16 = "16 word"

section \<open>Errors\<close>

datatype client_error_code =
    IncompatibleVersion | Unauthenticated | Unauthorized | TenantQuota | RateLimited | ResidencyDenied
  | TooLarge | DeadlineExceeded | Conflict | BackendUnavailable | MalformedFrame

record client_error =
  err_code :: client_error_code
  err_retryable :: bool
  err_retry_after_ms :: "u64 option"

abbreviation client_error_new :: "client_error_code \<Rightarrow> bool \<Rightarrow> client_error" where
  "client_error_new code retryable \<equiv> \<lparr>err_code = code, err_retryable = retryable, err_retry_after_ms = None\<rparr>"

section \<open>Requests\<close>

datatype lock_consistency = LockOne | LockQuorum | LockEachQuorum | LockAll

datatype cas_expectation = Exact bytes | Present

datatype conditional_put_condition = IfAbsent | IfPresentValue bytes

datatype compare_value_expire_mode = Replace | ReplaceIfExpiring | AddToRemaining

datatype entry_event_projection = Invalidation | IMapEntryEvent

record client_watermark =
  wm_source_generation :: u64
  wm_message_id :: u64

datatype client_request =
    Get client_namespace structured_key
  | Put client_namespace structured_key bytes "u64 option" "string list"
  | Invalidate client_namespace structured_key
  | BatchGet client_namespace "structured_key list"
  | BatchPut client_namespace "(structured_key \<times> bytes) list"
  | Expire client_namespace structured_key u64
  | Persist client_namespace structured_key
  | GetTtl client_namespace structured_key
  | ConditionalPut client_namespace structured_key bytes "u64 option" conditional_put_condition
  | CompareValueAndInvalidate client_namespace structured_key bytes
  | CompareValueAndExpire client_namespace structured_key bytes u64 compare_value_expire_mode
  | EvictRegion client_namespace
  | SubscribeInvalidations client_namespace "string option" "client_watermark option" bool
  | SubscribeEntryEvents client_namespace "string option" "client_watermark option" bool entry_event_projection
  | TryLock client_namespace structured_key u64 u64 lock_consistency
  | Unlock client_namespace structured_key u64
  | RenewLockLease client_namespace structured_key u64 u64
  | ForceUnlock client_namespace structured_key
  | GetLockOwnership client_namespace structured_key
  | CompareAndSet client_namespace structured_key cas_expectation bytes lock_consistency
  | RemoveIfValue client_namespace structured_key bytes lock_consistency

fun request_namespace :: "client_request \<Rightarrow> client_namespace" where
  "request_namespace (Get ns _) = ns"
| "request_namespace (Put ns _ _ _ _) = ns"
| "request_namespace (Invalidate ns _) = ns"
| "request_namespace (BatchGet ns _) = ns"
| "request_namespace (BatchPut ns _) = ns"
| "request_namespace (Expire ns _ _) = ns"
| "request_namespace (Persist ns _) = ns"
| "request_namespace (GetTtl ns _) = ns"
| "request_namespace (ConditionalPut ns _ _ _ _) = ns"
| "request_namespace (CompareValueAndInvalidate ns _ _) = ns"
| "request_namespace (CompareValueAndExpire ns _ _ _ _) = ns"
| "request_namespace (EvictRegion ns) = ns"
| "request_namespace (SubscribeInvalidations ns _ _ _) = ns"
| "request_namespace (SubscribeEntryEvents ns _ _ _ _) = ns"
| "request_namespace (TryLock ns _ _ _ _) = ns"
| "request_namespace (Unlock ns _ _) = ns"
| "request_namespace (RenewLockLease ns _ _ _) = ns"
| "request_namespace (ForceUnlock ns _) = ns"
| "request_namespace (GetLockOwnership ns _) = ns"
| "request_namespace (CompareAndSet ns _ _ _ _) = ns"
| "request_namespace (RemoveIfValue ns _ _ _) = ns"

section \<open>Responses\<close>

datatype ttl_state = TtlMissing | TtlPersistent | TtlExpiresIn u64

record batch_item =
  item_index :: usize
  item_result :: "client_error + bytes option"

datatype client_response =
    RespValue "bytes option"
  | RespStored
  | RespInvalidated
  | RespBatch "batch_item list"
  | RespExpiry bool
  | RespTtl ttl_state
  | RespConditionalStored bool
  | RespCompareValueApplied bool
  | RespEvicted
  | RespSubscribed "client_watermark option"
  | RespLockAcquired u64
  | RespLockBusy
  | RespLockReleased
  | RespLockLeaseRenewed
  | RespLockOwnership "u64 option" bool
  | RespCasApplied u64
  | RespCasMismatch "bytes option"

section \<open>Versions\<close>

abbreviation MIN_PROTOCOL_VERSION :: u16 where "MIN_PROTOCOL_VERSION \<equiv> 1"

abbreviation PROTOCOL_VERSION :: u16 where "PROTOCOL_VERSION \<equiv> 4"

abbreviation LOCK_PROTOCOL_VERSION :: u16 where "LOCK_PROTOCOL_VERSION \<equiv> 2"

abbreviation TTL_PROTOCOL_VERSION :: u16 where "TTL_PROTOCOL_VERSION \<equiv> 3"

abbreviation REDIS_LOCK_PROTOCOL_VERSION :: u16 where "REDIS_LOCK_PROTOCOL_VERSION \<equiv> 4"

fun minimum_protocol_version :: "client_request \<Rightarrow> u16" where
  "minimum_protocol_version (Get _ _) = MIN_PROTOCOL_VERSION"
| "minimum_protocol_version (Invalidate _ _) = MIN_PROTOCOL_VERSION"
| "minimum_protocol_version (BatchGet _ _) = MIN_PROTOCOL_VERSION"
| "minimum_protocol_version (BatchPut _ _) = MIN_PROTOCOL_VERSION"
| "minimum_protocol_version (EvictRegion _) = MIN_PROTOCOL_VERSION"
| "minimum_protocol_version (SubscribeInvalidations _ _ _ _) = MIN_PROTOCOL_VERSION"
| "minimum_protocol_version (Put _ _ _ (Some _) _) = TTL_PROTOCOL_VERSION"
| "minimum_protocol_version (Put _ _ _ None _) = MIN_PROTOCOL_VERSION"
| "minimum_protocol_version (Expire _ _ _) = TTL_PROTOCOL_VERSION"
| "minimum_protocol_version (Persist _ _) = TTL_PROTOCOL_VERSION"
| "minimum_protocol_version (GetTtl _ _) = TTL_PROTOCOL_VERSION"
| "minimum_protocol_version (ConditionalPut _ _ _ _ _) = REDIS_LOCK_PROTOCOL_VERSION"
| "minimum_protocol_version (CompareValueAndInvalidate _ _ _) = REDIS_LOCK_PROTOCOL_VERSION"
| "minimum_protocol_version (CompareValueAndExpire _ _ _ _ _) = REDIS_LOCK_PROTOCOL_VERSION"
| "minimum_protocol_version (SubscribeEntryEvents _ _ _ _ _) = LOCK_PROTOCOL_VERSION"
| "minimum_protocol_version (TryLock _ _ _ _ _) = LOCK_PROTOCOL_VERSION"
| "minimum_protocol_version (Unlock _ _ _) = LOCK_PROTOCOL_VERSION"
| "minimum_protocol_version (RenewLockLease _ _ _ _) = LOCK_PROTOCOL_VERSION"
| "minimum_protocol_version (ForceUnlock _ _) = LOCK_PROTOCOL_VERSION"
| "minimum_protocol_version (GetLockOwnership _ _) = LOCK_PROTOCOL_VERSION"
| "minimum_protocol_version (CompareAndSet _ _ _ _ _) = LOCK_PROTOCOL_VERSION"
| "minimum_protocol_version (RemoveIfValue _ _ _ _) = LOCK_PROTOCOL_VERSION"

fun response_minimum_version :: "client_response \<Rightarrow> u16" where
  "response_minimum_version (RespValue _) = MIN_PROTOCOL_VERSION"
| "response_minimum_version RespStored = MIN_PROTOCOL_VERSION"
| "response_minimum_version RespInvalidated = MIN_PROTOCOL_VERSION"
| "response_minimum_version (RespBatch _) = MIN_PROTOCOL_VERSION"
| "response_minimum_version RespEvicted = MIN_PROTOCOL_VERSION"
| "response_minimum_version (RespSubscribed _) = MIN_PROTOCOL_VERSION"
| "response_minimum_version (RespLockAcquired _) = LOCK_PROTOCOL_VERSION"
| "response_minimum_version RespLockBusy = LOCK_PROTOCOL_VERSION"
| "response_minimum_version RespLockReleased = LOCK_PROTOCOL_VERSION"
| "response_minimum_version RespLockLeaseRenewed = LOCK_PROTOCOL_VERSION"
| "response_minimum_version (RespLockOwnership _ _) = LOCK_PROTOCOL_VERSION"
| "response_minimum_version (RespCasApplied _) = LOCK_PROTOCOL_VERSION"
| "response_minimum_version (RespCasMismatch _) = LOCK_PROTOCOL_VERSION"
| "response_minimum_version (RespExpiry _) = TTL_PROTOCOL_VERSION"
| "response_minimum_version (RespTtl _) = TTL_PROTOCOL_VERSION"
| "response_minimum_version (RespConditionalStored _) = REDIS_LOCK_PROTOCOL_VERSION"
| "response_minimum_version (RespCompareValueApplied _) = REDIS_LOCK_PROTOCOL_VERSION"

definition protocol_version_supported :: "u16 \<Rightarrow> bool" where
  "protocol_version_supported v \<longleftrightarrow> MIN_PROTOCOL_VERSION \<le> v \<and> v \<le> PROTOCOL_VERSION"

definition require_protocol_version :: "u16 \<Rightarrow> u16 \<Rightarrow> client_error + unit" where
  "require_protocol_version v required_min =
     (if \<not> protocol_version_supported v then Inl (client_error_new IncompatibleVersion False)
      else if required_min \<le> v then Inr ()
      else Inl (client_error_new IncompatibleVersion False))"

section \<open>Envelopes\<close>

record request_envelope =
  req_id :: string
  req_protocol_version :: u16
  req_deadline_ms :: "u64 option"
  req_idempotency_key :: "string option"
  req_request :: client_request

definition deadline_expired :: "u64 \<Rightarrow> request_envelope \<Rightarrow> bool" where
  "deadline_expired now env = (case req_deadline_ms env of Some deadline \<Rightarrow> deadline \<le> now | None \<Rightarrow> False)"

definition validate_protocol :: "request_envelope \<Rightarrow> client_error + unit" where
  "validate_protocol env = require_protocol_version (req_protocol_version env) (minimum_protocol_version (req_request env))"

record response_envelope =
  resp_id :: string
  resp_protocol_version :: u16
  resp_result :: "client_error + client_response"

lemma validate_protocol_ok:
  "validate_protocol env = Inr () \<Longrightarrow>
   protocol_version_supported (req_protocol_version env) \<and> minimum_protocol_version (req_request env) \<le> req_protocol_version env"
  by (simp add: validate_protocol_def require_protocol_version_def split: if_splits)

end
