(* ===== verification/Client_Surface.thy ===== *)
theory Client_Surface
  imports Client_Protocol Tenant_Isolation Conditional_Store
begin

text \<open>
  The shared state of the public client surface and its request dispatch (\<open>hydracache-client-transport-axum/src/lib.rs\<close>): an
  expiring value store, idempotent puts, the lock and compare-and-set service on top of the conditional store, the audit trail
  (\<open>hydracache-observability/src/audit.rs\<close>) and, where configured, tenant isolation. A request is one step: the source holds
  its mutexes over the part of the state a handler changes. The system clock is an argument, one reading for the sweep of a
  request and one for its handler; a channel send appends to the list of published events. The text of errors is
  left out.
\<close>

section \<open>State\<close>

record surface_limits =
  lim_max_frame_bytes :: usize
  lim_max_value_bytes :: usize
  lim_max_batch_entries :: usize
  lim_max_batch_bytes :: usize
  lim_max_streams_per_connection :: usize
  lim_heartbeat_interval_ms :: u64
  lim_idle_timeout_ms :: u64

record client_identity =
  ident_client_id :: string
  ident_tenant :: string
  ident_admin :: bool

record client_lock_service =
  ls_store :: conditional_store
  ls_local_node_id :: u64
  ls_leader_node_id :: u64
  ls_logical_now_ms :: u64
  ls_applied_commands :: u64

record stored_value =
  sv_value :: bytes
  sv_expires_at_ms :: "u64 option"

datatype mutation_kind = MutStored | MutRemoved | MutInvalidated | MutExpire | MutPersist | MutNamespaceEvicted

record mutation_event =
  me_tenant :: string
  me_namespace :: client_namespace
  me_key :: "structured_key option"
  me_kind :: mutation_kind
  me_message_id :: u64

text \<open>The audit events that the surface emits; all of them are mandatory.\<close>

datatype audit_event =
    AuthFailure "string option" string "string option"
  | QuotaRejected string string "string option"
  | PolicyChanged string cluster_epoch string

record audit_recorder =
  au_events :: "audit_event list"
  au_recorded_total :: u64
  au_sink_failures_total :: u64
  au_mandatory_fail_closed_total :: u64

record client_surface =
  su_limits :: surface_limits
  su_dispatch_attempts :: u64
  su_state_mutations :: u64
  su_next_message_id :: u64
  su_receivers :: usize
  su_published :: "mutation_event list"
  su_store :: "(store_key, stored_value) btmap"
  su_test_clock :: "u64 option"
  su_time_floor :: u64
  su_next_sweep :: u64
  su_cursor :: "store_key option"
  su_idempotency :: "(string \<times> string, u64) btmap"
  su_lock_service :: client_lock_service
  su_audit :: audit_recorder
  su_isolation :: "consumer_isolation option"

definition lock_service_new :: client_lock_service where
  "lock_service_new =
     \<lparr>ls_store = cond_new 1 64, ls_local_node_id = 1, ls_leader_node_id = 1, ls_logical_now_ms = 0, ls_applied_commands = 0\<rparr>"

text \<open>The failures of the operations below that are not responses to a client.\<close>

datatype surface_error = InvalidLimit string | DiagnosticResetUnavailable

definition limits_validate :: "surface_limits \<Rightarrow> surface_error + unit" where
  "limits_validate limits =
     (if lim_max_frame_bytes limits = 0 then Inl (InvalidLimit ''max_frame_bytes'')
      else if lim_max_value_bytes limits = 0 then Inl (InvalidLimit ''max_value_bytes'')
      else if lim_max_batch_entries limits = 0 then Inl (InvalidLimit ''max_batch_entries'')
      else if lim_max_batch_bytes limits = 0 then Inl (InvalidLimit ''max_batch_bytes'')
      else if lim_max_streams_per_connection limits = 0 then Inl (InvalidLimit ''max_streams_per_connection'')
      else if lim_heartbeat_interval_ms limits = 0 then Inl (InvalidLimit ''heartbeat_interval_ms'')
      else if lim_idle_timeout_ms limits = 0 then Inl (InvalidLimit ''idle_timeout_ms'')
      else Inr ())"

definition surface_new :: "surface_limits \<Rightarrow> consumer_isolation option \<Rightarrow> surface_error + client_surface" where
  "surface_new limits isol =
     result_bind (limits_validate limits) (\<lambda>_. Inr
       \<lparr>su_limits = limits, su_dispatch_attempts = 0, su_state_mutations = 0, su_next_message_id = 1, su_receivers = 0,
        su_published = [], su_store = bt_empty, su_test_clock = None, su_time_floor = 0, su_next_sweep = 0, su_cursor = None,
        su_idempotency = bt_empty, su_lock_service = lock_service_new,
        su_audit = \<lparr>au_events = [], au_recorded_total = 0, au_sink_failures_total = 0, au_mandatory_fail_closed_total = 0\<rparr>,
        su_isolation = isol\<rparr>)"

section \<open>Values and time\<close>

definition stored_value_new :: "bytes \<Rightarrow> u64 \<Rightarrow> u64 option \<Rightarrow> stored_value" where
  "stored_value_new val now ttl = \<lparr>sv_value = val, sv_expires_at_ms = map_option (sat_add now) ttl\<rparr>"

definition is_expired :: "u64 \<Rightarrow> stored_value \<Rightarrow> bool" where
  "is_expired now e = (case sv_expires_at_ms e of Some expires \<Rightarrow> expires \<le> now | None \<Rightarrow> False)"

definition entry_ttl_state :: "u64 \<Rightarrow> stored_value \<Rightarrow> ttl_state" where
  "entry_ttl_state now e =
     (case sv_expires_at_ms e of
        Some expires \<Rightarrow> if expires \<le> now then TtlMissing else TtlExpiresIn (sat_sub expires now)
      | None \<Rightarrow> TtlPersistent)"

definition now_ms :: "u64 \<Rightarrow> client_surface \<Rightarrow> u64 \<times> client_surface" where
  "now_ms wall su =
     (let candidate = (case su_test_clock su of Some t \<Rightarrow> t | None \<Rightarrow> wall);
          now = max candidate (su_time_floor su)
      in (now, su\<lparr>su_time_floor := now\<rparr>))"

text \<open>The live entry of a key; an expired one is removed and reported.\<close>

definition live_entry :: "store_key \<Rightarrow> u64 \<Rightarrow> client_surface \<Rightarrow> stored_value option \<times> bool \<times> client_surface" where
  "live_entry key now su =
     (case bt_get (su_store su) key of
        Some e \<Rightarrow> if is_expired now e then (None, True, su\<lparr>su_store := bt_remove key (su_store su)\<rparr>) else (Some e, False, su)
      | None \<Rightarrow> (None, False, su))"

section \<open>Audit and events\<close>

abbreviation CLIENT_DATA_PATH :: string where
  "CLIENT_DATA_PATH \<equiv> ''/client/v1/data''"

abbreviation IN_MEMORY_AUDIT_CAPACITY :: usize where
  "IN_MEMORY_AUDIT_CAPACITY \<equiv> 4096"

definition record_audit :: "audit_event \<Rightarrow> client_surface \<Rightarrow> (client_error + unit) \<times> client_surface" where
  "record_audit event su =
     (let a = su_audit su in
      if IN_MEMORY_AUDIT_CAPACITY \<le> length (au_events a)
      then (Inl (client_error_new BackendUnavailable False),
            su\<lparr>su_audit := a\<lparr>au_sink_failures_total := sat_add (au_sink_failures_total a) 1,
                             au_mandatory_fail_closed_total := sat_add (au_mandatory_fail_closed_total a) 1\<rparr>\<rparr>)
      else (Inr (), su\<lparr>su_audit := a\<lparr>au_events := au_events a @ [event], au_recorded_total := sat_add (au_recorded_total a) 1\<rparr>\<rparr>))"

definition record_rejection_audit :: "client_identity \<Rightarrow> string \<Rightarrow> string \<Rightarrow> client_error + client_response \<Rightarrow> bool
    \<Rightarrow> client_surface \<Rightarrow> client_surface" where
  "record_rejection_audit ident ns rid result audit_auth_failure su =
     (case result of
        Inr _ \<Rightarrow> su
      | Inl e \<Rightarrow>
          if err_code e = TenantQuota \<or> err_code e = RateLimited then snd (record_audit (QuotaRejected (ident_tenant ident) ns (Some rid)) su)
          else if err_code e = Unauthorized \<and> audit_auth_failure
          then snd (record_audit (AuthFailure (Some (ident_tenant ident)) CLIENT_DATA_PATH (Some rid)) su)
          else su)"

definition record_mutation :: "client_identity \<Rightarrow> client_namespace \<Rightarrow> structured_key option \<Rightarrow> mutation_kind
    \<Rightarrow> client_surface \<Rightarrow> client_surface" where
  "record_mutation ident ns key kind su =
     (if su_receivers su = 0 then su
      else su\<lparr>su_next_message_id := su_next_message_id su + 1,
              su_published := su_published su
                @ [\<lparr>me_tenant = ident_tenant ident, me_namespace = ns, me_key = key, me_kind = kind, me_message_id = su_next_message_id su\<rparr>]\<rparr>)"

text \<open>What every handler does after a change took effect.\<close>

abbreviation mutated :: "client_identity \<Rightarrow> client_namespace \<Rightarrow> structured_key option \<Rightarrow> mutation_kind \<Rightarrow> client_surface \<Rightarrow> client_surface" where
  "mutated ident ns key kind su \<equiv> record_mutation ident ns key kind (su\<lparr>su_state_mutations := su_state_mutations su + 1\<rparr>)"

section \<open>Admission\<close>

definition admission_error :: "admission_rejection \<Rightarrow> client_error" where
  "admission_error rej =
     (let retry = (\<lambda>d. Some (of_nat (min (d div 1000000) (2 ^ 64 - 1)))) in
      case rej of
        RejectQuota _ _ d \<Rightarrow> \<lparr>err_code = TenantQuota, err_retryable = True, err_retry_after_ms = retry d\<rparr>
      | RejectRate _ d \<Rightarrow> \<lparr>err_code = RateLimited, err_retryable = True, err_retry_after_ms = retry d\<rparr>
      | UnknownTenant \<Rightarrow> client_error_new Unauthorized False
      | UnknownNamespace _ _ \<Rightarrow> client_error_new Unauthorized False
      | GlobalLimit _ \<Rightarrow> client_error_new TooLarge False)"

definition with_admitted_store :: "client_identity \<Rightarrow> (client_surface \<Rightarrow> 'a \<times> client_surface) \<Rightarrow> client_surface
    \<Rightarrow> (client_error + 'a) \<times> client_surface" where
  "with_admitted_store ident apply su =
     (case su_isolation su of
        Some isol \<Rightarrow>
          (case admit_request (ident_client_id ident) isol of
             (Inl e, isol) \<Rightarrow> (Inl (admission_error e), su\<lparr>su_isolation := Some isol\<rparr>)
           | (Inr _, isol) \<Rightarrow> (case apply (su\<lparr>su_isolation := Some isol\<rparr>) of (a, su) \<Rightarrow> (Inr a, su)))
      | None \<Rightarrow> (case apply su of (a, su) \<Rightarrow> (Inr a, su)))"

definition forget_entry :: "client_identity \<Rightarrow> client_namespace \<Rightarrow> structured_key \<Rightarrow> client_surface \<Rightarrow> client_surface" where
  "forget_entry ident ns key su =
     (case su_isolation su of
        Some isol \<Rightarrow> su\<lparr>su_isolation := Some (snd (remove_entry (ident_client_id ident) ns (stable_key key) isol))\<rparr>
      | None \<Rightarrow> su)"

definition validate_tenant_identity :: "client_identity \<Rightarrow> string \<Rightarrow> string option \<Rightarrow> client_surface \<Rightarrow> bool \<times> client_surface" where
  "validate_tenant_identity ident route rid su =
     (case su_isolation su of
        Some isol \<Rightarrow>
          if resolve_tenant (ident_client_id ident) isol = Inr (ident_tenant ident) then (True, su)
          else (False, snd (record_audit (AuthFailure (Some (ident_tenant ident)) route rid) su))
      | None \<Rightarrow> (True, su))"

section \<open>Expiry sweep\<close>

abbreviation CLIENT_SURFACE_EXPIRY_SWEEP_INTERVAL_MS :: u64 where
  "CLIENT_SURFACE_EXPIRY_SWEEP_INTERVAL_MS \<equiv> 1000"

abbreviation CLIENT_SURFACE_EXPIRY_SWEEP_SCAN_LIMIT :: usize where
  "CLIENT_SURFACE_EXPIRY_SWEEP_SCAN_LIMIT \<equiv> 256"

text \<open>The entries one sweep examines: those after the cursor first, then from the start up to the cursor.\<close>

definition sweep_scan :: "(store_key, stored_value) btmap \<Rightarrow> store_key option \<Rightarrow> usize \<Rightarrow> (store_key, stored_value) btmap" where
  "sweep_scan store cursor scan_limit =
     (case cursor of
        Some c \<Rightarrow>
          let after = take scan_limit (filter (\<lambda>(k, _). c < k) store)
          in after @ take (scan_limit - length after) (filter (\<lambda>(k, _). k \<le> c) store)
      | None \<Rightarrow> take scan_limit store)"

definition expiry_sweep_candidates :: "(store_key, stored_value) btmap \<Rightarrow> u64 \<Rightarrow> store_key option \<Rightarrow> usize \<Rightarrow> bool
    \<Rightarrow> usize \<times> store_key list \<times> store_key option" where
  "expiry_sweep_candidates store now cursor scan_limit capture_cursor =
     (let scanned = sweep_scan store cursor scan_limit in
      (length scanned, map fst (filter (\<lambda>(_, e). is_expired now e) scanned),
       if capture_cursor \<and> scanned \<noteq> [] then Some (fst (last scanned)) else None))"

definition sweep_remove :: "store_key \<Rightarrow> client_surface \<Rightarrow> client_surface" where
  "sweep_remove key su =
     (case key of (t, ns, k) \<Rightarrow>
        su\<lparr>su_isolation := map_option (\<lambda>isol. snd (remove_entry_for_tenant t ns k isol)) (su_isolation su),
           su_store := bt_remove key (su_store su)\<rparr>)"

definition sweep_expired_entries :: "u64 \<Rightarrow> bool \<Rightarrow> client_surface \<Rightarrow> usize \<times> client_surface" where
  "sweep_expired_entries now force su =
     (if \<not> force \<and> now < su_next_sweep su then (0, su)
      else
        let su = su\<lparr>su_next_sweep := sat_add now CLIENT_SURFACE_EXPIRY_SWEEP_INTERVAL_MS\<rparr>;
            (_, expired, next_cursor) = expiry_sweep_candidates (su_store su) now (if force then None else su_cursor su)
              (if force then usize_max else CLIENT_SURFACE_EXPIRY_SWEEP_SCAN_LIMIT) (\<not> force);
            su = fold sweep_remove expired su
        in (length expired, su\<lparr>su_cursor := next_cursor, su_state_mutations := su_state_mutations su + of_nat (length expired)\<rparr>))"

section \<open>Reads and writes\<close>

type_synonym surface_result = "client_error + client_response"

text \<open>The closures that the admitted handlers run on the store.\<close>

definition read_entry :: "client_identity \<Rightarrow> client_namespace \<Rightarrow> structured_key \<Rightarrow> u64 \<Rightarrow> client_surface \<Rightarrow> bytes option \<times> client_surface" where
  "read_entry ident ns key now su =
     (case live_entry (store_key_of (ident_tenant ident) ns key) now su of
        (e, expired, su) \<Rightarrow> (map_option sv_value e, if expired then forget_entry ident ns key su else su))"

fun batch_read :: "client_identity \<Rightarrow> client_namespace \<Rightarrow> u64 \<Rightarrow> structured_key list \<Rightarrow> client_surface
    \<Rightarrow> bytes option list \<times> structured_key list \<times> client_surface" where
  "batch_read ident ns now [] su = ([], [], su)"
| "batch_read ident ns now (key # keys) su =
     (case live_entry (store_key_of (ident_tenant ident) ns key) now su of
        (e, expired, su) \<Rightarrow>
          (case batch_read ident ns now keys su of
             (vals, expired_keys, su) \<Rightarrow> (map_option sv_value e # vals, (if expired then key # expired_keys else expired_keys), su)))"

definition batch_items :: "bytes option list \<Rightarrow> batch_item list" where
  "batch_items vals = map (\<lambda>(i, v). \<lparr>item_index = i, item_result = Inr v\<rparr>) (zip [0..<length vals] vals)"

definition handle_batch_get :: "client_identity \<Rightarrow> client_namespace \<Rightarrow> structured_key list \<Rightarrow> u64 \<Rightarrow> client_surface
    \<Rightarrow> surface_result \<times> client_surface" where
  "handle_batch_get ident ns keys wall su =
     (let batch_bytes = foldl (\<lambda>total key. usize_sat_add total (length (stable_key key))) 0 keys in
      if lim_max_batch_entries (su_limits su) < length keys then (Inl (client_error_new TooLarge False), su)
      else if lim_max_batch_bytes (su_limits su) < batch_bytes then (Inl (client_error_new TooLarge False), su)
      else
        case now_ms wall su of
          (now, su) \<Rightarrow>
            (case with_admitted_store ident (\<lambda>su.
                    (case batch_read ident ns now keys su of
                       (vals, expired_keys, su) \<Rightarrow> (batch_items vals, fold (forget_entry ident ns) expired_keys su))) su of
               (Inr items, su) \<Rightarrow> (Inr (RespBatch items), su)
             | (Inl e, su) \<Rightarrow> (Inl e, su)))"

text \<open>A commit that inserts into the store, for the admission of a put.\<close>

abbreviation insert_value :: "store_key \<Rightarrow> stored_value \<Rightarrow> client_surface \<Rightarrow> bool \<times> client_surface" where
  "insert_value key e su \<equiv> (True, su\<lparr>su_store := bt_insert key e (su_store su)\<rparr>)"

definition admit_put :: "client_identity \<Rightarrow> client_namespace \<Rightarrow> structured_key \<Rightarrow> nat \<Rightarrow> bool \<Rightarrow> (client_surface \<Rightarrow> bool \<times> client_surface)
    \<Rightarrow> client_surface \<Rightarrow> (client_error + bool) \<times> client_surface" where
  "admit_put ident ns key value_bytes condition_holds commit su =
     (case su_isolation su of
        Some isol \<Rightarrow>
          (case admit_put_if_committed (ident_client_id ident) ns (stable_key key) (of_nat value_bytes) condition_holds commit isol su of
             (Inl e, isol, su) \<Rightarrow> (Inl (admission_error e), su\<lparr>su_isolation := Some isol\<rparr>)
           | (Inr committed, isol, su) \<Rightarrow> (Inr committed, su\<lparr>su_isolation := Some isol\<rparr>))
      | None \<Rightarrow> if condition_holds then (case commit su of (committed, su) \<Rightarrow> (Inr committed, su)) else (Inr False, su))"

definition handle_batch_put :: "client_identity \<Rightarrow> client_namespace \<Rightarrow> (structured_key \<times> bytes) list \<Rightarrow> client_surface
    \<Rightarrow> surface_result \<times> client_surface" where
  "handle_batch_put ident ns entries su =
     (let batch_bytes = foldl (\<lambda>total (key, val). usize_sat_add (usize_sat_add total (length (stable_key key))) (length val)) 0 entries;
          quota_entries = map (\<lambda>(key, val). (stable_key key, of_nat (length val))) entries;
          commit = (\<lambda>su. (True, su\<lparr>su_store := fold (\<lambda>(key, val). bt_insert (store_key_of (ident_tenant ident) ns key)
                                       (stored_value_new val 0 None)) entries (su_store su)\<rparr>))
      in
      if lim_max_batch_entries (su_limits su) < length entries then (Inl (client_error_new TooLarge False), su)
      else if lim_max_batch_bytes (su_limits su) < batch_bytes then (Inl (client_error_new TooLarge False), su)
      else if list_ex (\<lambda>(_, val). lim_max_value_bytes (su_limits su) < length val) entries then (Inl (client_error_new TooLarge False), su)
      else
        case (case su_isolation su of
                Some isol \<Rightarrow>
                  (case admit_batch_put_if_committed (ident_client_id ident) ns quota_entries commit isol su of
                     (r, isol, su) \<Rightarrow> (r, su\<lparr>su_isolation := Some isol\<rparr>))
              | None \<Rightarrow> (Inr True, snd (commit su))) of
          (Inl e, su) \<Rightarrow> (Inl (admission_error e), su)
        | (Inr _, su) \<Rightarrow>
            (Inr (RespBatch (batch_items (replicate (length entries) None))),
             fold (\<lambda>(key, _). record_mutation ident ns (Some key) MutStored) entries
               (su\<lparr>su_state_mutations := su_state_mutations su + of_nat (length entries)\<rparr>)))"

abbreviation CLIENT_SURFACE_IDEMPOTENCY_CAPACITY :: usize where
  "CLIENT_SURFACE_IDEMPOTENCY_CAPACITY \<equiv> 4096"

abbreviation CLIENT_SURFACE_IDEMPOTENCY_TTL_MS :: u64 where
  "CLIENT_SURFACE_IDEMPOTENCY_TTL_MS \<equiv> 86400000"

text \<open>
  The outcome an idempotency key decides before the put runs: a replay answers at once, a full table rejects, and otherwise the
  put goes on. Expired outcomes are dropped first.
\<close>

definition idempotency_check :: "(string \<times> string) \<Rightarrow> u64 \<Rightarrow> client_surface \<Rightarrow> surface_result option \<times> client_surface" where
  "idempotency_check ikey now su =
     (let keys = bt_retain (\<lambda>_ expires. now < expires) (su_idempotency su);
          su = su\<lparr>su_idempotency := keys\<rparr>
      in
      if bt_get keys ikey \<noteq> None then (Some (Inr RespStored), su)
      else if CLIENT_SURFACE_IDEMPOTENCY_CAPACITY \<le> length keys then
        (Some (Inl \<lparr>err_code = RateLimited, err_retryable = True,
           err_retry_after_ms = Some (case min_by_key (\<lambda>d. d) (map (\<lambda>expires. max (sat_sub expires now) 1) (bt_values keys)) of
                                        Some d \<Rightarrow> d | None \<Rightarrow> 1)\<rparr>), su)
      else (None, su))"

definition handle_put :: "client_identity \<Rightarrow> string option \<Rightarrow> client_namespace \<Rightarrow> structured_key \<Rightarrow> bytes \<Rightarrow> u64 option \<Rightarrow> u64
    \<Rightarrow> client_surface \<Rightarrow> surface_result \<times> client_surface" where
  "handle_put ident idempotency_key ns key val ttl wall su =
     (if lim_max_value_bytes (su_limits su) < length val then (Inl (client_error_new TooLarge False), su)
      else case now_ms wall su of
        (now, su) \<Rightarrow>
          (case (case idempotency_key of
                   Some k \<Rightarrow> idempotency_check (ident_tenant ident, k) now su
                 | None \<Rightarrow> (None, su)) of
             (Some result, su) \<Rightarrow> (result, su)
           | (None, su) \<Rightarrow>
               (case admit_put ident ns key (length val) True
                       (insert_value (store_key_of (ident_tenant ident) ns key) (stored_value_new val now ttl)) su of
                  (Inl e, su) \<Rightarrow> (Inl e, su)
                | (Inr _, su) \<Rightarrow>
                    let su = (case idempotency_key of
                                Some k \<Rightarrow> su\<lparr>su_idempotency := bt_insert (ident_tenant ident, k)
                                            (sat_add now CLIENT_SURFACE_IDEMPOTENCY_TTL_MS) (su_idempotency su)\<rparr>
                              | None \<Rightarrow> su)
                    in (Inr RespStored, mutated ident ns (Some key) MutStored su))))"

section \<open>Expiry and conditional operations\<close>

text \<open>
  A handler that changes the live entry of a key under admission: \<open>update\<close> maps the live entry to whether it applies and to the
  entry that replaces it, \<open>None\<close> to remove it.
\<close>

definition update_live :: "client_identity \<Rightarrow> client_namespace \<Rightarrow> structured_key \<Rightarrow> u64 \<Rightarrow> (stored_value \<Rightarrow> bool \<times> stored_value option)
    \<Rightarrow> client_surface \<Rightarrow> bool \<times> client_surface" where
  "update_live ident ns key now update su =
     (let skey = store_key_of (ident_tenant ident) ns key in
      case live_entry skey now su of
        (None, expired, su) \<Rightarrow> (False, if expired then forget_entry ident ns key su else su)
      | (Some e, _, su) \<Rightarrow>
          (case update e of
             (applied, Some e') \<Rightarrow> (applied, su\<lparr>su_store := bt_insert skey e' (su_store su)\<rparr>)
           | (applied, None) \<Rightarrow> (applied, forget_entry ident ns key (su\<lparr>su_store := bt_remove skey (su_store su)\<rparr>))))"

definition handle_update :: "client_identity \<Rightarrow> client_namespace \<Rightarrow> structured_key \<Rightarrow> (u64 \<Rightarrow> stored_value \<Rightarrow> bool \<times> stored_value option)
    \<Rightarrow> mutation_kind \<Rightarrow> (bool \<Rightarrow> client_response) \<Rightarrow> u64 \<Rightarrow> client_surface \<Rightarrow> surface_result \<times> client_surface" where
  "handle_update ident ns key update kind response wall su =
     (case now_ms wall su of
        (now, su) \<Rightarrow>
          (case with_admitted_store ident (update_live ident ns key now (update now)) su of
             (Inl e, su) \<Rightarrow> (Inl e, su)
           | (Inr applied, su) \<Rightarrow> (Inr (response applied), if applied then mutated ident ns (Some key) kind su else su)))"

definition handle_expire :: "client_identity \<Rightarrow> client_namespace \<Rightarrow> structured_key \<Rightarrow> u64 \<Rightarrow> u64 \<Rightarrow> client_surface \<Rightarrow> surface_result \<times> client_surface" where
  "handle_expire ident ns key ttl wall su =
     handle_update ident ns key (\<lambda>now e. (True, Some (e\<lparr>sv_expires_at_ms := Some (sat_add now ttl)\<rparr>))) MutExpire RespExpiry wall su"

definition handle_persist :: "client_identity \<Rightarrow> client_namespace \<Rightarrow> structured_key \<Rightarrow> u64 \<Rightarrow> client_surface \<Rightarrow> surface_result \<times> client_surface" where
  "handle_persist ident ns key wall su =
     handle_update ident ns key (\<lambda>_ e. (sv_expires_at_ms e \<noteq> None, Some (e\<lparr>sv_expires_at_ms := None\<rparr>))) MutPersist RespExpiry wall su"

definition handle_compare_value_invalidate :: "client_identity \<Rightarrow> client_namespace \<Rightarrow> structured_key \<Rightarrow> bytes \<Rightarrow> u64 \<Rightarrow> client_surface
    \<Rightarrow> surface_result \<times> client_surface" where
  "handle_compare_value_invalidate ident ns key expected wall su =
     (if lim_max_value_bytes (su_limits su) < length expected then (Inl (client_error_new TooLarge False), su)
      else handle_update ident ns key (\<lambda>_ e. if sv_value e = expected then (True, None) else (False, Some e))
             MutRemoved RespCompareValueApplied wall su)"

definition extend_expiry :: "bytes \<Rightarrow> u64 \<Rightarrow> compare_value_expire_mode \<Rightarrow> u64 \<Rightarrow> stored_value \<Rightarrow> bool \<times> stored_value option" where
  "extend_expiry expected ttl mode now e =
     (if sv_value e = expected then
        (case (mode, sv_expires_at_ms e) of
           (Replace, _) \<Rightarrow> (True, Some (e\<lparr>sv_expires_at_ms := Some (sat_add now ttl)\<rparr>))
         | (ReplaceIfExpiring, Some _) \<Rightarrow> (True, Some (e\<lparr>sv_expires_at_ms := Some (sat_add now ttl)\<rparr>))
         | (AddToRemaining, Some expires) \<Rightarrow> (True, Some (e\<lparr>sv_expires_at_ms := Some (sat_add expires ttl)\<rparr>))
         | _ \<Rightarrow> (False, Some e))
      else (False, Some e))"

definition handle_compare_value_expire :: "client_identity \<Rightarrow> client_namespace \<Rightarrow> structured_key \<Rightarrow> bytes \<Rightarrow> u64 \<Rightarrow> compare_value_expire_mode
    \<Rightarrow> u64 \<Rightarrow> client_surface \<Rightarrow> surface_result \<times> client_surface" where
  "handle_compare_value_expire ident ns key expected ttl mode wall su =
     (if lim_max_value_bytes (su_limits su) < length expected then (Inl (client_error_new TooLarge False), su)
      else handle_update ident ns key (extend_expiry expected ttl mode) MutExpire RespCompareValueApplied wall su)"

definition handle_get_ttl :: "client_identity \<Rightarrow> client_namespace \<Rightarrow> structured_key \<Rightarrow> u64 \<Rightarrow> client_surface \<Rightarrow> surface_result \<times> client_surface" where
  "handle_get_ttl ident ns key wall su =
     (case now_ms wall su of
        (now, su) \<Rightarrow>
          (case with_admitted_store ident (\<lambda>su.
                  (case bt_get (su_store su) (store_key_of (ident_tenant ident) ns key) of
                     None \<Rightarrow> (TtlMissing, su)
                   | Some e \<Rightarrow>
                       let state = entry_ttl_state now e in
                       if state = TtlMissing
                       then (state, forget_entry ident ns key
                               (su\<lparr>su_store := bt_remove (store_key_of (ident_tenant ident) ns key) (su_store su)\<rparr>))
                       else (state, su))) su of
             (Inl e, su) \<Rightarrow> (Inl e, su)
           | (Inr state, su) \<Rightarrow> (Inr (RespTtl state), su)))"

definition handle_conditional_put :: "client_identity \<Rightarrow> client_namespace \<Rightarrow> structured_key \<Rightarrow> bytes \<Rightarrow> u64 option \<Rightarrow> conditional_put_condition
    \<Rightarrow> u64 \<Rightarrow> client_surface \<Rightarrow> surface_result \<times> client_surface" where
  "handle_conditional_put ident ns key val ttl condition wall su =
     (if lim_max_value_bytes (su_limits su) < length val then (Inl (client_error_new TooLarge False), su)
      else if (case condition of IfPresentValue expected \<Rightarrow> lim_max_value_bytes (su_limits su) < length expected | IfAbsent \<Rightarrow> False)
      then (Inl (client_error_new TooLarge False), su)
      else case now_ms wall su of
        (now, su) \<Rightarrow>
          let skey = store_key_of (ident_tenant ident) ns key in
          (case live_entry skey now su of
             (e, expired, su) \<Rightarrow>
               let holds = (case condition of
                              IfAbsent \<Rightarrow> e = None
                            | IfPresentValue expected \<Rightarrow> (case e of Some x \<Rightarrow> sv_value x = expected | None \<Rightarrow> False))
               in
               (case admit_put ident ns key (length val) holds (insert_value skey (stored_value_new val now ttl)) su of
                  (admitted, su) \<Rightarrow>
                    let su = (if expired \<and> admitted \<noteq> Inr True then forget_entry ident ns key su else su) in
                    (case admitted of
                       Inl e \<Rightarrow> (Inl e, su)
                     | Inr stored \<Rightarrow>
                         (Inr (RespConditionalStored stored), if stored then mutated ident ns (Some key) MutStored su else su)))))"

section \<open>Locks and compare-and-set\<close>

fun lock_consistency_level :: "lock_consistency \<Rightarrow> consistency_level" where
  "lock_consistency_level LockOne = One"
| "lock_consistency_level LockQuorum = Quorum"
| "lock_consistency_level LockEachQuorum = EachQuorum"
| "lock_consistency_level LockAll = AllReplicas"

definition lock_owner_of :: "client_identity \<Rightarrow> lock_owner" where
  "lock_owner_of ident = \<lparr>owner_session = ident_tenant ident @ '':'' @ ident_client_id ident, owner_endpoint = 0\<rparr>"

abbreviation not_leader :: client_error where
  "not_leader \<equiv> \<lparr>err_code = BackendUnavailable, err_retryable = True, err_retry_after_ms = Some 1\<rparr>"

definition apply_lock_command :: "(conditional_store \<Rightarrow> logical_time \<Rightarrow> (conditional_error + client_response) \<times> conditional_store)
    \<Rightarrow> client_lock_service \<Rightarrow> surface_result \<times> client_lock_service" where
  "apply_lock_command apply ls =
     (if ls_local_node_id ls \<noteq> ls_leader_node_id ls then (Inl not_leader, ls)
      else
        let now = sat_add (ls_logical_now_ms ls) 1;
            ls = ls\<lparr>ls_applied_commands := sat_add (ls_applied_commands ls) 1, ls_logical_now_ms := now\<rparr>
        in case apply (snd (expire_due now (ls_store ls))) now of
             (Inl _, cs) \<Rightarrow> (Inl (client_error_new Conflict False), ls\<lparr>ls_store := cs\<rparr>)
           | (Inr r, cs) \<Rightarrow> (Inr r, ls\<lparr>ls_store := cs\<rparr>))"

definition on_lock_service :: "(conditional_store \<Rightarrow> logical_time \<Rightarrow> (conditional_error + client_response) \<times> conditional_store)
    \<Rightarrow> client_surface \<Rightarrow> surface_result \<times> client_surface" where
  "on_lock_service apply su =
     (case apply_lock_command apply (su_lock_service su) of (r, ls) \<Rightarrow> (r, su\<lparr>su_lock_service := ls\<rparr>))"

definition handle_try_lock :: "client_identity \<Rightarrow> client_namespace \<Rightarrow> structured_key \<Rightarrow> u64 \<Rightarrow> lock_consistency \<Rightarrow> client_surface
    \<Rightarrow> surface_result \<times> client_surface" where
  "handle_try_lock ident ns key lease_ms level su =
     on_lock_service (\<lambda>cs now.
       (case try_acquire_lock (lock_key (ident_tenant ident) ns key) (lock_consistency_level level) (lock_owner_of ident)
               (max lease_ms 1) now cs of
          (Inl e, cs) \<Rightarrow> (Inl e, cs)
        | (Inr (Some fence), cs) \<Rightarrow> (Inr (RespLockAcquired fence), cs)
        | (Inr None, cs) \<Rightarrow> (Inr RespLockBusy, cs))) su"

definition handle_unlock :: "client_identity \<Rightarrow> client_namespace \<Rightarrow> structured_key \<Rightarrow> u64 \<Rightarrow> client_surface \<Rightarrow> surface_result \<times> client_surface" where
  "handle_unlock ident ns key fence su =
     on_lock_service (\<lambda>cs _.
       (case release_lock (lock_key (ident_tenant ident) ns key) (lock_owner_of ident) fence cs of
          (Inl e, cs) \<Rightarrow> (Inl e, cs)
        | (Inr _, cs) \<Rightarrow> (Inr RespLockReleased, cs))) su"

definition handle_renew_lock :: "client_identity \<Rightarrow> client_namespace \<Rightarrow> structured_key \<Rightarrow> u64 \<Rightarrow> u64 \<Rightarrow> client_surface
    \<Rightarrow> surface_result \<times> client_surface" where
  "handle_renew_lock ident ns key fence lease_ms su =
     on_lock_service (\<lambda>cs now.
       (case renew_lease (lock_key (ident_tenant ident) ns key) (lock_owner_of ident) fence (sat_add now (max lease_ms 1)) cs of
          (Inl e, cs) \<Rightarrow> (Inl e, cs)
        | (Inr _, cs) \<Rightarrow> (Inr RespLockLeaseRenewed, cs))) su"

definition handle_force_unlock :: "client_identity \<Rightarrow> string \<Rightarrow> client_namespace \<Rightarrow> structured_key \<Rightarrow> client_surface
    \<Rightarrow> surface_result \<times> client_surface" where
  "handle_force_unlock ident rid ns key su =
     (if \<not> ident_admin ident
      then (Inl (client_error_new Unauthorized False),
            snd (record_audit (AuthFailure (Some (ident_tenant ident)) CLIENT_DATA_PATH (Some rid)) su))
      else case record_audit (PolicyChanged ns 1 ''force_unlock'') su of
        (Inl e, su) \<Rightarrow> (Inl e, su)
      | (Inr _, su) \<Rightarrow>
          on_lock_service (\<lambda>cs _. (Inr RespLockReleased, snd (force_unlock (lock_key (ident_tenant ident) ns key) cs))) su)"

definition handle_lock_ownership :: "client_identity \<Rightarrow> client_namespace \<Rightarrow> structured_key \<Rightarrow> client_surface \<Rightarrow> surface_result \<times> client_surface" where
  "handle_lock_ownership ident ns key su =
     (let ls = su_lock_service su in
      if ls_local_node_id ls \<noteq> ls_leader_node_id ls then (Inl not_leader, su)
      else
        let cs = snd (expire_due (ls_logical_now_ms ls) (ls_store ls));
            fence = current_fence (lock_key (ident_tenant ident) ns key) cs
        in (Inr (RespLockOwnership fence (fence \<noteq> None)), su\<lparr>su_lock_service := ls\<lparr>ls_store := cs\<rparr>\<rparr>))"

fun cas_response :: "cas_result \<Rightarrow> client_response" where
  "cas_response (CasApplied version) = RespCasApplied version"
| "cas_response (CasMismatch current) = RespCasMismatch current"

definition sync_conditional_record :: "string \<Rightarrow> bytes option \<Rightarrow> conditional_store \<Rightarrow> (conditional_error + unit) \<times> conditional_store" where
  "sync_conditional_record key live cs =
     (let current = current_value key cs in
      if current = live then (Inr (), cs)
      else case live of
        Some val \<Rightarrow> (case compare_and_set key current val Quorum cs of (Inl e, cs) \<Rightarrow> (Inl e, cs) | (Inr _, cs) \<Rightarrow> (Inr (), cs))
      | None \<Rightarrow>
          (case current of
             Some c \<Rightarrow> (case remove_if_value key c Quorum cs of (Inl e, cs) \<Rightarrow> (Inl e, cs) | (Inr _, cs) \<Rightarrow> (Inr (), cs))
           | None \<Rightarrow> (Inr (), cs)))"

text \<open>A conditional command on the record of a key, after the record was brought up to the live value.\<close>

definition synced_command :: "string \<Rightarrow> bytes option \<Rightarrow> (conditional_store \<Rightarrow> (conditional_error + cas_result) \<times> conditional_store)
    \<Rightarrow> client_surface \<Rightarrow> surface_result \<times> client_surface" where
  "synced_command key live command su =
     on_lock_service (\<lambda>cs _.
       (case sync_conditional_record key live cs of
          (Inl e, cs) \<Rightarrow> (Inl e, cs)
        | (Inr _, cs) \<Rightarrow> (case command cs of (Inl e, cs) \<Rightarrow> (Inl e, cs) | (Inr r, cs) \<Rightarrow> (Inr (cas_response r), cs)))) su"

definition apply_compare_and_set :: "string \<Rightarrow> bytes option \<Rightarrow> cas_expectation \<Rightarrow> bytes \<Rightarrow> consistency_level \<Rightarrow> client_surface
    \<Rightarrow> surface_result \<times> client_surface" where
  "apply_compare_and_set key live expected new_value level su =
     synced_command key live (case expected of
       Exact expected \<Rightarrow> compare_and_set key (Some expected) new_value level
     | Present \<Rightarrow> replace_if_present key new_value level) su"

definition cas_applied :: "surface_result \<Rightarrow> bool" where
  "cas_applied r = (case r of Inr (RespCasApplied _) \<Rightarrow> True | _ \<Rightarrow> False)"

text \<open>The compare-and-set with the store update that follows it; also the commit callback of an admitted one.\<close>

definition cas_commit :: "client_identity \<Rightarrow> client_namespace \<Rightarrow> structured_key \<Rightarrow> bytes option \<Rightarrow> cas_expectation \<Rightarrow> bytes \<Rightarrow> lock_consistency
    \<Rightarrow> client_surface \<Rightarrow> surface_result \<times> client_surface" where
  "cas_commit ident ns key live expected new_value level su =
     (case apply_compare_and_set (lock_key (ident_tenant ident) ns key) live expected new_value (lock_consistency_level level) su of
        (r, su) \<Rightarrow>
          (r, if cas_applied r
              then su\<lparr>su_store := bt_insert (store_key_of (ident_tenant ident) ns key) (stored_value_new new_value 0 None) (su_store su)\<rparr>
              else su))"

definition handle_compare_and_set :: "client_identity \<Rightarrow> client_namespace \<Rightarrow> structured_key \<Rightarrow> cas_expectation \<Rightarrow> bytes \<Rightarrow> lock_consistency
    \<Rightarrow> u64 \<Rightarrow> client_surface \<Rightarrow> surface_result \<times> client_surface" where
  "handle_compare_and_set ident ns key expected new_value level wall su =
     (if lim_max_value_bytes (su_limits su) < length new_value then (Inl (client_error_new TooLarge False), su)
      else case now_ms wall su of
        (now, su) \<Rightarrow>
          (case live_entry (store_key_of (ident_tenant ident) ns key) now su of
             (e, expired, su) \<Rightarrow>
               let live = map_option sv_value e;
                   holds = (case expected of Exact x \<Rightarrow> live = Some x | Present \<Rightarrow> live \<noteq> None);
                   (result, su) =
                     (case su_isolation su of
                        None \<Rightarrow> cas_commit ident ns key live expected new_value level su
                      | Some isol \<Rightarrow>
                          (case admit_put_if_committed (ident_client_id ident) ns (stable_key key) (of_nat (length new_value)) holds
                                  (\<lambda>(su, _). (case cas_commit ident ns key live expected new_value level su of
                                                (r, su) \<Rightarrow> (cas_applied r, su, Some r)))
                                  isol (su, None) of
                             (admitted, isol, su, command_result) \<Rightarrow>
                               let su = su\<lparr>su_isolation := Some isol\<rparr>;
                                   su = (if expired \<and> admitted \<noteq> Inr True then forget_entry ident ns key su else su)
                               in (case admitted of
                                     Inl e \<Rightarrow> (Inl (admission_error e), su)
                                   | Inr _ \<Rightarrow>
                                       (case command_result of
                                          Some r \<Rightarrow> (r, su)
                                        | None \<Rightarrow> apply_compare_and_set (lock_key (ident_tenant ident) ns key) live expected new_value
                                                    (lock_consistency_level level) su))))
               in (result, if cas_applied result then mutated ident ns (Some key) MutStored su else su)))"

definition handle_remove_if_value :: "client_identity \<Rightarrow> client_namespace \<Rightarrow> structured_key \<Rightarrow> bytes \<Rightarrow> lock_consistency
    \<Rightarrow> u64 \<Rightarrow> client_surface \<Rightarrow> surface_result \<times> client_surface" where
  "handle_remove_if_value ident ns key expected level wall su =
     (case now_ms wall su of
        (now, su) \<Rightarrow>
          let skey = store_key_of (ident_tenant ident) ns key; ckey = lock_key (ident_tenant ident) ns key in
          (case with_admitted_store ident (\<lambda>su.
                  (case live_entry skey now su of
                     (e, expired, su) \<Rightarrow>
                       (case synced_command ckey (map_option sv_value e) (remove_if_value ckey expected (lock_consistency_level level)) su of
                          (r, su) \<Rightarrow>
                            let su = (if cas_applied r then su\<lparr>su_store := bt_remove skey (su_store su)\<rparr> else su)
                            in (r, if cas_applied r \<or> expired then forget_entry ident ns key su else su)))) su of
             (Inl e, su) \<Rightarrow> (Inl e, su)
           | (Inr result, su) \<Rightarrow> (result, if cas_applied result then mutated ident ns (Some key) MutRemoved su else su)))"

section \<open>Dispatch\<close>

definition handle_evict_region :: "client_identity \<Rightarrow> client_namespace \<Rightarrow> client_surface \<Rightarrow> surface_result \<times> client_surface" where
  "handle_evict_region ident ns su =
     (let evict = (\<lambda>su. su\<lparr>su_store := bt_retain (\<lambda>(t, n, _) _. t \<noteq> ident_tenant ident \<or> n \<noteq> ns) (su_store su)\<rparr>) in
      case (case su_isolation su of
              Some isol \<Rightarrow>
                (case evict_namespace (ident_client_id ident) ns isol of
                   (Inl e, isol) \<Rightarrow> (Inl (admission_error e), su\<lparr>su_isolation := Some isol\<rparr>)
                 | (Inr _, isol) \<Rightarrow> (Inr (), evict (su\<lparr>su_isolation := Some isol\<rparr>)))
            | None \<Rightarrow> (Inr (), evict su)) of
        (Inl e, su) \<Rightarrow> (Inl e, su)
      | (Inr _, su) \<Rightarrow> (Inr RespEvicted, mutated ident ns None MutNamespaceEvicted su))"

definition handle_subscribe :: "client_identity \<Rightarrow> client_watermark option \<Rightarrow> client_surface \<Rightarrow> surface_result \<times> client_surface" where
  "handle_subscribe ident from_mark su =
     (case su_isolation su of
        Some isol \<Rightarrow>
          (case begin_subscription (ident_client_id ident) isol of
             (Inl e, isol) \<Rightarrow> (Inl (admission_error e), su\<lparr>su_isolation := Some isol\<rparr>)
           | (Inr _, isol) \<Rightarrow> (Inr (RespSubscribed from_mark), su\<lparr>su_isolation := Some isol\<rparr>))
      | None \<Rightarrow> (Inr (RespSubscribed from_mark), su))"

fun handle_operation :: "client_identity \<Rightarrow> string \<Rightarrow> string option \<Rightarrow> u64 \<Rightarrow> client_request \<Rightarrow> client_surface
    \<Rightarrow> surface_result \<times> client_surface" where
  "handle_operation ident rid ikey wall (Get ns key) su =
     (case now_ms wall su of
        (now, su) \<Rightarrow>
          (case with_admitted_store ident (read_entry ident ns key now) su of
             (Inl e, su) \<Rightarrow> (Inl e, su)
           | (Inr val, su) \<Rightarrow> (Inr (RespValue val), su)))"
| "handle_operation ident rid ikey wall (Put ns key val ttl _) su = handle_put ident ikey ns key val ttl wall su"
| "handle_operation ident rid ikey wall (Invalidate ns key) su =
     (let skey = store_key_of (ident_tenant ident) ns key in
      case with_admitted_store ident (\<lambda>su.
              if bt_get (su_store su) skey \<noteq> None
              then ((), forget_entry ident ns key (su\<lparr>su_store := bt_remove skey (su_store su)\<rparr>))
              else ((), su)) su of
         (Inl e, su) \<Rightarrow> (Inl e, su)
       | (Inr _, su) \<Rightarrow> (Inr RespInvalidated, mutated ident ns (Some key) MutInvalidated su))"
| "handle_operation ident rid ikey wall (BatchGet ns keys) su = handle_batch_get ident ns keys wall su"
| "handle_operation ident rid ikey wall (BatchPut ns entries) su = handle_batch_put ident ns entries su"
| "handle_operation ident rid ikey wall (Expire ns key ttl) su = handle_expire ident ns key ttl wall su"
| "handle_operation ident rid ikey wall (Persist ns key) su = handle_persist ident ns key wall su"
| "handle_operation ident rid ikey wall (GetTtl ns key) su = handle_get_ttl ident ns key wall su"
| "handle_operation ident rid ikey wall (ConditionalPut ns key val ttl condition) su =
     handle_conditional_put ident ns key val ttl condition wall su"
| "handle_operation ident rid ikey wall (CompareValueAndInvalidate ns key expected) su =
     handle_compare_value_invalidate ident ns key expected wall su"
| "handle_operation ident rid ikey wall (CompareValueAndExpire ns key expected ttl mode) su =
     handle_compare_value_expire ident ns key expected ttl mode wall su"
| "handle_operation ident rid ikey wall (EvictRegion ns) su = handle_evict_region ident ns su"
| "handle_operation ident rid ikey wall (SubscribeInvalidations _ _ from_mark _) su = handle_subscribe ident from_mark su"
| "handle_operation ident rid ikey wall (SubscribeEntryEvents _ _ from_mark _ _) su = handle_subscribe ident from_mark su"
| "handle_operation ident rid ikey wall (TryLock ns key lease_ms _ level) su = handle_try_lock ident ns key lease_ms level su"
| "handle_operation ident rid ikey wall (Unlock ns key fence) su = handle_unlock ident ns key fence su"
| "handle_operation ident rid ikey wall (RenewLockLease ns key fence lease_ms) su = handle_renew_lock ident ns key fence lease_ms su"
| "handle_operation ident rid ikey wall (ForceUnlock ns key) su = handle_force_unlock ident rid ns key su"
| "handle_operation ident rid ikey wall (GetLockOwnership ns key) su = handle_lock_ownership ident ns key su"
| "handle_operation ident rid ikey wall (CompareAndSet ns key expected new_value level) su =
     handle_compare_and_set ident ns key expected new_value level wall su"
| "handle_operation ident rid ikey wall (RemoveIfValue ns key expected level) su =
     handle_remove_if_value ident ns key expected level wall su"

fun is_force_unlock :: "client_request \<Rightarrow> bool" where
  "is_force_unlock (ForceUnlock _ _) = True"
| "is_force_unlock _ = False"

text \<open>One request with the clock readings of its sweep and of its handler.\<close>

definition handle_request :: "client_identity \<Rightarrow> request_envelope \<Rightarrow> u64 \<times> u64 \<Rightarrow> client_surface \<Rightarrow> response_envelope \<times> client_surface" where
  "handle_request ident env wall su =
     (let version = (if protocol_version_supported (req_protocol_version env) then req_protocol_version env else PROTOCOL_VERSION);
          respond = (\<lambda>r. \<lparr>resp_id = req_id env, resp_protocol_version = version, resp_result = r\<rparr>)
      in
      case validate_protocol env of
        Inl e \<Rightarrow> (respond (Inl e), su)
      | Inr _ \<Rightarrow>
          if deadline_expired 0 env
          then (respond (Inl \<lparr>err_code = DeadlineExceeded, err_retryable = True, err_retry_after_ms = Some 1\<rparr>), su)
          else
            let (now, su) = now_ms (fst wall) su;
                su = snd (sweep_expired_entries now False su);
                (result, su) = handle_operation ident (req_id env) (req_idempotency_key env) (snd wall) (req_request env) su
            in (respond result,
                record_rejection_audit ident (request_namespace (req_request env)) (req_id env) result
                  (\<not> is_force_unlock (req_request env)) su))"

definition dispatch_verified_request :: "client_identity \<Rightarrow> request_envelope \<Rightarrow> u64 \<times> u64 \<Rightarrow> client_surface
    \<Rightarrow> response_envelope \<times> client_surface" where
  "dispatch_verified_request ident env wall su =
     (case validate_tenant_identity ident CLIENT_DATA_PATH (Some (req_id env)) su of
        (False, su) \<Rightarrow>
          (\<lparr>resp_id = req_id env,
            resp_protocol_version = (if protocol_version_supported (req_protocol_version env) then req_protocol_version env else PROTOCOL_VERSION),
            resp_result = Inl (client_error_new Unauthorized False)\<rparr>, su)
      | (True, su) \<Rightarrow> handle_request ident env wall (su\<lparr>su_dispatch_attempts := su_dispatch_attempts su + 1\<rparr>))"

definition subscribe_mutations :: "client_identity \<Rightarrow> client_surface \<Rightarrow> bool \<times> client_surface" where
  "subscribe_mutations ident su =
     (case validate_tenant_identity ident ''/client/v1/subscriptions'' None su of
        (False, su) \<Rightarrow> (False, su)
      | (True, su) \<Rightarrow> (True, su\<lparr>su_receivers := su_receivers su + 1\<rparr>))"

definition reap_expired_entries :: "u64 \<Rightarrow> client_surface \<Rightarrow> usize \<times> client_surface" where
  "reap_expired_entries wall su = (case now_ms wall su of (now, su) \<Rightarrow> sweep_expired_entries now False su)"

record surface_retained_state =
  sr_store_entries :: usize
  sr_value_bytes :: usize
  sr_store_identity_bytes :: usize
  sr_idempotency_outcomes :: usize
  sr_idempotency_identity_bytes :: usize
  sr_audit_events :: usize
  sr_conditional :: conditional_retained_state

definition retained_state_locked :: "client_surface \<Rightarrow> surface_retained_state" where
  "retained_state_locked su =
     \<lparr>sr_store_entries = length (su_store su),
      sr_value_bytes = sum_list (map (\<lambda>(_, e). length (sv_value e)) (su_store su)),
      sr_store_identity_bytes = sum_list (map (\<lambda>((t, ns, k), _). length t + length ns + length k) (su_store su)),
      sr_idempotency_outcomes = length (su_idempotency su),
      sr_idempotency_identity_bytes = sum_list (map (\<lambda>((t, k), _). length t + length k) (su_idempotency su)),
      sr_audit_events = length (au_events (su_audit su)),
      sr_conditional = retained_state (ls_store (su_lock_service su))\<rparr>"

definition retained_state_for_diagnostics :: "u64 \<Rightarrow> client_surface \<Rightarrow> surface_retained_state \<times> client_surface" where
  "retained_state_for_diagnostics wall su =
     (case now_ms wall su of
        (now, su) \<Rightarrow> let su = snd (sweep_expired_entries now True su) in (retained_state_locked su, su))"

definition reset_retained_state :: "client_surface \<Rightarrow> (surface_error + surface_retained_state \<times> surface_retained_state) \<times> client_surface" where
  "reset_retained_state su =
     (if su_isolation su \<noteq> None then (Inl DiagnosticResetUnavailable, su)
      else
        let before = retained_state_locked su;
            su = su\<lparr>su_idempotency := bt_empty, su_store := bt_empty,
                    su_lock_service := (su_lock_service su)\<lparr>ls_store := snd (clear_for_diagnostic_reset (ls_store (su_lock_service su)))\<rparr>\<rparr>
        in (Inr (before, retained_state_locked su), su))"

end
