(* ===== verification/Client_Surface_Props.thy ===== *)
theory Client_Surface_Props
  imports Client_Surface Conditional_Props
begin

text \<open>
  Properties of the client surface: the quota ledger agrees with the value store after every request, a request changes only
  the entries of its own tenant, and what a request may touch.
\<close>

section \<open>The part of the state that quotas speak of\<close>

definition core :: "client_surface \<Rightarrow> surface_limits \<times> (store_key, stored_value) btmap \<times> consumer_isolation option" where
  "core su = (su_limits su, su_store su, su_isolation su)"

lemma core_update [simp]:
  "core (su\<lparr>su_dispatch_attempts := a\<rparr>) = core su" "core (su\<lparr>su_state_mutations := a\<rparr>) = core su"
  "core (su\<lparr>su_next_message_id := a\<rparr>) = core su" "core (su\<lparr>su_receivers := n\<rparr>) = core su" "core (su\<lparr>su_published := p\<rparr>) = core su"
  "core (su\<lparr>su_test_clock := c\<rparr>) = core su" "core (su\<lparr>su_time_floor := a\<rparr>) = core su" "core (su\<lparr>su_next_sweep := a\<rparr>) = core su"
  "core (su\<lparr>su_cursor := k\<rparr>) = core su" "core (su\<lparr>su_idempotency := i\<rparr>) = core su" "core (su\<lparr>su_lock_service := l\<rparr>) = core su"
  "core (su\<lparr>su_audit := u\<rparr>) = core su"
  by (simp_all add: core_def)

lemma core_record_mutation [simp]: "core (record_mutation ident ns key kind su) = core su"
  by (simp add: record_mutation_def)

lemma core_mutated_if: "core (if b then mutated ident ns key kind su else su) = core su"
  by simp

lemma core_record_audit [simp]: "core (snd (record_audit e su)) = core su"
  by (simp add: record_audit_def Let_def)

lemma core_rejection_audit [simp]: "core (record_rejection_audit ident ns rid r b su) = core su"
  by (simp add: record_rejection_audit_def split: sum.split)

lemma core_now [simp]: "core (snd (now_ms wall su)) = core su"
  by (simp add: now_ms_def Let_def)

lemma core_lock_service [simp]: "core (snd (on_lock_service f su)) = core su"
  by (simp add: on_lock_service_def split: prod.split)

lemma core_synced [simp]: "core (snd (synced_command key live f su)) = core su"
  by (simp add: synced_command_def)

lemma core_apply_cas [simp]: "core (snd (apply_compare_and_set key live e v level su)) = core su"
  by (simp add: apply_compare_and_set_def)

lemma core_idempotency [simp]: "core (snd (idempotency_check k now su)) = core su"
  by (simp add: idempotency_check_def Let_def)

section \<open>The ledger and the store\<close>

definition entry_size :: "stored_value \<Rightarrow> u64" where
  "entry_size e = of_nat (length (sv_value e))"

text \<open>
  The ledger has the size of every stored entry and no other entry, save for keys of \<open>K\<close>, which are not in the store: a handler
  removes an expired entry from the store before it forgets it in the ledger.
\<close>

definition ledger_matches :: "store_key set \<Rightarrow> (store_key, stored_value) btmap \<Rightarrow> consumer_isolation \<Rightarrow> bool" where
  "ledger_matches K store isol \<longleftrightarrow>
     ledger_ok isol \<and> quotas_bounded isol
     \<and> (\<forall>k. k \<notin> K \<longrightarrow> bt_get (iso_entries isol) k = map_option entry_size (bt_get store k))"

definition surface_ok :: "store_key set \<Rightarrow> client_surface \<Rightarrow> bool" where
  "surface_ok K su \<longleftrightarrow>
     bt_ok (su_store su) \<and> (\<forall>k \<in> K. bt_get (su_store su) k = None)
     \<and> (\<forall>k e. bt_get (su_store su) k = Some e \<longrightarrow> length (sv_value e) \<le> lim_max_value_bytes (su_limits su))
     \<and> (\<forall>isol. su_isolation su = Some isol \<longrightarrow> ledger_matches K (su_store su) isol)"

definition authorized :: "client_identity \<Rightarrow> client_surface \<Rightarrow> bool" where
  "authorized ident su \<longleftrightarrow> (\<forall>isol. su_isolation su = Some isol \<longrightarrow> resolve_tenant (ident_client_id ident) isol = Inr (ident_tenant ident))"

definition confined :: "client_identity \<Rightarrow> client_surface \<Rightarrow> client_surface \<Rightarrow> bool" where
  "confined ident su su' \<longleftrightarrow>
     su_limits su' = su_limits su \<and> rel_option same_config (su_isolation su) (su_isolation su')
     \<and> (\<forall>k. fst k \<noteq> ident_tenant ident \<longrightarrow> bt_get (su_store su') k = bt_get (su_store su) k)"

lemma core_eqD: "core su' = core su \<Longrightarrow> su_limits su' = su_limits su \<and> su_store su' = su_store su \<and> su_isolation su' = su_isolation su"
  by (simp add: core_def)

lemma surface_ok_core: "core su' = core su \<Longrightarrow> surface_ok K su' \<longleftrightarrow> surface_ok K su"
  by (auto dest!: core_eqD simp: surface_ok_def)

lemma authorized_core: "core su' = core su \<Longrightarrow> authorized ident su' \<longleftrightarrow> authorized ident su"
  by (auto dest!: core_eqD simp: authorized_def)

lemma confined_refl [simp]: "confined ident su su"
  by (auto simp: confined_def option.rel_refl)

lemma confined_core: "core su' = core su \<Longrightarrow> confined ident su su'"
  using confined_refl [of ident su] unfolding confined_def by (auto dest!: core_eqD)

lemma rel_config_trans:
  "rel_option same_config a b \<Longrightarrow> rel_option same_config b c \<Longrightarrow> rel_option same_config a c"
  by (cases a; cases b; cases c) (auto intro: same_config_trans)

lemma confined_trans: "confined ident su su' \<Longrightarrow> confined ident su' su'' \<Longrightarrow> confined ident su su''"
  by (auto simp: confined_def intro: rel_config_trans)

lemma authorized_confined: "confined ident su su' \<Longrightarrow> authorized ident su \<Longrightarrow> authorized ident su'"
  by (auto simp: confined_def authorized_def same_config_keeps(3) option_rel_Some2)

text \<open>A step from the states with drift \<open>K\<close> to those with drift \<open>K'\<close>.\<close>

definition safe_step :: "client_identity \<Rightarrow> store_key set \<Rightarrow> client_surface \<Rightarrow> store_key set \<Rightarrow> client_surface \<Rightarrow> bool" where
  "safe_step ident K su K' su' \<longleftrightarrow>
     (surface_ok K su \<and> authorized ident su \<longrightarrow> surface_ok K' su' \<and> confined ident su su')"

lemma safe_step_core: "core su' = core su \<Longrightarrow> safe_step ident K su K su'"
  unfolding safe_step_def using surface_ok_core confined_core by blast

lemma safe_step_trans: "safe_step ident K su K' su' \<Longrightarrow> safe_step ident K' su' K'' su'' \<Longrightarrow> safe_step ident K su K'' su''"
  unfolding safe_step_def by (blast intro: confined_trans authorized_confined)

lemma safe_step_after_core: "core su'' = core su' \<Longrightarrow> safe_step ident K su K' su' \<Longrightarrow> safe_step ident K su K' su''"
  by (blast intro: safe_step_trans safe_step_core)

lemma safe_step_before_core: "core su' = core su \<Longrightarrow> safe_step ident K su' K' su'' \<Longrightarrow> safe_step ident K su K' su''"
  by (blast intro: safe_step_trans safe_step_core)

section \<open>Primitive steps\<close>

lemma fst_store_key [simp]: "fst (store_key_of t ns key) = t"
  by (simp add: store_key_of_def)

lemma ledger_matches_remove: "ledger_matches K store isol \<Longrightarrow> bt_ok store \<Longrightarrow> ledger_matches (insert k K) (bt_remove k store) isol"
  by (auto simp: ledger_matches_def)

lemma store_remove_step:
  assumes "fst skey = ident_tenant ident"
  shows "safe_step ident K su (insert skey K) (su\<lparr>su_store := bt_remove skey (su_store su)\<rparr>)"
  using assms by (auto simp: safe_step_def surface_ok_def confined_def option.rel_refl intro!: ledger_matches_remove)

lemma live_entry_step:
  assumes "live_entry skey now su = (e, expired, su')" "fst skey = ident_tenant ident"
  shows "safe_step ident K su (if expired then insert skey K else K) su'"
    and "expired \<Longrightarrow> bt_get (su_store su') skey = None"
    and "su_limits su' = su_limits su"
  using assms store_remove_step [OF assms(2), of K su]
  by (auto simp: live_entry_def intro: safe_step_core split: option.splits if_splits)

lemma forget_step:
  assumes none: "bt_get (su_store su) (store_key_of (ident_tenant ident) ns key) = None"
  shows "safe_step ident K su (K - {store_key_of (ident_tenant ident) ns key}) (forget_entry ident ns key su)"
proof (cases "su_isolation su")
  case None
  then show ?thesis by (auto simp: safe_step_def forget_entry_def surface_ok_def)
next
  case (Some isol)
  let ?skey = "store_key_of (ident_tenant ident) ns key" and ?i' = "snd (remove_entry (ident_client_id ident) ns (stable_key key) isol)"
  show ?thesis
    unfolding safe_step_def
  proof (intro impI, elim conjE)
    assume ok: "surface_ok K su" and auth: "authorized ident su"
    have m: "ledger_matches K (su_store su) isol" and res: "resolve_tenant (ident_client_id ident) isol = Inr (ident_tenant ident)"
      using ok auth Some by (auto simp: surface_ok_def authorized_def)
    then have ledger: "ledger_ok isol" by (simp add: ledger_matches_def)
    have "ledger_matches (K - {?skey}) (su_store su) ?i'"
      using m none remove_entry_ledger [OF ledger] same_config_keeps(1) [OF remove_entry_config [of isol]]
        remove_entry_entries [OF ledger res]
      by (auto simp: ledger_matches_def store_key_of_def)
    then show "surface_ok (K - {?skey}) (forget_entry ident ns key su) \<and> confined ident su (forget_entry ident ns key su)"
      using ok Some remove_entry_config by (auto simp: forget_entry_def surface_ok_def confined_def)
  qed
qed

lemma forget_entry_sel [simp]:
  "su_store (forget_entry ident ns key su) = su_store su" "su_limits (forget_entry ident ns key su) = su_limits su"
  by (simp_all add: forget_entry_def split: option.split)

text \<open>An entry removed from the store and forgotten in the ledger.\<close>

lemma remove_forget_step:
  "safe_step ident {} su {} (forget_entry ident ns key
     (su\<lparr>su_store := bt_remove (store_key_of (ident_tenant ident) ns key) (su_store su)\<rparr>))"
proof -
  let ?skey = "store_key_of (ident_tenant ident) ns key" and ?su = "su\<lparr>su_store := bt_remove (store_key_of (ident_tenant ident) ns key) (su_store su)\<rparr>"
  have "safe_step ident {} su {?skey} ?su" by (rule store_remove_step) simp
  moreover have "safe_step ident {?skey} ?su {} (forget_entry ident ns key ?su)"
    using forget_step [of ?su ident ns key "{?skey}"] by simp
  ultimately show ?thesis by (rule safe_step_trans)
qed

lemma with_admitted_step:
  assumes apply_step: "\<And>su. safe_step ident K su K (snd (apply su))"
  shows "safe_step ident K su K (snd (with_admitted_store ident apply su))"
proof (cases "su_isolation su")
  case None
  with apply_step [of su] show ?thesis by (simp add: with_admitted_store_def split: prod.splits)
next
  case (Some isol)
  obtain r i' where adm: "admit_request (ident_client_id ident) isol = (r, i')" by (cases "admit_request (ident_client_id ident) isol")
  note same = admit_request_same [OF adm]
  have "ledger_matches K (su_store su) i'" if "ledger_matches K (su_store su) isol"
    using that same_ledger_keeps(1,2) [OF same] same by (simp add: ledger_matches_def same_ledger_def)
  then have "safe_step ident K su K (su\<lparr>su_isolation := Some i'\<rparr>)"
    using Some same_ledger_config [OF same] by (auto simp: safe_step_def surface_ok_def confined_def)
  moreover have "safe_step ident K (su\<lparr>su_isolation := Some i'\<rparr>) K (snd (apply (su\<lparr>su_isolation := Some i'\<rparr>)))"
    by (rule apply_step)
  ultimately show ?thesis
    using Some adm by (cases r) (auto simp: with_admitted_store_def intro: safe_step_trans split: prod.splits)
qed

text \<open>
  A commit callback, seen through a projection to the surface: on success it has inserted a value of the admitted size, on
  failure it has left the store alone.
\<close>

definition commits :: "('s \<Rightarrow> client_surface) \<Rightarrow> store_key \<Rightarrow> nat \<Rightarrow> ('s \<Rightarrow> bool \<times> 's) \<Rightarrow> 's \<Rightarrow> bool" where
  "commits proj skey n commit s \<longleftrightarrow> (case commit s of (ok, s') \<Rightarrow>
     su_limits (proj s') = su_limits (proj s) \<and> su_isolation (proj s') = su_isolation (proj s)
     \<and> (if ok then \<exists>e. length (sv_value e) = n \<and> su_store (proj s') = bt_insert skey e (su_store (proj s))
        else su_store (proj s') = su_store (proj s)))"

lemma surface_ok_insert:
  assumes "surface_ok K su" "length (sv_value e) \<le> lim_max_value_bytes (su_limits su)"
    and "\<And>isol. i' = Some isol \<Longrightarrow> ledger_ok isol \<and> quotas_bounded isol
      \<and> (\<exists>i. su_isolation su = Some i \<and> bt_get (iso_entries isol) = (bt_get (iso_entries i))(skey \<mapsto> entry_size e))"
  shows "surface_ok (K - {skey}) (su\<lparr>su_store := bt_insert skey e (su_store su), su_isolation := i'\<rparr>)"
  using assms by (auto simp: surface_ok_def ledger_matches_def)

lemma admit_put_step:
  assumes adm: "admit_put_if_committed (ident_client_id ident) ns (stable_key key) (of_nat n) cond commit isol s = (r, isol', s')"
    and isol: "su_isolation (proj s) = Some isol"
    and commits: "cond \<Longrightarrow> commits proj (store_key_of (ident_tenant ident) ns key) n commit s"
    and n: "n \<le> lim_max_value_bytes (su_limits (proj s))"
  shows "safe_step ident K (proj s) (if r = Inr True then K - {store_key_of (ident_tenant ident) ns key} else K)
    ((proj s')\<lparr>su_isolation := Some isol'\<rparr>)"
  unfolding safe_step_def
proof (intro impI, elim conjE)
  let ?skey = "store_key_of (ident_tenant ident) ns key"
  assume ok: "surface_ok K (proj s)" and auth: "authorized ident (proj s)"
  have m: "ledger_matches K (su_store (proj s)) isol" and res: "resolve_tenant (ident_client_id ident) isol = Inr (ident_tenant ident)"
    using ok auth isol by (auto simp: surface_ok_def authorized_def)
  have ledger: "ledger_ok isol" "quotas_bounded isol" using m by (simp_all add: ledger_matches_def)
  have ledger': "ledger_ok isol'" by (rule admit_put_ledger [OF ledger adm])
  have config: "same_config isol isol'" by (rule admit_put_config [OF adm])
  have bounded': "quotas_bounded isol'" using ledger(2) same_config_keeps(1) [OF config] by simp
  show "surface_ok (if r = Inr True then K - {?skey} else K) ((proj s')\<lparr>su_isolation := Some isol'\<rparr>)
      \<and> confined ident (proj s) ((proj s')\<lparr>su_isolation := Some isol'\<rparr>)"
  proof (cases "r = Inr True")
    case True
    with admit_put_cases [OF adm] res have cond and commit: "commit s = (True, s')"
      and entries: "iso_entries isol' = bt_insert (ident_tenant ident, ns, stable_key key) (of_nat n) (iso_entries isol)"
      by auto
    from commits [OF \<open>cond\<close>] commit obtain e where e: "length (sv_value e) = n" "su_store (proj s') = bt_insert ?skey e (su_store (proj s))"
      and lim: "su_limits (proj s') = su_limits (proj s)"
      by (auto simp: commits_def)
    have "surface_ok (K - {?skey}) ((proj s)\<lparr>su_store := bt_insert ?skey e (su_store (proj s)), su_isolation := Some isol'\<rparr>)"
      by (rule surface_ok_insert [OF ok]) (use e n ledger' bounded' isol entries in \<open>auto simp: store_key_of_def entry_size_def\<close>)
    then have "surface_ok (K - {?skey}) ((proj s')\<lparr>su_isolation := Some isol'\<rparr>)"
      by (rule surface_ok_core [THEN iffD2, rotated]) (simp add: core_def e lim)
    with True e lim isol config show ?thesis by (auto simp: confined_def store_key_of_def)
  next
    case False
    with admit_put_cases [OF adm] have same: "same_ledger isol isol'" and s': "s' = s \<or> cond \<and> commit s = (False, s')" by auto
    from s' commits have keep: "su_store (proj s') = su_store (proj s)" "su_limits (proj s') = su_limits (proj s)"
      by (auto simp: commits_def)
    have "ledger_matches K (su_store (proj s)) isol'"
      using m same_ledger_keeps(1,2) [OF same] same by (simp add: ledger_matches_def same_ledger_def)
    with False keep ok isol config show ?thesis by (auto simp: surface_ok_def confined_def)
  qed
qed

lemma admit_put_wrapper_step:
  assumes adm: "admit_put ident ns key n cond commit su = (r, su')"
    and commits: "cond \<Longrightarrow> commits (\<lambda>s. s) (store_key_of (ident_tenant ident) ns key) n commit su"
    and n: "n \<le> lim_max_value_bytes (su_limits su)"
  shows "safe_step ident K su (if r = Inr True then K - {store_key_of (ident_tenant ident) ns key} else K) su'"
proof (cases "su_isolation su")
  case None
  let ?skey = "store_key_of (ident_tenant ident) ns key"
  show ?thesis
  proof (cases "cond \<and> fst (commit su)")
    case True
    with adm None have r: "r = Inr True" "commit su = (True, su')" by (auto simp: admit_put_def split: prod.splits)
    with commits True obtain e where e: "length (sv_value e) = n" "su_store su' = bt_insert ?skey e (su_store su)"
      and lim: "su_limits su' = su_limits su" "su_isolation su' = None"
      using None by (auto simp: commits_def)
    have "surface_ok (K - {?skey}) (su\<lparr>su_store := bt_insert ?skey e (su_store su), su_isolation := None\<rparr>)" if "surface_ok K su"
      by (rule surface_ok_insert [OF that]) (use e n in auto)
    moreover have "core su' = core (su\<lparr>su_store := bt_insert ?skey e (su_store su), su_isolation := None\<rparr>)"
      by (simp add: core_def e lim)
    ultimately have "surface_ok (K - {?skey}) su'" if "surface_ok K su" using that surface_ok_core by blast
    with r e lim None show ?thesis by (auto simp: safe_step_def confined_def store_key_of_def)
  next
    case False
    with adm None commits have "core su' = core su" "r \<noteq> Inr True"
      by (auto simp: admit_put_def commits_def core_def split: prod.splits if_splits)
    then show ?thesis by (auto intro: safe_step_core)
  qed
next
  case (Some isol)
  obtain x isol' su'' where a: "admit_put_if_committed (ident_client_id ident) ns (stable_key key) (of_nat n) cond commit isol su = (x, isol', su'')"
    by (cases "admit_put_if_committed (ident_client_id ident) ns (stable_key key) (of_nat n) cond commit isol su")
  with adm Some have "su' = su''\<lparr>su_isolation := Some isol'\<rparr>" "r = Inr True \<longleftrightarrow> x = Inr True"
    by (auto simp: admit_put_def split: sum.splits)
  with admit_put_step [OF a, where proj = "\<lambda>s. s", OF Some commits n] show ?thesis by simp
qed

lemma insert_commits: "length (sv_value e) = n \<Longrightarrow> commits (\<lambda>s. s) skey n (insert_value skey e) su"
  by (auto simp: commits_def)

lemma stored_value_length [simp]: "length (sv_value (stored_value_new v now ttl)) = length v"
  by (simp add: stored_value_new_def)

lemma sv_stored_value [simp]: "sv_value (stored_value_new v now ttl) = v"
  by (simp add: stored_value_new_def)

section \<open>Handlers keep the ledger and the other tenants\<close>

lemma read_entry_step: "safe_step ident {} su {} (snd (read_entry ident ns key now su))"
proof -
  let ?skey = "store_key_of (ident_tenant ident) ns key"
  obtain e expired su' where l: "live_entry ?skey now su = (e, expired, su')" by (cases "live_entry ?skey now su")
  note step = live_entry_step(1) [OF l, of ident "{}"] live_entry_step(2) [OF l, of ident]
  show ?thesis
  proof (cases expired)
    case True
    with step have "safe_step ident {} su {?skey} su'" "safe_step ident {?skey} su' {} (forget_entry ident ns key su')"
      using forget_step [of su' ident ns key "{?skey}"] by simp_all
    with l True show ?thesis by (auto simp: read_entry_def intro: safe_step_trans)
  qed (use l step in \<open>simp add: read_entry_def\<close>)
qed

lemma batch_read_step:
  "batch_read ident ns now keys su = (vals, gone, su') \<Longrightarrow>
     safe_step ident K su (K \<union> store_key_of (ident_tenant ident) ns ` set gone) su'
     \<and> (\<forall>k. bt_get (su_store su) k = None \<longrightarrow> bt_get (su_store su') k = None)
     \<and> (\<forall>k \<in> set gone. bt_get (su_store su') (store_key_of (ident_tenant ident) ns k) = None)"
proof (induction keys arbitrary: su vals gone su' K)
  case Nil
  then show ?case by (simp add: safe_step_core)
next
  case (Cons key keys)
  let ?skey = "store_key_of (ident_tenant ident) ns key"
  obtain e expired su1 where l: "live_entry ?skey now su = (e, expired, su1)" by (cases "live_entry ?skey now su")
  obtain vals1 gone1 su2 where b: "batch_read ident ns now keys su1 = (vals1, gone1, su2)" by (cases "batch_read ident ns now keys su1")
  note step = live_entry_step(1) [OF l, of ident K] live_entry_step(2) [OF l, of ident]
  note rest = Cons.IH [OF b, of "if expired then insert ?skey K else K"]
  have keep: "bt_get (su_store su) k = None \<longrightarrow> bt_get (su_store su1) k = None" for k
    using l by (auto simp: live_entry_def split: option.splits if_splits)
  have "safe_step ident K su ((if expired then insert ?skey K else K) \<union> store_key_of (ident_tenant ident) ns ` set gone1) su2"
    using step(1) rest by (auto intro: safe_step_trans)
  moreover have "(if expired then insert ?skey K else K) \<union> store_key_of (ident_tenant ident) ns ` set gone1
      = K \<union> store_key_of (ident_tenant ident) ns ` set gone"
    using Cons.prems l b by auto
  moreover have "bt_get (su_store su2) ?skey = None" if expired using step(2) that rest by (simp del: split_paired_All)
  moreover have "gone = (if expired then key # gone1 else gone1)" "su' = su2" using Cons.prems l b by auto
  ultimately show ?case using rest keep by (auto simp del: split_paired_All split: if_splits)
qed

lemma fold_forget_step:
  "\<forall>k \<in> set gone. bt_get (su_store su) (store_key_of (ident_tenant ident) ns k) = None \<Longrightarrow>
   safe_step ident K su (K - store_key_of (ident_tenant ident) ns ` set gone) (fold (forget_entry ident ns) gone su)"
proof (induction gone arbitrary: su K)
  case Nil
  then show ?case by (simp add: safe_step_core)
next
  case (Cons key gone)
  let ?skey = "store_key_of (ident_tenant ident) ns key"
  have "safe_step ident K su (K - {?skey}) (forget_entry ident ns key su)" using Cons.prems by (intro forget_step) simp
  moreover have "safe_step ident (K - {?skey}) (forget_entry ident ns key su)
      (K - {?skey} - store_key_of (ident_tenant ident) ns ` set gone) (fold (forget_entry ident ns) gone (forget_entry ident ns key su))"
    using Cons.prems by (intro Cons.IH) simp
  moreover have "K - {?skey} - store_key_of (ident_tenant ident) ns ` set gone = K - store_key_of (ident_tenant ident) ns ` set (key # gone)" by auto
  ultimately show ?case by (auto intro: safe_step_trans)
qed

lemma batch_get_apply_step:
  "safe_step ident {} su {} (snd (case batch_read ident ns now keys su of
     (vals, gone, su) \<Rightarrow> (batch_items vals, fold (forget_entry ident ns) gone su)))"
proof -
  obtain vals gone su' where b: "batch_read ident ns now keys su = (vals, gone, su')" by (cases "batch_read ident ns now keys su")
  from batch_read_step [OF b, of "{}"] fold_forget_step [of gone su' ident ns "store_key_of (ident_tenant ident) ns ` set gone"]
  show ?thesis using b by (auto intro: safe_step_trans)
qed

text \<open>A handler result that only wraps the answer of an admitted closure.\<close>

lemma admitted_handler_step:
  assumes "\<And>su. safe_step ident {} su {} (snd (apply su))"
    and "\<And>a su'. core (snd (f a su')) = core su'"
  shows "safe_step ident {} su {} (snd (case with_admitted_store ident apply su of (Inl e, su) \<Rightarrow> (Inl e, su) | (Inr a, su) \<Rightarrow> f a su))"
proof -
  obtain r su' where w: "with_admitted_store ident apply su = (r, su')" by (cases "with_admitted_store ident apply su")
  with with_admitted_step [of ident "{}" "apply" su] assms(1) have "safe_step ident {} su {} su'" by simp
  with w assms(2) show ?thesis by (cases r) (auto intro: safe_step_after_core)
qed

lemma now_step:
  assumes "\<And>now su. safe_step ident K su K' (snd (f now su))"
  shows "safe_step ident K su K' (snd (case now_ms wall su of (now, su) \<Rightarrow> f now su))"
proof -
  obtain now su' where "now_ms wall su = (now, su')" by (cases "now_ms wall su")
  with core_now [of wall su] assms [of su' now] show ?thesis by (auto intro: safe_step_before_core)
qed

lemma store_replace_step:
  assumes "bt_get (su_store su) skey = Some e" "sv_value e' = sv_value e" "fst skey = ident_tenant ident"
  shows "safe_step ident K su K (su\<lparr>su_store := bt_insert skey e' (su_store su)\<rparr>)"
  using assms
  by (auto simp: safe_step_def surface_ok_def confined_def option.rel_refl ledger_matches_def entry_size_def)

lemma update_live_step:
  assumes "\<And>e a e'. update e = (a, Some e') \<Longrightarrow> sv_value e' = sv_value e"
  shows "safe_step ident {} su {} (snd (update_live ident ns key now update su))"
proof -
  let ?skey = "store_key_of (ident_tenant ident) ns key"
  obtain e expired su' where l: "live_entry ?skey now su = (e, expired, su')" by (cases "live_entry ?skey now su")
  show ?thesis
  proof (cases e)
    case None
    then have "snd (update_live ident ns key now update su) = snd (read_entry ident ns key now su)"
      using l by (simp add: update_live_def read_entry_def)
    then show ?thesis using read_entry_step by simp
  next
    case (Some x)
    then have su': "su' = su" "bt_get (su_store su) ?skey = Some x" using l by (auto simp: live_entry_def split: option.splits if_splits)
    obtain a y where u: "update x = (a, y)" by (cases "update x")
    show ?thesis
    proof (cases y)
      case None
      with l su' Some u remove_forget_step [of ident su ns key] show ?thesis by (simp add: update_live_def)
    next
      case (Some e')
      with l su' \<open>e = Some x\<close> u assms store_replace_step [of su ?skey x e' ident "{}"] show ?thesis by (simp add: update_live_def)
    qed
  qed
qed

lemma handle_update_step:
  assumes "\<And>now e a e'. update now e = (a, Some e') \<Longrightarrow> sv_value e' = sv_value e"
  shows "safe_step ident {} su {} (snd (handle_update ident ns key update kind response wall su))"
  unfolding handle_update_def
  by (intro now_step admitted_handler_step update_live_step) (auto dest: assms)

lemma handle_get_step:
  "safe_step ident {} su {} (snd (handle_operation ident rid ikey wall (Get ns key) su))"
  unfolding handle_operation.simps by (intro now_step admitted_handler_step read_entry_step) simp

lemma handle_invalidate_step:
  "safe_step ident {} su {} (snd (handle_operation ident rid ikey wall (Invalidate ns key) su))"
  unfolding handle_operation.simps Let_def
  by (intro admitted_handler_step) (auto intro: safe_step_core remove_forget_step)

lemma handle_batch_get_step: "safe_step ident {} su {} (snd (handle_batch_get ident ns keys wall su))"
proof -
  have "safe_step ident {} su {} (snd (case now_ms wall su of
          (now, su) \<Rightarrow>
            (case with_admitted_store ident (\<lambda>su.
                    (case batch_read ident ns now keys su of
                       (vals, expired_keys, su) \<Rightarrow> (batch_items vals, fold (forget_entry ident ns) expired_keys su))) su of
               (Inr items, su) \<Rightarrow> (Inr (RespBatch items), su)
             | (Inl e, su) \<Rightarrow> (Inl e, su))))"
    by (intro now_step admitted_handler_step batch_get_apply_step) simp
  then show ?thesis by (simp add: handle_batch_get_def Let_def safe_step_core)
qed

lemma handle_get_ttl_step: "safe_step ident {} su {} (snd (handle_get_ttl ident ns key wall su))"
  unfolding handle_get_ttl_def
  by (intro now_step admitted_handler_step) (auto simp: Let_def intro: safe_step_core remove_forget_step split: option.split)

lemma handle_put_step: "safe_step ident {} su {} (snd (handle_put ident ikey ns key val ttl wall su))"
proof (cases "lim_max_value_bytes (su_limits su) < length val")
  case True
  then show ?thesis by (simp add: handle_put_def safe_step_core)
next
  case False
  let ?skey = "store_key_of (ident_tenant ident) ns key"
  obtain now su1 where n: "now_ms wall su = (now, su1)" by (cases "now_ms wall su")
  let ?idem = "case ikey of Some k \<Rightarrow> idempotency_check (ident_tenant ident, k) now su1 | None \<Rightarrow> (None, su1)"
  obtain x su2 where i: "?idem = (x, su2)" by (cases ?idem)
  have c1: "core su1 = core su" using core_now [of wall su] n by simp
  have "core (snd ?idem) = core su1" by (simp split: option.split)
  with i c1 have c2: "core su2 = core su" by simp
  obtain r su3 where a: "admit_put ident ns key (length val) True (insert_value ?skey (stored_value_new val now ttl)) su2 = (r, su3)"
    by (cases "admit_put ident ns key (length val) True (insert_value ?skey (stored_value_new val now ttl)) su2")
  have "length val \<le> lim_max_value_bytes (su_limits su2)" using False core_eqD [OF c2] by simp
  from admit_put_wrapper_step [OF a insert_commits this, of "{}"]
  have step: "safe_step ident {} su {} su3" using c2 by (auto intro: safe_step_before_core split: if_splits)
  show ?thesis
  proof (cases x)
    case None
    with False n i a step show ?thesis
      by (cases r) (auto simp: handle_put_def Let_def intro!: safe_step_after_core [OF _ step] split: option.split)
  next
    case (Some y)
    with False n i c2 show ?thesis by (auto simp: handle_put_def intro: safe_step_core)
  qed
qed

lemma handle_conditional_put_step: "safe_step ident {} su {} (snd (handle_conditional_put ident ns key val ttl condition wall su))"
proof (cases "lim_max_value_bytes (su_limits su) < length val
    \<or> (case condition of IfPresentValue expected \<Rightarrow> lim_max_value_bytes (su_limits su) < length expected | IfAbsent \<Rightarrow> False)")
  case True
  then show ?thesis by (auto simp: handle_conditional_put_def safe_step_core)
next
  case False
  let ?skey = "store_key_of (ident_tenant ident) ns key"
  obtain now su1 where n: "now_ms wall su = (now, su1)" by (cases "now_ms wall su")
  have c1: "core su1 = core su" using core_now [of wall su] n by simp
  obtain e expired su2 where l: "live_entry ?skey now su1 = (e, expired, su2)" by (cases "live_entry ?skey now su1")
  have s2: "safe_step ident {} su (if expired then {?skey} else {}) su2"
    using live_entry_step(1) [OF l, of ident "{}"] c1 by (auto intro: safe_step_before_core)
  define holds where "holds = (case condition of IfAbsent \<Rightarrow> e = None
     | IfPresentValue expected \<Rightarrow> (case e of Some x \<Rightarrow> sv_value x = expected | None \<Rightarrow> False))"
  obtain r su3 where a: "admit_put ident ns key (length val) holds (insert_value ?skey (stored_value_new val now ttl)) su2 = (r, su3)"
    by (cases "admit_put ident ns key (length val) holds (insert_value ?skey (stored_value_new val now ttl)) su2")
  have "length val \<le> lim_max_value_bytes (su_limits su2)" using False core_eqD [OF c1] live_entry_step(3) [OF l, of ident] by simp
  from admit_put_wrapper_step [OF a insert_commits this, of "if expired then {?skey} else {}"]
  have s3: "safe_step ident {} su (if expired \<and> r \<noteq> Inr True then {?skey} else {}) su3"
    using s2 by (auto intro: safe_step_trans split: if_splits)
  have gone: "bt_get (su_store su3) ?skey = None" if "expired" "r \<noteq> Inr True"
    using a live_entry_step(2) [OF l, of ident] that admit_put_cases
    by (auto simp: admit_put_def split: option.splits sum.splits prod.splits if_splits dest!: admit_put_cases)
  have s4: "safe_step ident {} su {} (if expired \<and> r \<noteq> Inr True then forget_entry ident ns key su3 else su3)"
    using s3 forget_step [OF gone, of "{?skey}"] by (auto intro: safe_step_trans)
  from False n l a s4 show ?thesis
    by (cases r) (auto simp: handle_conditional_put_def Let_def holds_def [symmetric] intro!: safe_step_after_core [OF _ s4])
qed

lemma cas_commits:
  "commits fst (store_key_of (ident_tenant ident) ns key) (length new_value)
     (\<lambda>(su, _). (case cas_commit ident ns key live expected new_value level su of (r, su) \<Rightarrow> (cas_applied r, su, Some r))) (su, x)"
proof -
  obtain r su' where a: "apply_compare_and_set (lock_key (ident_tenant ident) ns key) live expected new_value (lock_consistency_level level) su = (r, su')"
    by (cases "apply_compare_and_set (lock_key (ident_tenant ident) ns key) live expected new_value (lock_consistency_level level) su")
  with core_apply_cas [of "lock_key (ident_tenant ident) ns key" live expected new_value "lock_consistency_level level" su]
  have "core su' = core su" by simp
  with a show ?thesis by (auto simp: commits_def cas_commit_def dest!: core_eqD intro!: exI [of _ "stored_value_new new_value 0 None"])
qed

lemma cas_commit_step:
  assumes "su_isolation su = None" "length new_value \<le> lim_max_value_bytes (su_limits su)"
  shows "safe_step ident {} su {} (snd (cas_commit ident ns key live expected new_value level su))"
proof -
  let ?skey = "store_key_of (ident_tenant ident) ns key" and ?c = "\<lambda>su. (case cas_commit ident ns key live expected new_value level su of (r, su) \<Rightarrow> (cas_applied r, su))"
  have c: "commits (\<lambda>s. s) ?skey (length new_value) ?c su"
    using cas_commits [of ident ns key new_value live expected level su None] by (auto simp: commits_def split: prod.splits)
  obtain r su' where a: "admit_put ident ns key (length new_value) True ?c su = (r, su')" by (cases "admit_put ident ns key (length new_value) True ?c su")
  then have "su' = snd (cas_commit ident ns key live expected new_value level su)"
    using assms(1) by (auto simp: admit_put_def split: prod.splits)
  with admit_put_wrapper_step [OF a c assms(2), of "{}"] show ?thesis by (simp split: if_splits)
qed

lemma open_step: "su_isolation su = None \<Longrightarrow> safe_step ident K su {} su"
  by (auto simp: safe_step_def surface_ok_def)

lemma handle_compare_and_set_step: "safe_step ident {} su {} (snd (handle_compare_and_set ident ns key expected new_value level wall su))"
proof (cases "lim_max_value_bytes (su_limits su) < length new_value")
  case True
  then show ?thesis by (simp add: handle_compare_and_set_def safe_step_core)
next
  case False
  let ?skey = "store_key_of (ident_tenant ident) ns key"
  obtain now su1 where n: "now_ms wall su = (now, su1)" by (cases "now_ms wall su")
  have c1: "core su1 = core su" using core_now [of wall su] n by simp
  obtain e expired su2 where l: "live_entry ?skey now su1 = (e, expired, su2)" by (cases "live_entry ?skey now su1")
  have s2: "safe_step ident {} su (if expired then {?skey} else {}) su2"
    using live_entry_step(1) [OF l, of ident "{}"] c1 by (auto intro: safe_step_before_core)
  have len: "length new_value \<le> lim_max_value_bytes (su_limits su2)" using False core_eqD [OF c1] live_entry_step(3) [OF l, of ident] by simp
  define live where "live = map_option sv_value e"
  define holds where "holds = (case expected of Exact x \<Rightarrow> live = Some x | Present \<Rightarrow> live \<noteq> None)"
  show ?thesis
  proof (cases "su_isolation su2")
    case None
    obtain r su3 where a: "cas_commit ident ns key live expected new_value level su2 = (r, su3)"
      by (cases "cas_commit ident ns key live expected new_value level su2")
    have s3: "safe_step ident {} su {} su3"
      using safe_step_trans [OF s2 open_step [OF None]] cas_commit_step [OF None len, of ident ns key live expected level] a
      by (auto intro: safe_step_trans)
    have "core (snd (handle_compare_and_set ident ns key expected new_value level wall su)) = core su3"
      using False n l None a by (simp add: handle_compare_and_set_def Let_def live_def [symmetric])
    then show ?thesis using s3 by (rule safe_step_after_core)
  next
    case (Some isol)
    let ?commit = "\<lambda>(su, _). (case cas_commit ident ns key live expected new_value level su of (r, su) \<Rightarrow> (cas_applied r, su, Some r))"
    obtain adm isol' su3 result where a: "admit_put_if_committed (ident_client_id ident) ns (stable_key key) (of_nat (length new_value)) holds
        ?commit isol (su2, None) = (adm, isol', su3, result)"
      by (rule prod_cases4)
    let ?su4 = "su3\<lparr>su_isolation := Some isol'\<rparr>"
    from admit_put_step [OF a, where proj = fst and K = "if expired then {?skey} else {}"] Some len
    have s4: "safe_step ident {} su (if expired \<and> adm \<noteq> Inr True then {?skey} else {}) ?su4"
      using s2 cas_commits by (auto intro: safe_step_trans split: if_splits)
    have gone: "bt_get (su_store ?su4) ?skey = None" if "expired" "adm \<noteq> Inr True"
      using admit_put_cases [OF a] live_entry_step(2) [OF l, of ident] that
        cas_commits [of ident ns key new_value live expected level su2 None]
      by (auto simp: commits_def)
    let ?su5 = "if expired \<and> adm \<noteq> Inr True then forget_entry ident ns key ?su4 else ?su4"
    have s5: "safe_step ident {} su {} ?su5"
      using s4 forget_step [OF gone, of "{?skey}"] by (auto intro: safe_step_trans)
    obtain r6 su6 where cas: "apply_compare_and_set (lock_key (ident_tenant ident) ns key) live expected new_value
        (lock_consistency_level level) ?su5 = (r6, su6)"
      by (cases "apply_compare_and_set (lock_key (ident_tenant ident) ns key) live expected new_value (lock_consistency_level level) ?su5")
    then have c6: "core su6 = core ?su5"
      using core_apply_cas [of "lock_key (ident_tenant ident) ns key" live expected new_value "lock_consistency_level level" ?su5] by simp
    let ?rs = "case adm of Inl e \<Rightarrow> (Inl (admission_error e), ?su5)
      | Inr _ \<Rightarrow> (case result of Some r \<Rightarrow> (r, ?su5) | None \<Rightarrow> (r6, su6))"
    have "handle_compare_and_set ident ns key expected new_value level wall su
        = (fst ?rs, if cas_applied (fst ?rs) then mutated ident ns (Some key) MutStored (snd ?rs) else snd ?rs)"
      using False n l Some a [unfolded holds_def live_def] cas [unfolded live_def]
      unfolding handle_compare_and_set_def Let_def
      by (cases adm; cases result) (simp_all split del: if_split cong: if_cong)
    moreover have "core (snd ?rs) = core ?su5" using c6 by (simp split: sum.split option.split)
    ultimately have "core (snd (handle_compare_and_set ident ns key expected new_value level wall su)) = core ?su5"
      by (simp only: snd_conv core_mutated_if)
    then show ?thesis using s5 by (rule safe_step_after_core)
  qed
qed

lemma handle_remove_if_value_step: "safe_step ident {} su {} (snd (handle_remove_if_value ident ns key expected level wall su))"
proof -
  let ?skey = "store_key_of (ident_tenant ident) ns key" and ?ckey = "lock_key (ident_tenant ident) ns key"
  have "safe_step ident {} su {} (snd (case live_entry ?skey now su of
      (e, expired, su) \<Rightarrow>
        (case synced_command ?ckey (map_option sv_value e) (remove_if_value ?ckey expected (lock_consistency_level level)) su of
           (r, su) \<Rightarrow>
             let su = (if cas_applied r then su\<lparr>su_store := bt_remove ?skey (su_store su)\<rparr> else su)
             in (r, if cas_applied r \<or> expired then forget_entry ident ns key su else su))))" for now su
  proof -
    obtain e expired su1 where l: "live_entry ?skey now su = (e, expired, su1)" by (cases "live_entry ?skey now su")
    obtain r su2 where c: "synced_command ?ckey (map_option sv_value e) (remove_if_value ?ckey expected (lock_consistency_level level)) su1 = (r, su2)"
      by (cases "synced_command ?ckey (map_option sv_value e) (remove_if_value ?ckey expected (lock_consistency_level level)) su1")
    have core: "core su2 = core su1"
      using core_synced [of ?ckey "map_option sv_value e" "remove_if_value ?ckey expected (lock_consistency_level level)" su1] c by simp
    have s1: "safe_step ident {} su (if expired then {?skey} else {}) su2"
      using live_entry_step(1) [OF l, of ident "{}"] core by (auto intro: safe_step_after_core)
    have gone: "bt_get (su_store su2) ?skey = None" if expired
      using live_entry_step(2) [OF l, of ident] that core_eqD [OF core] by simp
    let ?su3 = "if cas_applied r then su2\<lparr>su_store := bt_remove ?skey (su_store su2)\<rparr> else su2"
    have s3: "safe_step ident {} su (if cas_applied r \<or> expired then {?skey} else {}) ?su3"
      using s1 store_remove_step [of ?skey ident "if expired then {?skey} else {}" su2]
      by (auto intro: safe_step_trans split: if_splits)
    have gone3: "bt_get (su_store ?su3) ?skey = None" if "cas_applied r \<or> expired" using gone that by auto
    have "safe_step ident {} su {} (if cas_applied r \<or> expired then forget_entry ident ns key ?su3 else ?su3)"
      using s3 forget_step [OF gone3, of "{?skey}"] by (auto intro: safe_step_trans)
    with l c show ?thesis by (simp add: Let_def)
  qed
  then show ?thesis unfolding handle_remove_if_value_def Let_def
    by (intro now_step admitted_handler_step) auto
qed

lemma map_of_rev_ns:
  "map_of (rev (map (\<lambda>(key, v). (store_key_of t ns key, g v)) es)) (t', ns', k')
     = (if t' = t \<and> ns' = ns then map_of (rev (map (\<lambda>(key, v). (stable_key key, g v)) es)) k' else None)"
  by (induction es rule: rev_induct) (auto simp: store_key_of_def)

lemma map_of_rev_sizes:
  "map_of (rev (map (\<lambda>(key, v). (stable_key key, of_nat (length v) :: u64)) es)) k
     = map_option entry_size (map_of (rev (map (\<lambda>(key, v). (stable_key key, stored_value_new v 0 None)) es)) k)"
  by (induction es rule: rev_induct) (auto simp: entry_size_def)

lemma get_extend_ns:
  "bt_ok final \<Longrightarrow> bt_get (bt_extend (map (\<lambda>(k, b). ((t, ns, k), b)) final) E) (t', ns', k')
     = (if t' = t \<and> ns' = ns then (case bt_get final k' of Some b \<Rightarrow> Some b | None \<Rightarrow> bt_get E (t', ns', k')) else bt_get E (t', ns', k'))"
proof -
  assume "bt_ok final"
  then have "map_of (rev final) = map_of final"
    by (metis bt_ok_distinct distinct_rev map_of_eqI rev_map set_rev map_of_inject_set map_of_eq_None_iff bt_get_iff)
  moreover have "map_of (rev (map (\<lambda>(k, b). ((t, ns, k), b)) final)) (t', ns', k') = (if t' = t \<and> ns' = ns then map_of (rev final) k' else None)"
    by (induction final rule: rev_induct) auto
  ultimately show ?thesis by (simp add: bt_get_extend)
qed

lemma fold_insert_extend: "fold (\<lambda>(key, v). bt_insert (f key) (g v)) es m = bt_extend (map (\<lambda>(key, v). (f key, g v)) es) m"
  by (induction es arbitrary: m) (auto simp: bt_extend_def)

lemma map_of_rev_mem: "map_of (rev xs) k = Some v \<Longrightarrow> (k, v) \<in> set xs"
  using map_of_SomeD by fastforce

lemma core_fold_mutations [simp]: "core (fold (\<lambda>(key, _). record_mutation ident ns (Some key) kind) es su) = core su"
  by (induction es arbitrary: su) (auto split: prod.split)

lemma handle_batch_put_step: "safe_step ident {} su {} (snd (handle_batch_put ident ns entries su))"
proof (cases "lim_max_batch_entries (su_limits su) < length entries
    \<or> lim_max_batch_bytes (su_limits su) < foldl (\<lambda>total (key, val). usize_sat_add (usize_sat_add total (length (stable_key key))) (length val)) 0 entries
    \<or> list_ex (\<lambda>(_, val). lim_max_value_bytes (su_limits su) < length val) entries")
  case True
  then show ?thesis by (auto simp: handle_batch_put_def Let_def safe_step_core)
next
  case False
  define quota :: "(string \<times> u64) list" where "quota = map (\<lambda>(key, val). (stable_key key, of_nat (length val))) entries"
  define commit :: "client_surface \<Rightarrow> bool \<times> client_surface" where "commit = (\<lambda>su. (True, su\<lparr>su_store := fold (\<lambda>(key, val). bt_insert (store_key_of (ident_tenant ident) ns key)
                                       (stored_value_new val 0 None)) entries (su_store su)\<rparr>))"
  define A where "A = map_of (rev (map (\<lambda>(key, v). (stable_key key, stored_value_new v 0 None)) entries))"
  let ?store = "su_store (snd (commit su))"
  have get: "bt_get ?store (t', ns', k') = (if t' = ident_tenant ident \<and> ns' = ns
      then (case A k' of Some e \<Rightarrow> Some e | None \<Rightarrow> bt_get (su_store su) (t', ns', k')) else bt_get (su_store su) (t', ns', k'))" for t' ns' k'
    by (simp add: commit_def fold_insert_extend bt_get_extend map_of_rev_ns A_def)
  have small: "length (sv_value e) \<le> lim_max_value_bytes (su_limits su)" if "A k = Some e" for k e
    using map_of_rev_mem [OF that [unfolded A_def]] False by (fastforce simp: list_ex_iff)
  have bt: "bt_ok ?store" if "bt_ok (su_store su)" using that by (simp add: commit_def fold_insert_extend)
  have commit_sel: "su_isolation (snd (commit su)) = su_isolation su" "su_limits (snd (commit su)) = su_limits su" "fst (commit su)"
    by (simp_all add: commit_def)
  have base: "bt_ok ?store \<and> (\<forall>k e. bt_get ?store k = Some e \<longrightarrow> length (sv_value e) \<le> lim_max_value_bytes (su_limits su))" if "surface_ok {} su"
    using that bt small by (auto simp: surface_ok_def get split: if_splits option.splits)
  have frame: "bt_get ?store k = bt_get (su_store su) k" if "fst k \<noteq> ident_tenant ident" for k
    using that by (cases k) (auto simp: get)
  show ?thesis
  proof (cases "su_isolation su")
    case None
    have "core (snd (handle_batch_put ident ns entries su)) = core (snd (commit su))"
      using False None by (simp add: handle_batch_put_def Let_def commit_def [symmetric] quota_def [symmetric])
    moreover have "safe_step ident {} su {} (snd (commit su))"
      using None base frame commit_sel by (auto simp: safe_step_def surface_ok_def confined_def)
    ultimately show ?thesis by (rule safe_step_after_core)
  next
    case (Some isol)
    obtain r isol' su' where a: "admit_batch_put_if_committed (ident_client_id ident) ns quota commit isol su = (r, isol', su')"
      by (rule prod_cases3)
    have core: "core (snd (handle_batch_put ident ns entries su)) = core (su'\<lparr>su_isolation := Some isol'\<rparr>)"
      using False Some a by (cases r) (simp_all add: handle_batch_put_def Let_def commit_def [symmetric] quota_def [symmetric])
    have "safe_step ident {} su {} (su'\<lparr>su_isolation := Some isol'\<rparr>)"
      unfolding safe_step_def
    proof (intro impI, elim conjE)
      assume ok: "surface_ok {} su" and auth: "authorized ident su"
      have m: "ledger_matches {} (su_store su) isol" and res: "resolve_tenant (ident_client_id ident) isol = Inr (ident_tenant ident)"
        using ok auth Some by (auto simp: surface_ok_def authorized_def)
      have ledger: "ledger_ok isol" "quotas_bounded isol" using m by (simp_all add: ledger_matches_def)
      have config: "same_config isol isol'" by (rule admit_batch_config [OF a])
      have after: "ledger_ok isol'" "quotas_bounded isol'"
        using admit_batch_ledger [OF ledger a] ledger(2) same_config_keeps(1) [OF config] by simp_all
      show "surface_ok {} (su'\<lparr>su_isolation := Some isol'\<rparr>) \<and> confined ident su (su'\<lparr>su_isolation := Some isol'\<rparr>)"
      proof (cases "r = Inr True")
        case True
        with admit_batch_cases [OF a] res have su': "commit su = (True, su')"
          and E: "iso_entries isol' = bt_extend (map (\<lambda>(k, b). ((ident_tenant ident, ns, k), b)) (bt_extend quota bt_empty)) (iso_entries isol)"
          by auto
        have q: "bt_get (bt_extend quota bt_empty) k = map_option entry_size (A k)" for k
          by (simp add: bt_get_extend quota_def map_of_rev_sizes A_def split: option.split)
        have "bt_get (iso_entries isol') k = map_option entry_size (bt_get (su_store su') k)" for k
          using m get [of "fst k" "fst (snd k)" "snd (snd k)"] su'
          by (cases k) (auto simp: E get_extend_ns q ledger_matches_def split: option.split)
        with base [OF ok] frame commit_sel su' after config Some show ?thesis
          by (auto simp: surface_ok_def confined_def ledger_matches_def)
      next
        case False
        with admit_batch_cases [OF a] commit_sel have "su' = su" "same_ledger isol isol'" by auto
        with m after ok config Some show ?thesis
          by (auto simp: surface_ok_def confined_def ledger_matches_def same_ledger_def)
      qed
    qed
    with core show ?thesis by (rule safe_step_after_core)
  qed
qed

lemma isolation_step:
  assumes "su_isolation su = Some isol" "same_ledger isol isol'"
  shows "safe_step ident K su K (su\<lparr>su_isolation := Some isol'\<rparr>)"
  using assms same_ledger_keeps(1,2) [OF assms(2)] same_ledger_config [OF assms(2)]
  by (auto simp: safe_step_def surface_ok_def confined_def ledger_matches_def same_ledger_def)

lemma handle_subscribe_step: "safe_step ident {} su {} (snd (handle_subscribe ident mark su))"
  by (auto simp: handle_subscribe_def intro: safe_step_core isolation_step dest!: begin_subscription_same split: option.split prod.split sum.split)

lemma handle_evict_region_step: "safe_step ident {} su {} (snd (handle_evict_region ident ns su))"
proof -
  define kept where "kept = bt_retain (\<lambda>(t, n, _) _. t \<noteq> ident_tenant ident \<or> n \<noteq> ns) (su_store su)"
  have get: "bt_get kept (t, n, k) = (if t \<noteq> ident_tenant ident \<or> n \<noteq> ns then bt_get (su_store su) (t, n, k) else None)"
    if "bt_ok (su_store su)" for t n k
    using that by (simp add: kept_def bt_get_retain split: option.split)
  have bt_kept: "bt_ok kept" if "bt_ok (su_store su)" using that by (simp add: kept_def)
  have base: "bt_ok kept \<and> (\<forall>k e. bt_get kept k = Some e \<longrightarrow> length (sv_value e) \<le> lim_max_value_bytes (su_limits su))"
    "fst k \<noteq> ident_tenant ident \<Longrightarrow> bt_get kept k = bt_get (su_store su) k"
    if "surface_ok {} su" for k
    using that by (auto simp: surface_ok_def get bt_kept split: if_splits) (cases k, simp add: get)
  show ?thesis
  proof (cases "su_isolation su")
    case None
    have "core (snd (handle_evict_region ident ns su)) = core (su\<lparr>su_store := kept\<rparr>)"
      using None by (simp add: handle_evict_region_def Let_def kept_def)
    moreover have "safe_step ident {} su {} (su\<lparr>su_store := kept\<rparr>)"
      unfolding safe_step_def
    proof (intro impI, elim conjE)
      assume "surface_ok {} su"
      from base [OF this] None show "surface_ok {} (su\<lparr>su_store := kept\<rparr>) \<and> confined ident su (su\<lparr>su_store := kept\<rparr>)"
        by (auto simp: surface_ok_def confined_def)
    qed
    ultimately show ?thesis by (rule safe_step_after_core)
  next
    case (Some isol)
    obtain r isol' where e: "evict_namespace (ident_client_id ident) ns isol = (r, isol')" by (cases "evict_namespace (ident_client_id ident) ns isol")
    show ?thesis
    proof (cases r)
      case (Inl x)
      with evict_cases [OF e] have "same_ledger isol isol'" by auto
      with Inl Some e isolation_step show ?thesis by (auto simp: handle_evict_region_def Let_def)
    next
      case (Inr n)
      let ?su = "su\<lparr>su_isolation := Some isol', su_store := kept\<rparr>"
      have core: "core (snd (handle_evict_region ident ns su)) = core ?su"
        using Some Inr e by (simp add: handle_evict_region_def Let_def kept_def)
      have "safe_step ident {} su {} ?su"
        unfolding safe_step_def
      proof (intro impI, elim conjE)
        assume ok: "surface_ok {} su" and auth: "authorized ident su"
        have m: "ledger_matches {} (su_store su) isol" and res: "resolve_tenant (ident_client_id ident) isol = Inr (ident_tenant ident)"
          using ok auth Some by (auto simp: surface_ok_def authorized_def)
        have ledger: "ledger_ok isol" "quotas_bounded isol" using m by (simp_all add: ledger_matches_def)
        have config: "same_config isol isol'" by (rule evict_config [OF e])
        have after: "ledger_ok isol'" "quotas_bounded isol'"
          using evict_ledger [OF ledger(1) e] ledger(2) same_config_keeps(1) [OF config] by simp_all
        have E: "iso_entries isol' = bt_retain (\<lambda>(t', ns', _) _. t' \<noteq> ident_tenant ident \<or> ns' \<noteq> ns) (iso_entries isol)"
          using evict_cases [OF e] Inr res by auto
        have bt: "bt_ok (iso_entries isol)" "bt_ok (su_store su)" using ledger(1) ok by (simp_all add: ledger_ok_def surface_ok_def)
        have "bt_get (iso_entries isol') k = map_option entry_size (bt_get kept k)" for k
          using m bt by (cases k) (auto simp: E get bt_get_retain ledger_matches_def split: option.split)
        with base [OF ok] after config Some show "surface_ok {} ?su \<and> confined ident su ?su"
          by (auto simp: surface_ok_def confined_def ledger_matches_def)
      qed
      with core show ?thesis by (rule safe_step_after_core)
    qed
  qed
qed

lemma handle_force_unlock_step: "safe_step ident {} su {} (snd (handle_force_unlock ident rid ns key su))"
proof (cases "ident_admin ident")
  case True
  obtain r su' where a: "record_audit (PolicyChanged ns 1 ''force_unlock'') su = (r, su')" by (cases "record_audit (PolicyChanged ns 1 ''force_unlock'') su")
  with core_record_audit [of "PolicyChanged ns 1 ''force_unlock''" su] have "core su' = core su" by simp
  with a True show ?thesis by (cases r) (auto simp: handle_force_unlock_def intro: safe_step_core)
qed (simp add: handle_force_unlock_def safe_step_core)

lemma handle_operation_step: "safe_step ident {} su {} (snd (handle_operation ident rid ikey wall request su))"
proof (cases request)
  case (Get ns key)
  then show ?thesis using handle_get_step by simp
next
  case (Invalidate ns key)
  then show ?thesis using handle_invalidate_step by simp
qed (auto simp: handle_put_step handle_batch_get_step handle_batch_put_step handle_get_ttl_step handle_conditional_put_step
    handle_evict_region_step handle_subscribe_step handle_force_unlock_step handle_compare_and_set_step handle_remove_if_value_step
    handle_expire_def handle_persist_def handle_compare_value_invalidate_def handle_compare_value_expire_def extend_expiry_def
    handle_try_lock_def handle_unlock_def handle_renew_lock_def handle_lock_ownership_def Let_def safe_step_core
    intro!: handle_update_step split: if_splits compare_value_expire_mode.splits option.splits)

section \<open>The sweep\<close>

text \<open>What a sweep at a time may do to any tenant: drop entries that have expired by then.\<close>

definition swept :: "u64 \<Rightarrow> client_surface \<Rightarrow> client_surface \<Rightarrow> bool" where
  "swept now su su' \<longleftrightarrow>
     (surface_ok {} su \<longrightarrow> surface_ok {} su')
     \<and> su_limits su' = su_limits su \<and> rel_option same_config (su_isolation su) (su_isolation su')
     \<and> (\<forall>k. bt_get (su_store su') k = bt_get (su_store su) k
          \<or> bt_get (su_store su') k = None \<and> (\<exists>e. bt_get (su_store su) k = Some e \<and> is_expired now e))"

lemma swept_core: "core su' = core su \<Longrightarrow> swept now su su'"
  using surface_ok_core [of su' su "{}"] confined_core [of su' su] unfolding swept_def confined_def by (auto dest!: core_eqD)

lemma swept_trans:
  assumes "swept now su su'" "swept now su' su''"
  shows "swept now su su''"
proof -
  have "rel_option same_config (su_isolation su) (su_isolation su'')"
    using assms rel_config_trans unfolding swept_def by blast
  moreover have "bt_get (su_store su'') k = bt_get (su_store su) k
      \<or> bt_get (su_store su'') k = None \<and> (\<exists>e. bt_get (su_store su) k = Some e \<and> is_expired now e)" for k
  proof -
    have "bt_get (su_store su') k = bt_get (su_store su) k
        \<or> bt_get (su_store su') k = None \<and> (\<exists>e. bt_get (su_store su) k = Some e \<and> is_expired now e)"
      "bt_get (su_store su'') k = bt_get (su_store su') k
        \<or> bt_get (su_store su'') k = None \<and> (\<exists>e. bt_get (su_store su') k = Some e \<and> is_expired now e)"
      using assms unfolding swept_def by blast+
    then show ?thesis by (cases "bt_get (su_store su') k") auto
  qed
  moreover have "surface_ok {} su \<longrightarrow> surface_ok {} su''" "su_limits su'' = su_limits su"
    using assms unfolding swept_def by auto
  ultimately show ?thesis unfolding swept_def by blast
qed

lemma sweep_remove_swept:
  assumes "\<forall>e. bt_get (su_store su) key = Some e \<longrightarrow> is_expired now e"
  shows "swept now su (sweep_remove key su)"
proof -
  obtain t ns k where key: "key = (t, ns, k)" by (cases key)
  let ?su = "sweep_remove key su"
  have store: "su_store ?su = bt_remove key (su_store su)" "su_limits ?su = su_limits su"
    "su_isolation ?su = map_option (\<lambda>isol. snd (remove_entry_for_tenant t ns k isol)) (su_isolation su)"
    by (simp_all add: sweep_remove_def key)
  have "surface_ok {} ?su" if ok: "surface_ok {} su"
  proof -
    have "ledger_matches {} (bt_remove key (su_store su)) (snd (remove_entry_for_tenant t ns k isol))" if "su_isolation su = Some isol" for isol
    proof -
      have m: "ledger_matches {} (su_store su) isol" using ok that by (simp add: surface_ok_def)
      then have l: "ledger_ok isol" by (simp add: ledger_matches_def)
      show ?thesis
        using m remove_entry_for_tenant_ledger [OF l] same_config_keeps(1) [OF remove_entry_for_tenant_config]
          remove_entry_for_tenant_entries [OF l]
        by (auto simp: ledger_matches_def key)
    qed
    with ok show ?thesis by (auto simp: surface_ok_def store split: if_splits)
  qed
  moreover have "rel_option same_config (su_isolation su) (su_isolation ?su)"
    using remove_entry_for_tenant_config by (cases "su_isolation su") (simp_all add: store)
  moreover have "bt_get (su_store ?su) k' = bt_get (su_store su) k'
      \<or> bt_get (su_store ?su) k' = None \<and> (\<exists>e. bt_get (su_store su) k' = Some e \<and> is_expired now e)" for k'
    using assms by (cases "bt_get (su_store su) key") (auto simp: store)
  ultimately show ?thesis unfolding swept_def using store(2) by blast
qed

lemma fold_sweep_swept:
  "\<forall>key \<in> set keys. \<forall>e. bt_get (su_store su) key = Some e \<longrightarrow> is_expired now e \<Longrightarrow> swept now su (fold sweep_remove keys su)"
proof (induction keys arbitrary: su)
  case Nil
  then show ?case by (simp add: swept_core)
next
  case (Cons key keys)
  have first: "swept now su (sweep_remove key su)" using Cons.prems by (intro sweep_remove_swept) simp
  have "su_store (sweep_remove key su) = bt_remove key (su_store su)" by (simp add: sweep_remove_def split: prod.split)
  then have "swept now (sweep_remove key su) (fold sweep_remove keys (sweep_remove key su))"
    using Cons.prems by (intro Cons.IH) auto
  with first show ?case by (auto intro: swept_trans)
qed

lemma set_sweep_scan: "set (sweep_scan store cursor n) \<subseteq> set store"
  by (auto simp: sweep_scan_def Let_def dest!: in_set_takeD split: option.splits)

lemma sweep_swept:
  assumes "bt_ok (su_store su)"
  shows "swept now su (snd (sweep_expired_entries now force su))"
proof (cases "\<not> force \<and> now < su_next_sweep su")
  case True
  then show ?thesis by (simp add: sweep_expired_entries_def swept_core)
next
  case False
  let ?su = "su\<lparr>su_next_sweep := sat_add now CLIENT_SURFACE_EXPIRY_SWEEP_INTERVAL_MS\<rparr>"
  define cursor where "cursor = (if force then None else su_cursor su)"
  define limit where "limit = (if force then usize_max else CLIENT_SURFACE_EXPIRY_SWEEP_SCAN_LIMIT)"
  obtain n keys c where e: "expiry_sweep_candidates (su_store su) now cursor limit (\<not> force) = (n, keys, c)"
    by (rule prod_cases3)
  then have keys: "keys = map fst (filter (\<lambda>(_, e). is_expired now e) (sweep_scan (su_store su) cursor limit))"
    by (simp add: expiry_sweep_candidates_def Let_def)
  have "\<exists>e. bt_get (su_store su) key = Some e \<and> is_expired now e" if key: "key \<in> set keys" for key
  proof -
    from key obtain e where "(key, e) \<in> set (su_store su)" "is_expired now e"
      unfolding keys using set_sweep_scan [of "su_store su" cursor limit] by (auto simp del: split_paired_All)
    then show ?thesis using bt_get_iff [OF assms] by blast
  qed
  then have "\<forall>key \<in> set keys. \<forall>e. bt_get (su_store ?su) key = Some e \<longrightarrow> is_expired now e" by fastforce
  then have "swept now ?su (fold sweep_remove keys ?su)" by (rule fold_sweep_swept)
  moreover have "swept now su ?su" by (rule swept_core) simp
  ultimately have "swept now su (fold sweep_remove keys ?su)" by (rule swept_trans [rotated])
  moreover have "core (snd (sweep_expired_entries now force su)) = core (fold sweep_remove keys ?su)"
    using e unfolding cursor_def limit_def sweep_expired_entries_def if_not_P [OF False]
    by (simp add: Let_def split del: if_split cong: if_cong)
  ultimately show ?thesis by (rule swept_trans [OF _ swept_core])
qed

end
