(* ===== verification/Client_Surface_Runs.thy ===== *)
theory Client_Surface_Runs
  imports Client_Surface_Props
begin

text \<open>
  Histories of the client surface: the effect of a whole request, runs of requests and maintenance, and the properties that
  hold after every run.
\<close>

section \<open>The effect of one request\<close>

definition isolated :: "client_identity \<Rightarrow> u64 \<Rightarrow> client_surface \<Rightarrow> client_surface \<Rightarrow> bool" where
  "isolated ident now su su' \<longleftrightarrow>
     surface_ok {} su' \<and> su_limits su' = su_limits su \<and> rel_option same_config (su_isolation su) (su_isolation su')
     \<and> (\<forall>k. fst k \<noteq> ident_tenant ident \<longrightarrow>
          bt_get (su_store su') k = bt_get (su_store su) k
          \<or> bt_get (su_store su') k = None \<and> (\<exists>e. bt_get (su_store su) k = Some e \<and> is_expired now e))"

lemma isolated_core: "core su' = core su \<Longrightarrow> surface_ok {} su \<Longrightarrow> isolated ident now su su'"
  using swept_core [of su' su now] unfolding swept_def isolated_def by blast

lemma swept_confined_isolated:
  assumes "swept now su su'" "confined ident su' su''" "surface_ok {} su''"
  shows "isolated ident now su su''"
proof -
  have "rel_option same_config (su_isolation su) (su_isolation su'')"
    using assms(1,2) rel_config_trans unfolding swept_def confined_def by blast
  with assms show ?thesis unfolding isolated_def swept_def confined_def by auto
qed

lemma isolated_after_core:
  assumes "isolated ident now su su'" "core su'' = core su'"
  shows "isolated ident now su su''"
  using assms surface_ok_core [OF assms(2), of "{}"] core_eqD [OF assms(2)] by (simp add: isolated_def)

lemma handle_request_isolated:
  assumes ok: "surface_ok {} su" and auth: "authorized ident su"
  shows "isolated ident (fst (now_ms (fst wall) su)) su (snd (handle_request ident env wall su))"
proof (cases "(\<exists>e. validate_protocol env = Inl e) \<or> deadline_expired 0 env")
  case True
  then have "snd (handle_request ident env wall su) = su"
    by (auto simp: handle_request_def Let_def split: sum.split)
  then show ?thesis using isolated_core [OF _ ok] by simp
next
  case False
  define now where "now = fst (now_ms (fst wall) su)"
  define su1 where "su1 = snd (sweep_expired_entries now False (snd (now_ms (fst wall) su)))"
  define su2 where "su2 = snd (handle_operation ident (req_id env) (req_idempotency_key env) (snd wall) (req_request env) su1)"
  have eq: "core (snd (handle_request ident env wall su)) = core su2"
    using False by (cases "validate_protocol env") (auto simp: handle_request_def Let_def su1_def su2_def now_def split: prod.split)
  have "bt_ok (su_store (snd (now_ms (fst wall) su)))" using ok core_eqD [OF core_now] by (simp add: surface_ok_def)
  then have sw: "swept now su su1" unfolding su1_def by (intro swept_trans [OF swept_core sweep_swept]) simp_all
  then have ok1: "surface_ok {} su1" "authorized ident su1"
    using ok auth unfolding swept_def authorized_def by (auto simp: option_rel_Some2 same_config_keeps(3))
  then have "surface_ok {} su2" "confined ident su1 su2"
    using handle_operation_step [of ident su1] unfolding su2_def safe_step_def by blast+
  with sw have "isolated ident now su su2" by (auto intro: swept_confined_isolated)
  then show ?thesis unfolding now_def [symmetric] using eq by (rule isolated_after_core)
qed

lemma validate_tenant_authorized: "fst (validate_tenant_identity ident route rid su) \<longleftrightarrow> authorized ident su"
  by (auto simp: validate_tenant_identity_def authorized_def split: option.splits)

lemma validate_tenant_core [simp]: "core (snd (validate_tenant_identity ident route rid su)) = core su"
  by (auto simp: validate_tenant_identity_def split: option.splits)

lemma validate_tenant_same: "authorized ident su \<Longrightarrow> validate_tenant_identity ident route rid su = (True, su)"
  by (auto simp: validate_tenant_identity_def authorized_def split: option.splits)

lemma dispatch_authorized:
  "authorized ident su \<Longrightarrow> dispatch_verified_request ident env wall su
     = handle_request ident env wall (su\<lparr>su_dispatch_attempts := su_dispatch_attempts su + 1\<rparr>)"
  by (simp add: dispatch_verified_request_def validate_tenant_same)

lemma dispatch_unauthorized:
  assumes "\<not> authorized ident su"
  shows "core (snd (dispatch_verified_request ident env wall su)) = core su"
    and "resp_result (fst (dispatch_verified_request ident env wall su)) = Inl (client_error_new Unauthorized False)"
  using assms validate_tenant_authorized [of ident CLIENT_DATA_PATH "Some (req_id env)" su]
    validate_tenant_core [of ident CLIENT_DATA_PATH "Some (req_id env)" su]
  by (auto simp: dispatch_verified_request_def split: prod.splits bool.splits simp del: validate_tenant_core)

lemma dispatch_isolated:
  assumes "surface_ok {} su"
  shows "isolated ident (fst (now_ms (fst wall) su)) su (snd (dispatch_verified_request ident env wall su))"
proof (cases "authorized ident su")
  case True
  let ?su = "su\<lparr>su_dispatch_attempts := su_dispatch_attempts su + 1\<rparr>"
  have "core ?su = core su" by simp
  then have "surface_ok {} ?su" "authorized ident ?su" using True assms surface_ok_core authorized_core by blast+
  then have "isolated ident (fst (now_ms (fst wall) ?su)) ?su (snd (handle_request ident env wall ?su))"
    by (rule handle_request_isolated)
  then show ?thesis using True by (simp add: dispatch_authorized isolated_def now_ms_def Let_def)
next
  case False
  then show ?thesis using assms by (intro isolated_core dispatch_unauthorized)
qed

section \<open>Runs\<close>

text \<open>What the owner of a surface may call: requests, subscriptions, the maintenance tick, and the two diagnostic operations.\<close>

datatype surface_op =
    OpDispatch client_identity request_envelope "u64 \<times> u64"
  | OpSubscribe client_identity
  | OpReap u64
  | OpDiagnose u64
  | OpResetState

fun surface_step :: "surface_op \<Rightarrow> client_surface \<Rightarrow> client_surface" where
  "surface_step (OpDispatch ident env wall) su = snd (dispatch_verified_request ident env wall su)"
| "surface_step (OpSubscribe ident) su = snd (subscribe_mutations ident su)"
| "surface_step (OpReap wall) su = snd (reap_expired_entries wall su)"
| "surface_step (OpDiagnose wall) su = snd (retained_state_for_diagnostics wall su)"
| "surface_step OpResetState su = snd (reset_retained_state su)"

definition surface_run :: "surface_op list \<Rightarrow> client_surface \<Rightarrow> client_surface" where
  "surface_run ops su = fold surface_step ops su"

lemma surface_run_simps [simp]: "surface_run [] su = su" "surface_run (op # ops) su = surface_run ops (surface_step op su)"
  by (simp_all add: surface_run_def)

definition kept :: "client_surface \<Rightarrow> client_surface \<Rightarrow> bool" where
  "kept su su' \<longleftrightarrow>
     surface_ok {} su' \<and> su_limits su' = su_limits su \<and> rel_option same_config (su_isolation su) (su_isolation su')"

lemma kept_core: "core su' = core su \<Longrightarrow> surface_ok {} su \<Longrightarrow> kept su su'"
  using swept_core [of su' su] unfolding swept_def kept_def by blast

lemma kept_swept: "swept now su su' \<Longrightarrow> surface_ok {} su \<Longrightarrow> kept su su'"
  unfolding swept_def kept_def by blast

lemma now_sweep_swept:
  assumes "bt_ok (su_store su)"
  shows "swept now su (snd (sweep_expired_entries now force (snd (now_ms wall su))))"
proof -
  have "bt_ok (su_store (snd (now_ms wall su)))" using assms core_eqD [OF core_now] by simp
  then show ?thesis by (intro swept_trans [OF swept_core sweep_swept]) simp_all
qed

lemma sweep_kept: "surface_ok {} su \<Longrightarrow> kept su (snd (sweep_expired_entries now force (snd (now_ms wall su))))"
  by (rule kept_swept [OF now_sweep_swept]) (simp_all add: surface_ok_def)

lemma surface_step_kept:
  assumes ok: "surface_ok {} su"
  shows "kept su (surface_step op su)"
proof (cases op)
  case (OpDispatch ident env wall)
  then show ?thesis using dispatch_isolated [OF ok] by (auto simp: isolated_def kept_def)
next
  case (OpSubscribe ident)
  then have "core (surface_step op su) = core su"
    using validate_tenant_core [of ident "''/client/v1/subscriptions''" None su]
    by (auto simp: subscribe_mutations_def simp del: validate_tenant_core split: prod.split bool.split)
  then show ?thesis using ok by (rule kept_core)
next
  case (OpReap wall)
  then have "surface_step op su = snd (sweep_expired_entries (fst (now_ms wall su)) False (snd (now_ms wall su)))"
    by (simp add: reap_expired_entries_def split: prod.split)
  then show ?thesis using sweep_kept [OF ok] by simp
next
  case (OpDiagnose wall)
  then have "surface_step op su = snd (sweep_expired_entries (fst (now_ms wall su)) True (snd (now_ms wall su)))"
    by (simp add: retained_state_for_diagnostics_def Let_def split: prod.split)
  then show ?thesis using sweep_kept [OF ok] by simp
next
  case OpResetState
  then show ?thesis using ok
    by (auto simp: reset_retained_state_def Let_def kept_def surface_ok_def option.rel_refl)
qed

lemma surface_run_kept: "surface_ok {} su \<Longrightarrow> kept su (surface_run ops su)"
proof (induction ops arbitrary: su)
  case Nil
  then show ?case by (simp add: kept_core)
next
  case (Cons op ops)
  have "kept su (surface_step op su)" using Cons.prems by (rule surface_step_kept)
  moreover from this have "kept (surface_step op su) (surface_run ops (surface_step op su))"
    using Cons.IH by (simp add: kept_def)
  ultimately show ?case unfolding kept_def using rel_config_trans by (simp, blast)
qed

section \<open>Quotas\<close>

text \<open>The stored entries of a tenant in a namespace.\<close>

definition tenant_entries :: "string \<Rightarrow> string \<Rightarrow> client_surface \<Rightarrow> (store_key, stored_value) btmap" where
  "tenant_entries t ns su = bt_retain (\<lambda>(t', ns', _) _. t' = t \<and> ns' = ns) (su_store su)"

definition tenant_bytes :: "string \<Rightarrow> string \<Rightarrow> client_surface \<Rightarrow> nat" where
  "tenant_bytes t ns su = sum_list (map (\<lambda>(_, e). length (sv_value e)) (tenant_entries t ns su))"

lemma ledger_is_store:
  assumes "ledger_matches {} store isol" "bt_ok store"
  shows "iso_entries isol = map (\<lambda>(k, e). (k, entry_size e)) store"
proof (rule bt_eqI [OF _ _ ext])
  show "bt_ok (iso_entries isol)" using assms by (simp add: ledger_matches_def ledger_ok_def)
  show "bt_ok (map (\<lambda>(k, e). (k, entry_size e)) store)" using assms(2) by (simp add: bt_ok_def comp_def case_prod_unfold)
  show "bt_get (iso_entries isol) k = bt_get (map (\<lambda>(k, e). (k, entry_size e)) store) k" for k
    using assms(1) by (simp add: ledger_matches_def map_of_map del: split_paired_All)
qed

lemma ledger_usage:
  assumes m: "ledger_matches {} (su_store su) isol" and ok: "bt_ok (su_store su)"
    and size: "\<forall>k e. bt_get (su_store su) k = Some e \<longrightarrow> length (sv_value e) < 2 ^ 64"
  shows "unat (usage_bytes (usage_of t ns isol)) = tenant_bytes t ns su"
    and "unat (usage_entries (usage_of t ns isol)) = length (tenant_entries t ns su)"
proof -
  have eq: "ns_entries t ns isol = map (\<lambda>(k, e). (k, entry_size e)) (tenant_entries t ns su)"
    using ledger_is_store [OF m ok] by (simp add: tenant_entries_def bt_retain_def filter_map comp_def case_prod_unfold)
  have "unat (entry_size e) = length (sv_value e)" if "(k, e) \<in> set (tenant_entries t ns su)" for k e
  proof -
    have "bt_get (su_store su) k = Some e" using that bt_get_iff [OF ok] by (auto simp: tenant_entries_def bt_retain_def)
    then have "length (sv_value e) < 2 ^ 64" using size by blast
    then show ?thesis by (simp add: entry_size_def unat_of_nat take_bit_nat_eq_self)
  qed
  then have "bt_weight unat (ns_entries t ns isol) = tenant_bytes t ns su"
    unfolding eq tenant_bytes_def bt_weight_def by (auto intro!: arg_cong [where f = sum_list] map_cong simp: comp_def)
  then show "unat (usage_bytes (usage_of t ns isol)) = tenant_bytes t ns su"
    and "unat (usage_entries (usage_of t ns isol)) = length (tenant_entries t ns su)"
    using m eq by (simp_all add: ledger_matches_def ledger_ok_def usage_exact_def)
qed

lemma surface_new_ok:
  assumes "surface_new limits isol = Inr su" "\<forall>i. isol = Some i \<longrightarrow> (\<exists>r c. i = isolation_new r c \<and> roster_ok r) \<and> quotas_bounded i"
  shows "surface_ok {} su \<and> su_limits su = limits \<and> su_isolation su = isol"
  using assms isolation_new_ledger
  by (auto simp: surface_new_def result_bind_Inr_iff surface_ok_def ledger_matches_def isolation_new_def)

text \<open>
  C6. After any history of requests, subscriptions, maintenance ticks and diagnostics, the quota ledger of a surface with tenant
  isolation agrees with the value store: the recorded usage of every tenant in every namespace is exactly the number of entries
  and of bytes that the store has for it, no usage exceeds its quota, and every stored entry lies in a namespace for which its
  tenant has a quota. Quotas leave room for one request below the largest machine word.
\<close>

theorem quota_ledger_exact:
  assumes roster: "roster_new tenants = Inr r" and isol: "isol = isolation_new r config" and quotas: "quotas_bounded isol"
    and limit: "lim_max_value_bytes limits < 2 ^ 64"
    and new: "surface_new limits (Some isol) = Inr su\<^sub>0" and run: "su = surface_run ops su\<^sub>0"
  shows "\<exists>i. su_isolation su = Some i \<and>
           (\<forall>t ns. unat (usage_bytes (usage_of t ns i)) = tenant_bytes t ns su
                 \<and> unat (usage_entries (usage_of t ns i)) = length (tenant_entries t ns su)) \<and>
           (\<forall>t ns q. tenant_quota t ns isol = Inr q \<longrightarrow>
                 tenant_bytes t ns su \<le> unat (quota_max_bytes q) \<and> length (tenant_entries t ns su) \<le> unat (quota_max_entries q)) \<and>
           (\<forall>t ns key e. bt_get (su_store su) (t, ns, key) = Some e \<longrightarrow> (\<exists>q. tenant_quota t ns isol = Inr q))"
proof -
  have "surface_ok {} su\<^sub>0 \<and> su_limits su\<^sub>0 = limits \<and> su_isolation su\<^sub>0 = Some isol"
    using new roster_new_ok [OF roster] quotas isol by (intro surface_new_ok) auto
  then have k: "kept su\<^sub>0 su" "su_isolation su\<^sub>0 = Some isol" "su_limits su = limits"
    using surface_run_kept [of su\<^sub>0 ops] by (auto simp: run kept_def)
  then obtain i where i: "su_isolation su = Some i" "same_config isol i" "ledger_matches {} (su_store su) i"
    and ok: "bt_ok (su_store su)" and len: "\<forall>k e. bt_get (su_store su) k = Some e \<longrightarrow> length (sv_value e) \<le> lim_max_value_bytes limits"
    unfolding kept_def surface_ok_def by (auto simp: option_rel_Some1)
  have size: "\<forall>k e. bt_get (su_store su) k = Some e \<longrightarrow> length (sv_value e) < 2 ^ 64"
    using len limit by (auto simp del: split_paired_All dest: le_less_trans)
  note usage = ledger_usage [OF i(3) ok size]
  have quota: "tenant_quota t ns i = tenant_quota t ns isol" for t ns using same_config_keeps(2) [OF i(2)] .
  have "tenant_bytes t ns su \<le> unat (quota_max_bytes q) \<and> length (tenant_entries t ns su) \<le> unat (quota_max_entries q)"
    if "tenant_quota t ns isol = Inr q" for t ns q
  proof -
    have "\<not> over_quota q (usage_of t ns i)"
      using i(3) that unfolding quota [symmetric] ledger_matches_def ledger_ok_def by blast
    then show ?thesis using usage [of t ns] by (simp add: over_quota_def word_less_nat_alt)
  qed
  moreover have "\<exists>q. tenant_quota t ns isol = Inr q" if "bt_get (su_store su) (t, ns, key) = Some e" for t ns key e
    using i(3) that quota [of t ns] ledger_entry_quota [of i t ns key "entry_size e"] by (simp add: ledger_matches_def)
  ultimately show ?thesis using i(1) usage by auto
qed

section \<open>Tenants\<close>

text \<open>
  C5. A request changes the stored entries of its own tenant only. After any history, whatever request an identity sends, every
  entry of another tenant is still there with its value and its deadline, unless it had expired when the request arrived, in
  which case the sweep of the request may have dropped it.
\<close>

theorem tenants_do_not_interfere:
  assumes roster: "roster_new tenants = Inr r" and isol: "isol = isolation_new r config" and quotas: "quotas_bounded isol"
    and new: "surface_new limits (Some isol) = Inr su\<^sub>0" and run: "su = surface_run ops su\<^sub>0"
    and step: "dispatch_verified_request ident env wall su = (response, su')"
    and other: "fst key \<noteq> ident_tenant ident" and stored: "bt_get (su_store su) key = Some e"
  shows "bt_get (su_store su') key = Some e \<or> bt_get (su_store su') key = None \<and> is_expired (fst (now_ms (fst wall) su)) e"
proof -
  have "surface_ok {} su\<^sub>0" using surface_new_ok [OF new] roster_new_ok [OF roster] quotas isol by auto
  then have "surface_ok {} su" using surface_run_kept [of su\<^sub>0 ops] by (simp add: run kept_def)
  then have "isolated ident (fst (now_ms (fst wall) su)) su su'" using dispatch_isolated [of su ident wall env] step by simp
  then show ?thesis using other stored unfolding isolated_def by (metis option.inject)
qed

section \<open>Responses\<close>

text \<open>The kind of response that a request expects, with one item for every key of a batch in its order.\<close>

fun response_fits :: "client_request \<Rightarrow> client_response \<Rightarrow> bool" where
  "response_fits (Get _ _) r = (\<exists>val. r = RespValue val)"
| "response_fits (Put _ _ _ _ _) r = (r = RespStored)"
| "response_fits (Invalidate _ _) r = (r = RespInvalidated)"
| "response_fits (BatchGet _ keys) r = (\<exists>items. r = RespBatch items \<and> map item_index items = [0..<length keys])"
| "response_fits (BatchPut _ entries) r = (\<exists>items. r = RespBatch items \<and> map item_index items = [0..<length entries])"
| "response_fits (Expire _ _ _) r = (\<exists>applied. r = RespExpiry applied)"
| "response_fits (Persist _ _) r = (\<exists>applied. r = RespExpiry applied)"
| "response_fits (GetTtl _ _) r = (\<exists>state. r = RespTtl state)"
| "response_fits (ConditionalPut _ _ _ _ _) r = (\<exists>stored. r = RespConditionalStored stored)"
| "response_fits (CompareValueAndInvalidate _ _ _) r = (\<exists>applied. r = RespCompareValueApplied applied)"
| "response_fits (CompareValueAndExpire _ _ _ _ _) r = (\<exists>applied. r = RespCompareValueApplied applied)"
| "response_fits (EvictRegion _) r = (r = RespEvicted)"
| "response_fits (SubscribeInvalidations _ _ from_mark _) r = (r = RespSubscribed from_mark)"
| "response_fits (SubscribeEntryEvents _ _ from_mark _ _) r = (r = RespSubscribed from_mark)"
| "response_fits (TryLock _ _ _ _ _) r = (r = RespLockBusy \<or> (\<exists>fence. r = RespLockAcquired fence))"
| "response_fits (Unlock _ _ _) r = (r = RespLockReleased)"
| "response_fits (RenewLockLease _ _ _ _) r = (r = RespLockLeaseRenewed)"
| "response_fits (ForceUnlock _ _) r = (r = RespLockReleased)"
| "response_fits (GetLockOwnership _ _) r = (\<exists>fence. r = RespLockOwnership fence (fence \<noteq> None))"
| "response_fits (CompareAndSet _ _ _ _ _) r = (\<exists>c. r = cas_response c)"
| "response_fits (RemoveIfValue _ _ _ _) r = (\<exists>c. r = cas_response c)"

lemma cas_response_version: "response_minimum_version (cas_response c) = LOCK_PROTOCOL_VERSION"
  by (cases c) simp_all

lemma put_version: "MIN_PROTOCOL_VERSION \<le> minimum_protocol_version (Put ns key val ttl dims)"
  by (cases ttl) simp_all

lemma fits_version: "response_fits request r \<Longrightarrow> response_minimum_version r \<le> minimum_protocol_version request"
  by (cases request) (auto simp: cas_response_version intro: put_version)

text \<open>A handler whose responses all satisfy a predicate.\<close>

definition yields :: "(client_response \<Rightarrow> bool) \<Rightarrow> surface_result \<times> client_surface \<Rightarrow> bool" where
  "yields P res \<longleftrightarrow> (\<forall>r. fst res = Inr r \<longrightarrow> P r)"

lemma yields_simps [simp]: "yields P (Inl e, su)" "yields P (Inr r, su) = P r"
  by (simp_all add: yields_def)

lemma yields_admitted:
  assumes "\<And>v su'. with_admitted_store ident f su = (Inr v, su') \<Longrightarrow> P (response v)"
  shows "yields P (case with_admitted_store ident f su of (Inl e, su) \<Rightarrow> (Inl e, su) | (Inr v, su) \<Rightarrow> (Inr (response v), g v su))"
  using assms by (simp split: prod.split sum.split)

lemma admitted_result:
  "with_admitted_store ident f su = (Inr v, su') \<Longrightarrow> \<exists>su\<^sub>1. v = fst (f su\<^sub>1)"
  by (auto simp: with_admitted_store_def split: option.splits prod.splits sum.splits) (metis fst_conv)+

lemma on_lock_service_yields:
  "(\<And>cs now r cs'. f cs now = (Inr r, cs') \<Longrightarrow> P r) \<Longrightarrow> yields P (on_lock_service f su)"
  by (auto simp: yields_def on_lock_service_def apply_lock_command_def Let_def split: prod.splits sum.splits if_splits)

lemma synced_command_yields: "yields (\<lambda>r. \<exists>c. r = cas_response c) (synced_command key live f su)"
  unfolding synced_command_def by (rule on_lock_service_yields) (auto split: prod.splits sum.splits)

lemma apply_cas_yields: "yields (\<lambda>r. \<exists>c. r = cas_response c) (apply_compare_and_set key live e v level su)"
  unfolding apply_compare_and_set_def by (rule synced_command_yields)

lemma handle_update_yields:
  assumes "\<And>b. P (response b)"
  shows "yields P (handle_update ident ns key update kind response wall su)"
  unfolding handle_update_def using yields_admitted [of ident _ _ P response] assms by (simp split: prod.split)

lemma batch_items_index [simp]: "map item_index (batch_items vals) = [0..<length vals]"
  by (simp add: batch_items_def comp_def case_prod_unfold map_fst_zip)

lemma batch_read_length: "length (fst (batch_read ident ns now keys su)) = length keys"
  by (induction keys arbitrary: su) (auto split: prod.split simp: prod.case_eq_if)

text \<open>The outcomes kept for idempotency keys and the clock.\<close>

definition clock_view :: "client_surface \<Rightarrow> (string \<times> string, u64) btmap \<times> u64" where
  "clock_view su = (su_idempotency su, su_time_floor su)"

lemma clock_view_update [simp]:
  "clock_view (su\<lparr>su_dispatch_attempts := a\<rparr>) = clock_view su" "clock_view (su\<lparr>su_state_mutations := a\<rparr>) = clock_view su"
  "clock_view (su\<lparr>su_store := m\<rparr>) = clock_view su" "clock_view (su\<lparr>su_isolation := i\<rparr>) = clock_view su"
  "clock_view (su\<lparr>su_lock_service := l\<rparr>) = clock_view su" "clock_view (su\<lparr>su_audit := u\<rparr>) = clock_view su"
  "clock_view (su\<lparr>su_receivers := n\<rparr>) = clock_view su" "clock_view (su\<lparr>su_next_sweep := a\<rparr>) = clock_view su"
  "clock_view (su\<lparr>su_cursor := c\<rparr>) = clock_view su"
  by (simp_all add: clock_view_def)

lemma record_mutation_sel [simp]:
  "su_store (record_mutation ident ns key kind su) = su_store su" "su_lock_service (record_mutation ident ns key kind su) = su_lock_service su"
  "clock_view (record_mutation ident ns key kind su) = clock_view su"
  by (simp_all add: record_mutation_def clock_view_def)

lemma forget_entry_view [simp]:
  "su_lock_service (forget_entry ident ns key su) = su_lock_service su" "clock_view (forget_entry ident ns key su) = clock_view su"
  by (simp_all add: forget_entry_def split: option.split)

lemma on_lock_service_view [simp]: "clock_view (snd (on_lock_service f su)) = clock_view su"
  by (simp add: on_lock_service_def split: prod.split)

lemma synced_command_view [simp]: "clock_view (snd (synced_command key live f su)) = clock_view su"
  by (simp add: synced_command_def)

lemma apply_cas_view [simp]: "clock_view (snd (apply_compare_and_set key live e v level su)) = clock_view su"
  by (simp add: apply_compare_and_set_def)

lemma apply_cas_store [simp]: "su_store (snd (apply_compare_and_set key live e v level su)) = su_store su"
  using core_eqD [OF core_apply_cas] by blast

lemma apply_cas_locks:
  "su_lock_service su' = su_lock_service su \<Longrightarrow>
   fst (apply_compare_and_set key live e v level su') = fst (apply_compare_and_set key live e v level su)
   \<and> su_lock_service (snd (apply_compare_and_set key live e v level su')) = su_lock_service (snd (apply_compare_and_set key live e v level su))"
  by (auto simp: apply_compare_and_set_def synced_command_def on_lock_service_def split: prod.split)

text \<open>What a compare-and-set does, whichever way it is admitted, by the command on the conditional store.\<close>

lemma cas_outcome:
  fixes ident ns key expected new_value level
  defines "skey \<equiv> store_key_of (ident_tenant ident) ns key"
  assumes h: "handle_compare_and_set ident ns key expected new_value level wall su = (r, su')"
    and small: "length new_value \<le> lim_max_value_bytes (su_limits su)"
    and n: "now_ms wall su = (now, su1)" and l: "live_entry skey now su1 = (e, expired, su2)"
  defines "live \<equiv> map_option sv_value e"
  defines "command \<equiv> apply_compare_and_set (lock_key (ident_tenant ident) ns key) live expected new_value (lock_consistency_level level) su2"
  shows "clock_view su' = clock_view su2 \<and>
    ((\<exists>err. r = Inl err) \<and> su_store su' = su_store su2 \<and> su_lock_service su' = su_lock_service su2
     \<or> r = fst command \<and> su_lock_service su' = su_lock_service (snd command)
       \<and> (su_store su' = (if cas_applied r then bt_insert skey (stored_value_new new_value 0 None) (su_store su2) else su_store su2)
          \<or> \<not> (case expected of Exact x \<Rightarrow> live = Some x | Present \<Rightarrow> live \<noteq> None) \<and> su_store su' = su_store su2))"
proof -
  obtain r3 su3 where c: "command = (r3, su3)" by (cases command)
  then have c3: "su_store su3 = su_store su2" "clock_view su3 = clock_view su2"
    using apply_cas_store [of "lock_key (ident_tenant ident) ns key" live expected new_value "lock_consistency_level level" su2]
      apply_cas_view [of "lock_key (ident_tenant ident) ns key" live expected new_value "lock_consistency_level level" su2]
    by (simp_all add: command_def)
  define final where "final = (if cas_applied r3 then su3\<lparr>su_store := bt_insert skey (stored_value_new new_value 0 None) (su_store su2)\<rparr> else su3)"
  have commit: "cas_commit ident ns key live expected new_value level su2 = (r3, final)"
    using c c3 by (simp add: cas_commit_def command_def skey_def final_def)
  have finished: "su_lock_service final = su_lock_service su3" "clock_view final = clock_view su2"
    "su_store final = (if cas_applied r3 then bt_insert skey (stored_value_new new_value 0 None) (su_store su2) else su_store su2)"
    by (simp_all add: final_def c3)
  show ?thesis
  proof (cases "su_isolation su2")
    case None
    have "(r, su') = (r3, if cas_applied r3 then mutated ident ns (Some key) MutStored final else final)"
      unfolding h [symmetric] using small n l None commit unfolding handle_compare_and_set_def Let_def skey_def live_def by simp
    then have "r = r3" "su_store su' = su_store final" "su_lock_service su' = su_lock_service final" "clock_view su' = clock_view final" by simp_all
    then show ?thesis using c finished by simp
  next
    case (Some isol)
    define holds where "holds = (case expected of Exact x \<Rightarrow> live = Some x | Present \<Rightarrow> live \<noteq> None)"
    let ?commit = "\<lambda>(su, _). (case cas_commit ident ns key live expected new_value level su of (r, su) \<Rightarrow> (cas_applied r, su, Some r))"
    obtain adm isol' su4 result where a: "admit_put_if_committed (ident_client_id ident) ns (stable_key key) (of_nat (length new_value)) holds
        ?commit isol (su2, None) = (adm, isol', su4, result)"
      by (rule prod_cases4)
    let ?su5 = "if expired \<and> adm \<noteq> Inr True then forget_entry ident ns key (su4\<lparr>su_isolation := Some isol'\<rparr>) else su4\<lparr>su_isolation := Some isol'\<rparr>"
    let ?cas5 = "apply_compare_and_set (lock_key (ident_tenant ident) ns key) live expected new_value (lock_consistency_level level) ?su5"
    let ?rs = "case adm of Inl e \<Rightarrow> (Inl (admission_error e), ?su5) | Inr _ \<Rightarrow> (case result of Some r \<Rightarrow> (r, ?su5) | None \<Rightarrow> ?cas5)"
    obtain r6 su6 where cas: "?cas5 = (r6, su6)" by (cases ?cas5)
    have "(r, su') = (fst ?rs, if cas_applied (fst ?rs) then mutated ident ns (Some key) MutStored (snd ?rs) else snd ?rs)"
      unfolding h [symmetric] using small n l Some a [unfolded holds_def live_def] cas [unfolded live_def]
      unfolding handle_compare_and_set_def Let_def skey_def live_def
      by (cases adm; cases result) (simp_all split del: if_split cong: if_cong)
    then have r: "r = fst ?rs" "su_store su' = su_store (snd ?rs)" "su_lock_service su' = su_lock_service (snd ?rs)"
      "clock_view su' = clock_view (snd ?rs)"
      by (simp_all split: if_split)
    have five: "su_store ?su5 = su_store su4" "su_lock_service ?su5 = su_lock_service su4"
      "su_store (snd ?cas5) = su_store su4" "clock_view ?su5 = clock_view su4" "clock_view (snd ?cas5) = clock_view su4"
      by simp_all
    have "result = Some r3 \<and> su4 = final \<and> (\<exists>b. adm = Inr b) \<or> su4 = su2 \<and> result = None \<and> ((\<exists>e. adm = Inl e) \<or> \<not> holds \<and> adm = Inr False)"
      using admit_put_cases [OF a] commit by auto
    then show ?thesis
    proof
      assume "result = Some r3 \<and> su4 = final \<and> (\<exists>b. adm = Inr b)"
      then have "r = r3" "su_store su' = su_store final" "su_lock_service su' = su_lock_service final"
        "clock_view su' = clock_view final" using r five by auto
      then show ?thesis using c finished by simp
    next
      assume n: "su4 = su2 \<and> result = None \<and> ((\<exists>e. adm = Inl e) \<or> \<not> holds \<and> adm = Inr False)"
      then have "fst ?cas5 = r3 \<and> su_lock_service (snd ?cas5) = su_lock_service su3"
        using apply_cas_locks [OF five(2)] c by (simp add: command_def)
      then have "(\<exists>e. r = Inl e) \<and> su_store su' = su_store su2 \<and> su_lock_service su' = su_lock_service su2
          \<or> \<not> holds \<and> r = r3 \<and> su_store su' = su_store su2 \<and> su_lock_service su' = su_lock_service su3"
        "clock_view su' = clock_view su2"
        using n r five by auto
      then show ?thesis unfolding c holds_def by auto
    qed
  qed
qed

lemma handle_cas_yields: "yields (\<lambda>r. \<exists>c. r = cas_response c) (handle_compare_and_set ident ns key expected new_value level wall su)"
proof (cases "length new_value \<le> lim_max_value_bytes (su_limits su)")
  case True
  obtain now su1 where n: "now_ms wall su = (now, su1)" by (cases "now_ms wall su")
  obtain e expired su2 where l: "live_entry (store_key_of (ident_tenant ident) ns key) now su1 = (e, expired, su2)" by (rule prod_cases3)
  obtain r su' where h: "handle_compare_and_set ident ns key expected new_value level wall su = (r, su')"
    by (cases "handle_compare_and_set ident ns key expected new_value level wall su")
  from cas_outcome [OF h True n l] show ?thesis
    using apply_cas_yields [of "lock_key (ident_tenant ident) ns key" "map_option sv_value e" expected new_value "lock_consistency_level level" su2]
    by (auto simp: h yields_def)
next
  case False
  then show ?thesis by (simp add: handle_compare_and_set_def)
qed

lemma synced_command_Inr: "synced_command key live f su = (Inr r, su') \<Longrightarrow> \<exists>c. r = cas_response c"
  using synced_command_yields [of key live f su] by (simp add: yields_def)

lemma handle_remove_yields: "yields (\<lambda>r. \<exists>c. r = cas_response c) (handle_remove_if_value ident ns key expected level wall su)"
  unfolding handle_remove_if_value_def Let_def
  by (auto simp: yields_def split: prod.splits sum.splits dest!: admitted_result dest: synced_command_Inr)

lemma handle_operation_fits: "yields (response_fits request) (handle_operation ident rid ikey wall request su)"
proof (cases request)
  case (BatchGet ns keys)
  have "length vals = length keys" if "batch_read ident ns now keys su = (vals, expired, su')" for vals now expired su su'
    using batch_read_length [of ident ns now keys su] that by simp
  then show ?thesis
    by (auto simp: BatchGet handle_batch_get_def Let_def yields_def split: prod.splits sum.splits if_splits dest!: admitted_result)
next
  case (CompareAndSet ns key expected val level)
  then show ?thesis using handle_cas_yields by (simp add: yields_def)
next
  case (RemoveIfValue ns key expected level)
  then show ?thesis using handle_remove_yields by (simp add: yields_def)
next
  case (Put ns key val ttl dims)
  then show ?thesis
    by (auto simp: handle_put_def idempotency_check_def Let_def yields_def split: prod.splits sum.splits option.splits if_splits)
qed (auto simp: handle_expire_def handle_persist_def handle_compare_value_invalidate_def handle_compare_value_expire_def
    handle_get_ttl_def handle_conditional_put_def handle_try_lock_def handle_unlock_def handle_renew_lock_def handle_force_unlock_def
    handle_lock_ownership_def handle_batch_put_def handle_evict_region_def handle_subscribe_def Let_def
    intro!: handle_update_yields on_lock_service_yields split: prod.splits sum.splits option.splits if_splits)

lemma handle_operation_Inr: "handle_operation ident rid ikey wall request su = (Inr r, su') \<Longrightarrow> response_fits request r"
  using handle_operation_fits [of request ident rid ikey wall su] by (simp add: yields_def)

text \<open>
  C29. The response to a dispatched request echoes its identifier and has a supported protocol version. A successful response is
  of the kind the request asks for, a batch response has one item for every key in the order of the request, and the version of
  the envelope admits the response, so that its receiver does not reject it.
\<close>

theorem responses_well_typed:
  "let response = fst (dispatch_verified_request ident env wall su) in
     resp_id response = req_id env \<and> protocol_version_supported (resp_protocol_version response)
     \<and> (case resp_result response of
          Inl _ \<Rightarrow> True
        | Inr r \<Rightarrow> response_fits (req_request env) r \<and> response_minimum_version r \<le> resp_protocol_version response)"
proof (cases "authorized ident su")
  case True
  show ?thesis
  proof (cases "validate_protocol env")
    case (Inl e)
    then show ?thesis using True
      by (auto simp: dispatch_authorized handle_request_def Let_def protocol_version_supported_def)
  next
    case (Inr u)
    then have v: "protocol_version_supported (req_protocol_version env)"
      "minimum_protocol_version (req_request env) \<le> req_protocol_version env"
      using validate_protocol_ok by auto
    have "response_minimum_version r \<le> req_protocol_version env" if "response_fits (req_request env) r" for r
      using fits_version [OF that] v(2) by (rule order_trans)
    then show ?thesis using True Inr v(1)
      by (auto simp: dispatch_authorized handle_request_def Let_def dest!: handle_operation_Inr split: prod.splits sum.split)
  qed
next
  case False
  then obtain su' where "validate_tenant_identity ident CLIENT_DATA_PATH (Some (req_id env)) su = (False, su')"
    using validate_tenant_authorized by (metis (full_types) prod.collapse)
  then show ?thesis by (simp add: dispatch_verified_request_def Let_def protocol_version_supported_def)
qed

section \<open>Sample histories\<close>

definition sample_limits :: surface_limits where
  "sample_limits =
     \<lparr>lim_max_frame_bytes = 100, lim_max_value_bytes = 8, lim_max_batch_entries = 4, lim_max_batch_bytes = 64,
      lim_max_streams_per_connection = 1, lim_heartbeat_interval_ms = 1, lim_idle_timeout_ms = 1\<rparr>"

definition sample_tenant :: "string \<Rightarrow> string \<Rightarrow> tenant" where
  "sample_tenant t client =
     \<lparr>ten_id = t, ten_client_ids = {client}, ten_namespaces = [(''n'', \<lparr>quota_max_bytes = 10, quota_max_entries = 2\<rparr>)],
      ten_rate_limit_per_window = 100, ten_fair_share_per_window = 100, ten_max_subscriptions = 1\<rparr>"

definition sample_roster :: tenant_roster where
  "sample_roster =
     \<lparr>roster_tenants = [(''t'', sample_tenant ''t'' ''c''), (''u'', sample_tenant ''u'' ''d'')],
      roster_client_to_tenant = [(''c'', ''t''), (''d'', ''u'')]\<rparr>"

definition sample_isolation :: consumer_isolation where
  "sample_isolation = isolation_new sample_roster \<lparr>iso_max_value_bytes = 8, iso_max_request_bytes = 64, iso_max_batch_items = 4\<rparr>"

definition sample_surface :: "consumer_isolation option \<Rightarrow> client_surface" where
  "sample_surface isol = projr (surface_new sample_limits isol)"

definition sample_ident :: client_identity where
  "sample_ident = \<lparr>ident_client_id = ''c'', ident_tenant = ''t'', ident_admin = False\<rparr>"

definition sample_env :: "string option \<Rightarrow> client_request \<Rightarrow> request_envelope" where
  "sample_env ikey request =
     \<lparr>req_id = ''r'', req_protocol_version = PROTOCOL_VERSION, req_deadline_ms = None, req_idempotency_key = ikey, req_request = request\<rparr>"

abbreviation sample_key :: structured_key where
  "sample_key \<equiv> \<lparr>key_segments = [''k'']\<rparr>"

lemma sample_roster_new: "roster_new [sample_tenant ''t'' ''c'', sample_tenant ''u'' ''d''] = Inr sample_roster"
  by code_simp

lemma sample_surface_new: "surface_new sample_limits isol = Inr (sample_surface isol)"
  by (simp add: sample_surface_def surface_new_def limits_validate_def sample_limits_def)

lemma sample_quotas: "quotas_bounded sample_isolation"
  by (auto simp: quotas_bounded_def sample_isolation_def isolation_new_def tenant_quota_def sample_roster_def sample_tenant_def ok_or_def
      split: option.splits if_splits)

definition other_ident :: client_identity where
  "other_ident = \<lparr>ident_client_id = ''d'', ident_tenant = ''u'', ident_admin = False\<rparr>"

definition sample_history :: "surface_op list" where
  "sample_history = [OpDispatch sample_ident (sample_env None (Put ''n'' sample_key [1, 2, 3] None [])) (1, 2)]"


theorem quota_ledger_exact_witness:
  "\<exists>i. su_isolation (surface_run sample_history (sample_surface (Some sample_isolation))) = Some i
     \<and> unat (usage_bytes (usage_of ''t'' ''n'' i)) = 3 \<and> unat (usage_entries (usage_of ''t'' ''n'' i)) = 1"
proof -
  have "lim_max_value_bytes sample_limits < 2 ^ 64" by (simp add: sample_limits_def)
  from quota_ledger_exact [OF sample_roster_new sample_isolation_def sample_quotas this sample_surface_new refl, of sample_history]
  obtain i where "su_isolation (surface_run sample_history (sample_surface (Some sample_isolation))) = Some i"
    "unat (usage_bytes (usage_of ''t'' ''n'' i)) = tenant_bytes ''t'' ''n'' (surface_run sample_history (sample_surface (Some sample_isolation)))"
    "unat (usage_entries (usage_of ''t'' ''n'' i)) = length (tenant_entries ''t'' ''n'' (surface_run sample_history (sample_surface (Some sample_isolation))))"
    by blast
  moreover have "tenant_bytes ''t'' ''n'' (surface_run sample_history (sample_surface (Some sample_isolation))) = 3"
    "length (tenant_entries ''t'' ''n'' (surface_run sample_history (sample_surface (Some sample_isolation)))) = 1"
    by code_simp+
  ultimately show ?thesis by auto
qed

theorem tenants_do_not_interfere_witness:
  "bt_get (su_store (snd (dispatch_verified_request other_ident (sample_env None (EvictRegion ''n'')) (3, 4)
      (surface_run sample_history (sample_surface (Some sample_isolation)))))) (''t'', ''n'', ''k'') = Some \<lparr>sv_value = [1, 2, 3], sv_expires_at_ms = None\<rparr>"
proof -
  let ?su = "surface_run sample_history (sample_surface (Some sample_isolation))"
  let ?d = "dispatch_verified_request other_ident (sample_env None (EvictRegion ''n'')) (3, 4) ?su"
  have "bt_get (su_store ?su) (''t'', ''n'', ''k'') = Some \<lparr>sv_value = [1, 2, 3], sv_expires_at_ms = None\<rparr>" by code_simp
  from tenants_do_not_interfere [OF sample_roster_new sample_isolation_def sample_quotas sample_surface_new refl prod.collapse [symmetric] _ this,
      of other_ident "sample_env None (EvictRegion ''n'')" "(3, 4)"]
  show ?thesis by (simp add: is_expired_def other_ident_def)
qed

end
