(* ===== verification/Client_Surface_Refinement.thy ===== *)
theory Client_Surface_Refinement
  imports Client_Surface_Runs
begin

text \<open>
  The client surface as an expiring map: what every request answers and how it changes the live entries, with the sweep, the
  lazy removal of expired entries, admission and the conditional store behind compare-and-set abstracted away.
\<close>

section \<open>Specification\<close>

type_synonym entries = "store_key \<Rightarrow> stored_value option"

definition prune :: "u64 \<Rightarrow> entries \<Rightarrow> entries" where
  "prune now m = (\<lambda>k. case m k of Some e \<Rightarrow> if is_expired now e then None else Some e | None \<Rightarrow> None)"

text \<open>The live entries of a surface at a time.\<close>

definition live_map :: "u64 \<Rightarrow> client_surface \<Rightarrow> entries" where
  "live_map now su = prune now (bt_get (su_store su))"

text \<open>
  The specification on a map of live entries: the response, where the map determines it, and the entries afterwards. A put
  whose idempotency key was used before is a \<open>replay\<close>. The version of an applied compare-and-set is not determined.
\<close>

fun map_spec :: "string \<Rightarrow> bool \<Rightarrow> u64 \<Rightarrow> client_request \<Rightarrow> entries \<Rightarrow> client_response option \<times> entries" where
  "map_spec t replay now (Get ns key) m = (Some (RespValue (map_option sv_value (m (store_key_of t ns key)))), m)"
| "map_spec t replay now (Put ns key val ttl _) m =
     (Some RespStored, if replay then m else m(store_key_of t ns key \<mapsto> stored_value_new val now ttl))"
| "map_spec t replay now (Invalidate ns key) m = (Some RespInvalidated, m(store_key_of t ns key := None))"
| "map_spec t replay now (BatchGet ns keys) m =
     (Some (RespBatch (batch_items (map (\<lambda>key. map_option sv_value (m (store_key_of t ns key))) keys))), m)"
| "map_spec t replay now (BatchPut ns entries) m =
     (Some (RespBatch (batch_items (replicate (length entries) None))),
      fold (\<lambda>(key, val) m. m(store_key_of t ns key \<mapsto> stored_value_new val 0 None)) entries m)"
| "map_spec t replay now (Expire ns key ttl) m =
     (let k = store_key_of t ns key in
      (Some (RespExpiry (m k \<noteq> None)), m(k := map_option (\<lambda>e. e\<lparr>sv_expires_at_ms := Some (sat_add now ttl)\<rparr>) (m k))))"
| "map_spec t replay now (Persist ns key) m =
     (let k = store_key_of t ns key in
      (Some (RespExpiry (case m k of Some e \<Rightarrow> sv_expires_at_ms e \<noteq> None | None \<Rightarrow> False)),
       m(k := map_option (\<lambda>e. e\<lparr>sv_expires_at_ms := None\<rparr>) (m k))))"
| "map_spec t replay now (GetTtl ns key) m =
     (Some (RespTtl (case m (store_key_of t ns key) of
        None \<Rightarrow> TtlMissing
      | Some e \<Rightarrow> (case sv_expires_at_ms e of None \<Rightarrow> TtlPersistent | Some d \<Rightarrow> TtlExpiresIn (d - now)))), m)"
| "map_spec t replay now (ConditionalPut ns key val ttl condition) m =
     (let k = store_key_of t ns key;
          holds = (case condition of IfAbsent \<Rightarrow> m k = None | IfPresentValue x \<Rightarrow> map_option sv_value (m k) = Some x)
      in (Some (RespConditionalStored holds), if holds then m(k \<mapsto> stored_value_new val now ttl) else m))"
| "map_spec t replay now (CompareValueAndInvalidate ns key expected) m =
     (let k = store_key_of t ns key; holds = (map_option sv_value (m k) = Some expected)
      in (Some (RespCompareValueApplied holds), if holds then m(k := None) else m))"
| "map_spec t replay now (CompareValueAndExpire ns key expected ttl mode) m =
     (let k = store_key_of t ns key in
      case m k of
        None \<Rightarrow> (Some (RespCompareValueApplied False), m)
      | Some e \<Rightarrow>
          let holds = (sv_value e = expected \<and> (mode = Replace \<or> sv_expires_at_ms e \<noteq> None));
              base = (if mode = AddToRemaining then the (sv_expires_at_ms e) else now)
          in (Some (RespCompareValueApplied holds),
              if holds then m(k \<mapsto> e\<lparr>sv_expires_at_ms := Some (sat_add base ttl)\<rparr>) else m))"
| "map_spec t replay now (EvictRegion ns) m = (Some RespEvicted, \<lambda>k. if fst k = t \<and> fst (snd k) = ns then None else m k)"
| "map_spec t replay now (CompareAndSet ns key expected val _) m =
     (let k = store_key_of t ns key; current = map_option sv_value (m k);
          holds = (case expected of Exact x \<Rightarrow> current = Some x | Present \<Rightarrow> current \<noteq> None)
      in (Some (if holds then RespCasApplied 0 else RespCasMismatch current),
          if holds then m(k \<mapsto> stored_value_new val 0 None) else m))"
| "map_spec t replay now (RemoveIfValue ns key expected _) m =
     (let k = store_key_of t ns key; current = map_option sv_value (m k); holds = (current = Some expected)
      in (Some (if holds then RespCasApplied 0 else RespCasMismatch current), if holds then m(k := None) else m))"
| "map_spec t replay now _ m = (None, m)"

fun erase_version :: "client_response \<Rightarrow> client_response" where
  "erase_version (RespCasApplied _) = RespCasApplied 0"
| "erase_version r = r"

text \<open>A result that meets a specification: an error changes no live entry.\<close>

definition meets :: "u64 \<Rightarrow> entries \<Rightarrow> client_response option \<times> entries \<Rightarrow> surface_result \<times> client_surface \<Rightarrow> bool" where
  "meets now m spec res \<longleftrightarrow>
     (case fst res of
        Inl _ \<Rightarrow> live_map now (snd res) = m
      | Inr r \<Rightarrow> (case fst spec of None \<Rightarrow> True | Some r' \<Rightarrow> erase_version r = r') \<and> live_map now (snd res) = prune now (snd spec))"

section \<open>Live entries\<close>

lemma prune_idem [simp]: "prune now (prune now m) = prune now m"
  by (auto simp: prune_def split: option.split)

lemma live_prune [simp]: "prune now (live_map now su) = live_map now su"
  by (simp add: live_map_def)

lemma live_cong: "su_store su' = su_store su \<Longrightarrow> live_map now su' = live_map now su"
  by (simp add: live_map_def)

lemma live_insert: "su_store su' = bt_insert k e (su_store su) \<Longrightarrow> live_map now su' = prune now ((live_map now su)(k \<mapsto> e))"
  by (auto simp: live_map_def prune_def split: option.split)

lemma live_remove: "su_store su' = bt_remove k (su_store su) \<Longrightarrow> live_map now su' = (live_map now su)(k := None)"
  by (auto simp: live_map_def prune_def split: option.split)

lemma prune_remove [simp]: "prune now ((live_map now su)(k := None)) = (live_map now su)(k := None)"
  by (auto simp: live_map_def prune_def split: option.split)

lemma live_entry_live:
  assumes "live_entry k now su = (e, expired, su')"
  shows "e = live_map now su k" "live_map now su' = live_map now su" "su_lock_service su' = su_lock_service su"
    "expired \<Longrightarrow> e = None" "\<not> expired \<Longrightarrow> su' = su"
  using assms by (auto simp: live_entry_def live_map_def prune_def fun_eq_iff split: option.splits if_splits)

lemma live_not_expired: "live_map now su k = Some e \<Longrightarrow> bt_get (su_store su) k = Some e \<and> \<not> is_expired now e"
  by (auto simp: live_map_def prune_def split: option.splits if_splits)

lemma live_cases:
  obtains "live_map now su k = None" | e where "live_map now su k = Some e" "bt_get (su_store su) k = Some e" "\<not> is_expired now e"
  using live_not_expired by (cases "live_map now su k") auto

lemma admitted_cases:
  assumes "with_admitted_store ident f su = (r, su')"
  obtains e where "r = Inl e" "su_store su' = su_store su" "su_lock_service su' = su_lock_service su"
  | v su1 where "r = Inr v" "f su1 = (v, su')" "su_store su1 = su_store su" "su_lock_service su1 = su_lock_service su"
  using assms by (auto simp: with_admitted_store_def split: option.splits prod.splits sum.splits)

lemma admit_put_outcome:
  assumes "admit_put ident ns key n holds (insert_value skey e) su = (r, su')"
  shows "(\<exists>err. r = Inl err) \<and> su_store su' = su_store su \<or> r = Inr False \<and> \<not> holds \<and> su_store su' = su_store su
       \<or> r = Inr True \<and> holds \<and> su_store su' = bt_insert skey e (su_store su)"
proof (cases "su_isolation su")
  case None
  with assms show ?thesis by (auto simp: admit_put_def split: if_splits)
next
  case (Some isol)
  obtain r' isol' su1 where a: "admit_put_if_committed (ident_client_id ident) ns (stable_key key) (of_nat n) holds (insert_value skey e) isol su
      = (r', isol', su1)" by (rule prod_cases3)
  with assms Some have "r = (case r' of Inl e \<Rightarrow> Inl (admission_error e) | Inr b \<Rightarrow> Inr b)" "su_store su' = su_store su1"
    by (auto simp: admit_put_def split: sum.splits)
  then show ?thesis using admit_put_cases [OF a] by auto
qed

section \<open>Handlers\<close>

lemma now_sel:
  assumes "now_ms wall su = (now, su1)"
  shows "su_store su1 = su_store su" "live_map t su1 = live_map t su" "su_lock_service su1 = su_lock_service su" "su_limits su1 = su_limits su"
    "su_idempotency su1 = su_idempotency su"
  using assms by (auto simp: now_ms_def Let_def live_map_def)

lemma meets_simps [simp]:
  "meets now m spec (Inl e, su) \<longleftrightarrow> live_map now su = m"
  "meets now m spec (Inr r, su) \<longleftrightarrow>
     (case fst spec of None \<Rightarrow> True | Some r' \<Rightarrow> erase_version r = r') \<and> live_map now su = prune now (snd spec)"
  by (simp_all add: meets_def)

lemma meets_core: "core su' = core su \<Longrightarrow> meets now m spec (r, su') \<longleftrightarrow> meets now m spec (r, su)"
  by (auto dest!: core_eqD simp: meets_def live_map_def split: sum.split)

text \<open>A handler that runs a closure on the admitted store, by the closure.\<close>

lemma meets_admitted:
  assumes "m = live_map now su"
    and "\<And>su1 v su2. f su1 = (v, su2) \<Longrightarrow> m = live_map now su1 \<Longrightarrow> meets now m spec (Inr (response v), su2)"
    and "\<And>v su2. core (g v su2) = core su2"
  shows "meets now m spec
    (case with_admitted_store ident f su of (Inl e, su) \<Rightarrow> (Inl e, su) | (Inr v, su) \<Rightarrow> (Inr (response v), g v su))"
proof -
  obtain r su' where w: "with_admitted_store ident f su = (r, su')" by (cases "with_admitted_store ident f su")
  then show ?thesis
  proof (cases rule: admitted_cases)
    case (1 e)
    with w assms(1) show ?thesis using live_cong [OF 1(2), of now] by simp
  next
    case (2 v su1)
    then have "m = live_map now su1" using assms(1) live_cong [OF 2(3)] by simp
    then have "meets now m spec (Inr (response v), su')" using assms(2) 2(2) by blast
    then have "meets now m spec (Inr (response v), g v su')" using meets_core [OF assms(3)] by blast
    then show ?thesis using w 2(1) by simp
  qed
qed

lemma forget_live [simp]: "live_map now (forget_entry ident ns key su) = live_map now su"
  by (rule live_cong) simp

lemma read_entry_live:
  "read_entry ident ns key now su = (v, su') \<Longrightarrow>
   v = map_option sv_value (live_map now su (store_key_of (ident_tenant ident) ns key)) \<and> live_map now su' = live_map now su"
  by (auto simp: read_entry_def dest: live_entry_live(1,2) split: prod.splits if_splits)

lemma batch_read_live:
  "batch_read ident ns now keys su = (vals, expired, su') \<Longrightarrow>
   vals = map (\<lambda>key. map_option sv_value (live_map now su (store_key_of (ident_tenant ident) ns key))) keys
   \<and> live_map now su' = live_map now su"
proof (induction keys arbitrary: su su' vals expired)
  case (Cons key keys)
  obtain e gone su1 where l: "live_entry (store_key_of (ident_tenant ident) ns key) now su = (e, gone, su1)" by (rule prod_cases3)
  obtain vals1 expired1 su2 where b: "batch_read ident ns now keys su1 = (vals1, expired1, su2)" by (rule prod_cases3)
  show ?case using Cons.prems Cons.IH [OF b] live_entry_live(1,2) [OF l] l b by auto
qed simp

lemma fold_forget_live [simp]: "live_map now (fold (forget_entry ident ns) keys su) = live_map now su"
  by (induction keys arbitrary: su) simp_all

lemma get_meets:
  assumes n: "now_ms wall su = (now, su1)" and m: "m = live_map now su"
  shows "meets now m (map_spec (ident_tenant ident) replay now (Get ns key) m) (handle_operation ident rid ikey wall (Get ns key) su)"
proof -
  have "meets now m (map_spec (ident_tenant ident) replay now (Get ns key) m)
      (case with_admitted_store ident (read_entry ident ns key now) su1 of (Inl e, su) \<Rightarrow> (Inl e, su) | (Inr v, su) \<Rightarrow> (Inr (RespValue v), su))"
    by (rule meets_admitted [where g = "\<lambda>_ su. su"]) (auto simp: m now_sel(2) [OF n] dest!: read_entry_live)
  then show ?thesis using n by simp
qed

lemma batch_get_meets:
  assumes n: "now_ms wall su = (now, su1)" and m: "m = live_map now su"
  shows "meets now m (map_spec (ident_tenant ident) replay now (BatchGet ns keys) m) (handle_batch_get ident ns keys wall su)"
proof -
  let ?f = "\<lambda>su. case batch_read ident ns now keys su of
    (vals, expired_keys, su) \<Rightarrow> (batch_items vals, fold (forget_entry ident ns) expired_keys su)"
  have "meets now m (map_spec (ident_tenant ident) replay now (BatchGet ns keys) m)
      (case with_admitted_store ident ?f su1 of (Inl e, su) \<Rightarrow> (Inl e, su) | (Inr v, su) \<Rightarrow> (Inr (RespBatch v), su))"
    by (rule meets_admitted [where g = "\<lambda>_ su. su"])
      (auto simp: m now_sel(2) [OF n] dest!: batch_read_live split: prod.splits)
  then show ?thesis using n m by (auto simp: handle_batch_get_def Let_def split: prod.splits sum.splits)
qed

lemma invalidate_meets:
  assumes m: "m = live_map now su"
  shows "meets now m (map_spec (ident_tenant ident) replay now (Invalidate ns key) m) (handle_operation ident rid ikey wall (Invalidate ns key) su)"
proof -
  have "(live_map now su1)(k := None) = live_map now su1" if "bt_get (su_store su1) k = None" for k su1
    using that by (auto simp: live_map_def prune_def)
  then show ?thesis unfolding handle_operation.simps Let_def
    by (intro meets_admitted) (auto simp: m intro!: live_remove split: if_splits)
qed

lemma update_live_live:
  assumes "update_live ident ns key now update su = (applied, su')"
  defines "k \<equiv> store_key_of (ident_tenant ident) ns key"
  shows "case live_map now su k of
      None \<Rightarrow> \<not> applied \<and> live_map now su' = live_map now su
    | Some e \<Rightarrow> applied = fst (update e) \<and> live_map now su' = prune now ((live_map now su)(k := snd (update e)))"
proof -
  obtain e expired su1 where l: "live_entry k now su = (e, expired, su1)" by (rule prod_cases3)
  note ll = live_entry_live(1,2) [OF l]
  show ?thesis
  proof (cases e)
    case None
    then have "\<not> applied \<and> live_map now su' = live_map now su"
      using assms(1) l ll(2) by (auto simp: update_live_def Let_def k_def [symmetric] split: if_splits)
    with None ll(1) show ?thesis by simp
  next
    case (Some e')
    obtain a r where u: "update e' = (a, r)" by (cases "update e'")
    have "applied = a \<and> live_map now su' = prune now ((live_map now su)(k := r))"
    proof (cases r)
      case None
      then have "applied = a" "su_store su' = bt_remove k (su_store su1)"
        using assms(1) l Some u by (auto simp: update_live_def Let_def k_def [symmetric])
      then show ?thesis using live_remove [of su' k su1 now] None ll(2) by simp
    next
      case (Some r')
      then have "applied = a" "su_store su' = bt_insert k r' (su_store su1)"
        using assms(1) l \<open>e = Some e'\<close> u by (auto simp: update_live_def Let_def k_def [symmetric])
      then show ?thesis using live_insert [of su' k r' su1 now] Some ll(2) by simp
    qed
    with Some ll(1) u show ?thesis by simp
  qed
qed

lemma update_meets:
  assumes n: "now_ms wall su = (now, su1)" and m: "m = live_map now su"
    and "\<forall>e. m (store_key_of (ident_tenant ident) ns key) = Some e \<longrightarrow>
           spec = (Some (response (fst (update now e))), m(store_key_of (ident_tenant ident) ns key := snd (update now e)))"
    and "m (store_key_of (ident_tenant ident) ns key) = None \<longrightarrow> spec = (Some (response False), m)"
    and "\<forall>b. erase_version (response b) = response b"
  shows "meets now m spec (handle_update ident ns key update kind response wall su)"
proof -
  let ?k = "store_key_of (ident_tenant ident) ns key"
  have "meets now m spec (Inr (response v), su3)" if "update_live ident ns key now (update now) su2 = (v, su3)" "m = live_map now su2" for su2 v su3
    using update_live_live [OF that(1)] assms(3-5) that(2) by (cases "m ?k") auto
  then have "meets now m spec (case with_admitted_store ident (update_live ident ns key now (update now)) su1 of
      (Inl e, su) \<Rightarrow> (Inl e, su) | (Inr v, su) \<Rightarrow> (Inr (response v), if v then mutated ident ns (Some key) kind su else su))"
    using m now_sel(2) [OF n] by (intro meets_admitted) simp_all
  then show ?thesis using n by (simp add: handle_update_def)
qed

lemma expire_meets:
  assumes n: "now_ms wall su = (now, su1)" and m: "m = live_map now su"
  shows "meets now m (map_spec (ident_tenant ident) replay now (Expire ns key ttl) m) (handle_expire ident ns key ttl wall su)"
    and "meets now m (map_spec (ident_tenant ident) replay now (Persist ns key) m) (handle_persist ident ns key wall su)"
    and "meets now m (map_spec (ident_tenant ident) replay now (CompareValueAndInvalidate ns key expected) m)
           (handle_compare_value_invalidate ident ns key expected wall su)"
    and "meets now m (map_spec (ident_tenant ident) replay now (CompareValueAndExpire ns key expected ttl mode) m)
           (handle_compare_value_expire ident ns key expected ttl mode wall su)"
  unfolding handle_expire_def handle_persist_def handle_compare_value_invalidate_def handle_compare_value_expire_def
  by (auto simp: m Let_def extend_expiry_def intro!: update_meets [OF n] split: option.splits compare_value_expire_mode.splits)

lemma ttl_missing: "entry_ttl_state now e = TtlMissing \<longleftrightarrow> is_expired now e"
  by (simp add: entry_ttl_state_def is_expired_def split: option.split)

lemma ttl_live:
  "\<not> is_expired now e \<Longrightarrow>
   entry_ttl_state now e = (case sv_expires_at_ms e of None \<Rightarrow> TtlPersistent | Some d \<Rightarrow> TtlExpiresIn (d - now))"
  by (auto simp: entry_ttl_state_def is_expired_def sat_sub_def split: option.split)

lemma get_ttl_meets:
  assumes n: "now_ms wall su = (now, su1)" and m: "m = live_map now su"
  shows "meets now m (map_spec (ident_tenant ident) replay now (GetTtl ns key) m) (handle_get_ttl ident ns key wall su)"
proof -
  define k where "k = store_key_of (ident_tenant ident) ns key"
  let ?f = "\<lambda>su. case bt_get (su_store su) k of
      None \<Rightarrow> (TtlMissing, su)
    | Some e \<Rightarrow> let state = entry_ttl_state now e in
        if state = TtlMissing then (state, forget_entry ident ns key (su\<lparr>su_store := bt_remove k (su_store su)\<rparr>)) else (state, su)"
  have closure: "meets now m (map_spec (ident_tenant ident) replay now (GetTtl ns key) m) (Inr (RespTtl v), su3)"
    if f: "?f su2 = (v, su3)" and "m = live_map now su2" for v su2 su3
  proof (cases "bt_get (su_store su2) k")
    case None
    then have "m k = None" using that(2) by (simp add: live_map_def prune_def)
    then show ?thesis using f None that(2) by (simp add: k_def)
  next
    case (Some e)
    show ?thesis
    proof (cases "is_expired now e")
      case True
      then have "m k = None" using Some that(2) by (simp add: live_map_def prune_def)
      moreover have "v = TtlMissing" "su_store su3 = bt_remove k (su_store su2)"
        using f Some True by (auto simp: ttl_missing)
      ultimately show ?thesis using live_remove [of su3 k su2 now] that(2) by (auto simp: k_def fun_upd_idem)
    next
      case False
      then have "m k = Some e" using Some that(2) by (simp add: live_map_def prune_def)
      moreover have "v = entry_ttl_state now e" "su3 = su2" using f Some False by (auto simp: ttl_missing)
      ultimately show ?thesis using ttl_live [OF False] that(2) by (simp add: k_def)
    qed
  qed
  have "meets now m (map_spec (ident_tenant ident) replay now (GetTtl ns key) m)
      (case with_admitted_store ident ?f su1 of (Inl e, su) \<Rightarrow> (Inl e, su) | (Inr v, su) \<Rightarrow> (Inr (RespTtl v), su))"
    by (rule meets_admitted [where g = "\<lambda>_ su. su", OF _ closure]) (simp_all add: m now_sel(2) [OF n])
  then show ?thesis unfolding handle_get_ttl_def k_def [symmetric] n prod.case .
qed

lemma conditional_put_meets:
  assumes n: "now_ms wall su = (now, su1)" and m: "m = live_map now su"
  shows "meets now m (map_spec (ident_tenant ident) replay now (ConditionalPut ns key val ttl condition) m)
           (handle_conditional_put ident ns key val ttl condition wall su)"
proof -
  define k where "k = store_key_of (ident_tenant ident) ns key"
  obtain e expired su2 where l: "live_entry k now su1 = (e, expired, su2)" by (rule prod_cases3)
  have e: "e = m k" "live_map now su2 = m" using live_entry_live(1,2) [OF l] now_sel(2) [OF n] m by auto
  define holds where "holds = (case condition of IfAbsent \<Rightarrow> m k = None | IfPresentValue x \<Rightarrow> map_option sv_value (m k) = Some x)"
  have holds: "(case condition of IfAbsent \<Rightarrow> e = None | IfPresentValue expected \<Rightarrow> (case e of Some x \<Rightarrow> sv_value x = expected | None \<Rightarrow> False)) = holds"
    unfolding holds_def e(1) by (simp split: conditional_put_condition.split option.split)
  obtain r su3 where a: "admit_put ident ns key (length val) holds (insert_value k (stored_value_new val now ttl)) su2 = (r, su3)"
    by (cases "admit_put ident ns key (length val) holds (insert_value k (stored_value_new val now ttl)) su2")
  let ?su4 = "if expired \<and> r \<noteq> Inr True then forget_entry ident ns key su3 else su3"
  let ?res = "case r of Inl e \<Rightarrow> (Inl e, ?su4) | Inr stored \<Rightarrow> (Inr (RespConditionalStored stored), if stored then mutated ident ns (Some key) MutStored ?su4 else ?su4)"
  have live4: "live_map now ?su4 = live_map now su3" "live_map now (mutated ident ns (Some key) MutStored ?su4) = live_map now su3"
    by (auto intro!: live_cong)
  have "meets now m (map_spec (ident_tenant ident) replay now (ConditionalPut ns key val ttl condition) m) ?res"
    using admit_put_outcome [OF a] live_cong [of su3 su2 now] live_insert [of su3 k _ su2 now] e(2) live4 live_prune [of now su2]
    by (auto simp: Let_def k_def [symmetric] holds_def [symmetric])
  moreover have "handle_conditional_put ident ns key val ttl condition wall su = ?res \<or> (\<exists>e. handle_conditional_put ident ns key val ttl condition wall su = (Inl e, su))"
    using n l a holds unfolding handle_conditional_put_def Let_def k_def by (simp split: sum.split)
  ultimately show ?thesis using m by auto
qed

text \<open>Whether the idempotency key of a put has an outcome that has not expired.\<close>

definition replayed :: "client_identity \<Rightarrow> string option \<Rightarrow> u64 \<Rightarrow> client_surface \<Rightarrow> bool" where
  "replayed ident ikey now su =
     (case ikey of
        Some k \<Rightarrow> (case bt_get (su_idempotency su) (ident_tenant ident, k) of Some expires \<Rightarrow> now < expires | None \<Rightarrow> False)
      | None \<Rightarrow> False)"

lemma idempotency_outcome:
  assumes "idempotency_check (ident_tenant ident, k) now su = (r, su')" "bt_ok (su_idempotency su)"
  shows "su_store su' = su_store su" "replayed ident (Some k) now su \<Longrightarrow> r = Some (Inr RespStored)"
    "\<not> replayed ident (Some k) now su \<Longrightarrow> r = None \<or> (\<exists>e. r = Some (Inl e))"
  using assms
  by (auto simp: idempotency_check_def Let_def replayed_def bt_get_retain split: option.splits if_splits)

lemma put_meets:
  assumes n: "now_ms wall su = (now, su1)" and m: "m = live_map now su" and ok: "bt_ok (su_idempotency su)"
  shows "meets now m (map_spec (ident_tenant ident) (replayed ident ikey now su) now (Put ns key val ttl dims) m)
           (handle_put ident ikey ns key val ttl wall su)"
proof (cases "lim_max_value_bytes (su_limits su) < length val")
  case True
  then show ?thesis by (simp add: handle_put_def m)
next
  case False
  define k where "k = store_key_of (ident_tenant ident) ns key"
  define replay where "replay = replayed ident ikey now su"
  have replay1: "replayed ident ikey now su1 = replay" using now_sel(5) [OF n] by (simp add: replay_def replayed_def split: option.split)
  obtain early su2 where i: "(case ikey of Some k \<Rightarrow> idempotency_check (ident_tenant ident, k) now su1 | None \<Rightarrow> (None, su1)) = (early, su2)"
    by (cases "case ikey of Some k \<Rightarrow> idempotency_check (ident_tenant ident, k) now su1 | None \<Rightarrow> (None, su1)")
  have ok1: "bt_ok (su_idempotency su1)" using ok now_sel(5) [OF n] by simp
  have i2: "su_store su2 = su_store su1 \<and> (replay \<longrightarrow> early = Some (Inr RespStored)) \<and> (\<not> replay \<longrightarrow> early = None \<or> (\<exists>e. early = Some (Inl e)))"
  proof (cases ikey)
    case None
    then show ?thesis using i replay1 by (simp add: replayed_def)
  next
    case (Some k)
    then have "idempotency_check (ident_tenant ident, k) now su1 = (early, su2)" using i by simp
    from idempotency_outcome [OF this ok1] replay1 Some show ?thesis by simp
  qed
  have live2: "live_map now su2 = m" unfolding m using i2 now_sel(1) [OF n] by (intro live_cong) simp
  obtain r su3 where a: "admit_put ident ns key (length val) True (insert_value k (stored_value_new val now ttl)) su2 = (r, su3)"
    by (cases "admit_put ident ns key (length val) True (insert_value k (stored_value_new val now ttl)) su2")
  let ?su4 = "case ikey of Some k \<Rightarrow> su3\<lparr>su_idempotency := bt_insert (ident_tenant ident, k)
      (sat_add now CLIENT_SURFACE_IDEMPOTENCY_TTL_MS) (su_idempotency su3)\<rparr> | None \<Rightarrow> su3"
  have live4: "live_map now (mutated ident ns (Some key) MutStored ?su4) = live_map now su3"
    by (rule live_cong) (simp split: option.split)
  have h: "handle_put ident ikey ns key val ttl wall su =
      (case early of Some result \<Rightarrow> (result, su2)
       | None \<Rightarrow> (case r of Inl e \<Rightarrow> (Inl e, su3) | Inr _ \<Rightarrow> (Inr RespStored, mutated ident ns (Some key) MutStored ?su4)))"
    using False n i a unfolding handle_put_def Let_def k_def [symmetric] by (simp split: option.split sum.split)
  have put: "live_map now su3 = (case r of Inl _ \<Rightarrow> m | Inr _ \<Rightarrow> prune now (m(k \<mapsto> stored_value_new val now ttl)))"
    using admit_put_outcome [OF a] live_cong [of su3 su2 now] live_insert [of su3 k "stored_value_new val now ttl" su2 now] live2 by auto
  show ?thesis
  proof (cases early)
    case None
    with i2 have "\<not> replay" by auto
    with None show ?thesis unfolding h replay_def [symmetric] using put live4 by (simp add: k_def split: sum.split)
  next
    case (Some result)
    with i2 show ?thesis unfolding h replay_def [symmetric] using live2 live_prune [of now su2] by (cases replay) auto
  qed
qed

lemma prune_update: "prune now ((prune now m)(k \<mapsto> e)) = prune now (m(k \<mapsto> e))"
  by (auto simp: prune_def split: option.split)

lemma fold_puts_prune:
  "prune now (fold (\<lambda>(key, val) m. m(f key \<mapsto> g val)) entries (prune now m)) = prune now (fold (\<lambda>(key, val) m. m(f key \<mapsto> g val)) entries m)"
proof (induction entries arbitrary: m)
  case (Cons x entries)
  obtain key val where x: "x = (key, val)" by (cases x)
  have "prune now (fold (\<lambda>(key, val) m. m(f key \<mapsto> g val)) entries ((prune now m)(f key \<mapsto> g val)))
      = prune now (fold (\<lambda>(key, val) m. m(f key \<mapsto> g val)) entries (prune now ((prune now m)(f key \<mapsto> g val))))"
    by (rule Cons.IH [symmetric])
  also have "\<dots> = prune now (fold (\<lambda>(key, val) m. m(f key \<mapsto> g val)) entries (m(f key \<mapsto> g val)))"
    by (simp only: prune_update Cons.IH)
  finally show ?case by (simp only: x fold_Cons comp_apply prod.case)
qed simp

lemma fold_insert_get:
  "bt_get (fold (\<lambda>(key, val). bt_insert (f key) (g val)) entries store) = fold (\<lambda>(key, val) m. m(f key \<mapsto> g val)) entries (bt_get store)"
proof (induction entries arbitrary: store)
  case (Cons x entries)
  obtain key val where x: "x = (key, val)" by (cases x)
  have "bt_get (bt_insert (f key) (g val) store) = (bt_get store)(f key \<mapsto> g val)" by (auto simp: fun_eq_iff)
  then show ?case by (simp only: x fold_Cons comp_apply prod.case Cons.IH)
qed simp

lemma fold_mutations_live [simp]: "live_map now (fold (\<lambda>(key, _). record_mutation ident ns (Some key) kind) es su) = live_map now su"
  by (rule live_cong) (use core_eqD [OF core_fold_mutations] in blast)

lemma batch_put_meets:
  assumes m: "m = live_map now su"
  shows "meets now m (map_spec (ident_tenant ident) replay now (BatchPut ns entries) m) (handle_batch_put ident ns entries su)"
proof -
  let ?commit = "\<lambda>su. (True, su\<lparr>su_store := fold (\<lambda>(key, val). bt_insert (store_key_of (ident_tenant ident) ns key)
      (stored_value_new val 0 None)) entries (su_store su)\<rparr>)"
  let ?quota = "map (\<lambda>(key, val). (stable_key key, of_nat (length val))) entries"
  define admit where "admit = (case su_isolation su of
      Some isol \<Rightarrow> (case admit_batch_put_if_committed (ident_client_id ident) ns ?quota ?commit isol su of (r, isol, su) \<Rightarrow> (r, su\<lparr>su_isolation := Some isol\<rparr>))
    | None \<Rightarrow> (Inr True, snd (?commit su)))"
  obtain r su1 where a: "admit = (r, su1)" by (cases admit)
  have "(\<exists>e. r = Inl e) \<and> su_store su1 = su_store su \<or> (\<exists>b. r = Inr b) \<and> su_store su1 = su_store (snd (?commit su))"
  proof (cases "su_isolation su")
    case None
    then show ?thesis using a by (auto simp: admit_def)
  next
    case (Some isol)
    obtain r' isol' su' where b: "admit_batch_put_if_committed (ident_client_id ident) ns ?quota ?commit isol su = (r', isol', su')" by (rule prod_cases3)
    then have "r = r'" "su_store su1 = su_store su'" using a Some by (auto simp: admit_def)
    then show ?thesis using admit_batch_cases [OF b] by auto
  qed
  then have "(\<exists>e. r = Inl e) \<and> live_map now su1 = m \<or> (\<exists>b. r = Inr b) \<and> live_map now su1 = live_map now (snd (?commit su))"
    using m live_cong [of su1 su now] live_cong [of su1 "snd (?commit su)" now] by blast
  moreover define puts where "puts = fold (\<lambda>(key, val) m. m(store_key_of (ident_tenant ident) ns key \<mapsto> stored_value_new val 0 None)) entries m"
  moreover have "live_map now (snd (?commit su)) = prune now puts"
    unfolding puts_def m live_map_def snd_conv fold_puts_prune by (simp add: fold_insert_get)
  ultimately have live1: "(\<exists>e. r = Inl e) \<and> live_map now su1 = m \<or> (\<exists>b. r = Inr b) \<and> live_map now su1 = prune now puts"
    by simp
  have "(\<exists>e. handle_batch_put ident ns entries su = (Inl e, su)) \<or> handle_batch_put ident ns entries su =
      (case r of Inl e \<Rightarrow> (Inl (admission_error e), su1)
       | Inr _ \<Rightarrow> (Inr (RespBatch (batch_items (replicate (length entries) None))),
           fold (\<lambda>(key, _). record_mutation ident ns (Some key) MutStored) entries (su1\<lparr>su_state_mutations := su_state_mutations su1 + of_nat (length entries)\<rparr>)))"
    unfolding handle_batch_put_def Let_def admit_def [symmetric] a by (simp split: sum.split)
  moreover have "live_map now (su1\<lparr>su_state_mutations := su_state_mutations su1 + of_nat (length entries)\<rparr>) = live_map now su1"
    by (rule live_cong) simp
  ultimately show ?thesis using live1 m unfolding map_spec.simps puts_def [symmetric] by auto
qed

lemma evict_meets:
  assumes m: "m = live_map now su" and ok: "bt_ok (su_store su)"
  shows "meets now m (map_spec (ident_tenant ident) replay now (EvictRegion ns) m) (handle_evict_region ident ns su)"
proof -
  let ?evict = "\<lambda>su. su\<lparr>su_store := bt_retain (\<lambda>(t, n, _) _. t \<noteq> ident_tenant ident \<or> n \<noteq> ns) (su_store su)\<rparr>"
  have live: "live_map now su2 = prune now (\<lambda>k. if fst k = ident_tenant ident \<and> fst (snd k) = ns then None else m k)"
    if "su_store su2 = su_store (?evict su)" for su2
    using that ok m by (auto simp: live_map_def prune_def bt_get_retain fun_eq_iff split: option.split)
  show ?thesis
  proof (cases "su_isolation su")
    case None
    then show ?thesis using live [of "mutated ident ns None MutNamespaceEvicted (?evict su)"] by (simp add: handle_evict_region_def Let_def)
  next
    case (Some isol)
    obtain r isol' where e: "evict_namespace (ident_client_id ident) ns isol = (r, isol')" by (cases "evict_namespace (ident_client_id ident) ns isol")
    show ?thesis
    proof (cases r)
      case (Inl err)
      have "live_map now (su\<lparr>su_isolation := Some isol'\<rparr>) = m" unfolding m by (rule live_cong) simp
      then show ?thesis using Some e Inl by (simp add: handle_evict_region_def Let_def)
    next
      case (Inr n)
      then show ?thesis using Some e live [of "mutated ident ns None MutNamespaceEvicted (?evict (su\<lparr>su_isolation := Some isol'\<rparr>))"]
        by (simp add: handle_evict_region_def Let_def)
    qed
  qed
qed

section \<open>Compare-and-set\<close>

text \<open>The conditional store behind the surface, with versions left to issue.\<close>

definition locks_ok :: "client_surface \<Rightarrow> bool" where
  "locks_ok su \<longleftrightarrow> recs_ok (ls_store (su_lock_service su)) \<and> cs_next_version (ls_store (su_lock_service su)) \<noteq> - 1"

lemma sync_current:
  assumes "recs_ok cs" "cs_next_version cs \<noteq> - 1" "sync_conditional_record key live cs = (Inr u, cs')"
  shows "current_value key cs' = live"
proof (cases "current_value key cs = live")
  case True
  with assms(3) show ?thesis by (simp add: sync_conditional_record_def)
next
  case False
  have linear: "allows_single_key_linearizable Quorum" by (simp add: allows_single_key_linearizable_def)
  have cas: "current_value key (snd (compare_and_set key (current_value key cs) v Quorum cs)) = Some v" for v
    by (simp add: compare_and_set_def current_value_def current_bytes_def record_value_def Let_def linear)
  have rem: "current_value key (snd (remove_if_value key c Quorum cs)) = None" if "current_value key cs = Some c" for c
    using that apply_tombstone_records [OF assms(1,2)] by (simp add: remove_if_value_def Let_def current_value_def linear)
  show ?thesis
  proof (cases live)
    case (Some v)
    then have "cs' = snd (compare_and_set key (current_value key cs) v Quorum cs)"
      using assms(3) False by (auto simp: sync_conditional_record_def Let_def split: prod.splits sum.splits)
    then show ?thesis using cas Some by simp
  next
    case None
    then obtain c where c: "current_value key cs = Some c" using False by (cases "current_value key cs") auto
    then have "cs' = snd (remove_if_value key c Quorum cs)"
      using assms(3) None by (auto simp: sync_conditional_record_def Let_def split: prod.splits sum.splits)
    then show ?thesis using rem c None by simp
  qed
qed

lemma synced_outcome:
  assumes ok: "locks_ok su" and s: "synced_command key live command su = (Inr r, su')"
  obtains cs c cs' where "current_value key cs = live" "command cs = (Inr c, cs')" "r = cas_response c"
proof -
  define now where "now = sat_add (ls_logical_now_ms (su_lock_service su)) 1"
  define cs\<^sub>0 where "cs\<^sub>0 = snd (expire_due now (ls_store (su_lock_service su)))"
  have "rec_view cs\<^sub>0 = rec_view (ls_store (su_lock_service su))" by (simp add: cs\<^sub>0_def)
  then have ok0: "recs_ok cs\<^sub>0" "cs_next_version cs\<^sub>0 \<noteq> - 1" using ok recs_ok_view by (auto simp: locks_ok_def rec_view_def)
  obtain u cs where y: "sync_conditional_record key live cs\<^sub>0 = (u, cs)" by (cases "sync_conditional_record key live cs\<^sub>0")
  obtain c cs' where d: "command cs = (c, cs')" by (cases "command cs")
  from s y d have "\<exists>v. u = Inr v" "\<exists>c'. c = Inr c' \<and> r = cas_response c'"
    by (auto simp: synced_command_def on_lock_service_def apply_lock_command_def Let_def now_def [symmetric] cs\<^sub>0_def [symmetric]
        split: if_splits prod.splits sum.splits)
  then show ?thesis using that sync_current [OF ok0] y d by blast
qed

definition cas_matches :: "bool \<Rightarrow> bytes option \<Rightarrow> client_response \<Rightarrow> bool" where
  "cas_matches holds live r \<longleftrightarrow> erase_version r = (if holds then RespCasApplied 0 else RespCasMismatch live) \<and> cas_applied (Inr r) = holds"

lemma apply_cas_outcome:
  assumes ok: "locks_ok su" and a: "fst (apply_compare_and_set key live expected v level su) = Inr r"
  shows "cas_matches (case expected of Exact x \<Rightarrow> live = Some x | Present \<Rightarrow> live \<noteq> None) live r"
proof -
  obtain su' where "apply_compare_and_set key live expected v level su = (Inr r, su')" using a by (metis prod.collapse)
  from this [unfolded apply_compare_and_set_def] obtain cs c cs'
    where "current_value key cs = live" "r = cas_response c"
      "(case expected of Exact e \<Rightarrow> compare_and_set key (Some e) v level | Present \<Rightarrow> replace_if_present key v level) cs = (Inr c, cs')"
    by (rule synced_outcome [OF ok])
  then show ?thesis
    by (auto simp: compare_and_set_def replace_if_present_def Let_def cas_matches_def cas_applied_def
        split: cas_expectation.splits if_splits option.splits)
qed

lemma remove_outcome:
  assumes ok: "locks_ok su" and "synced_command key live (remove_if_value key expected level) su = (Inr r, su')"
  shows "cas_matches (live = Some expected) live r"
proof -
  from assms obtain cs c cs' where "current_value key cs = live" "remove_if_value key expected level cs = (Inr c, cs')" "r = cas_response c"
    by (rule synced_outcome)
  then show ?thesis by (auto simp: remove_if_value_def Let_def cas_matches_def cas_applied_def split: if_splits)
qed

lemma cas_not_applied [simp]: "\<not> cas_applied (Inl e)"
  by (simp add: cas_applied_def)

lemma compare_and_set_meets:
  assumes n: "now_ms wall su = (now, su1)" and m: "m = live_map now su" and ok: "locks_ok su"
  shows "meets now m (map_spec (ident_tenant ident) replay now (CompareAndSet ns key expected val level) m)
           (handle_compare_and_set ident ns key expected val level wall su)"
proof (cases "lim_max_value_bytes (su_limits su) < length val")
  case True
  then show ?thesis by (simp add: handle_compare_and_set_def m)
next
  case False
  define k where "k = store_key_of (ident_tenant ident) ns key"
  obtain e expired su2 where l: "live_entry k now su1 = (e, expired, su2)" by (rule prod_cases3)
  have e: "e = m k" "live_map now su2 = m" "locks_ok su2"
    using live_entry_live(1,2,3) [OF l] now_sel(2,3) [OF n] m ok by (auto simp: locks_ok_def)
  obtain r su' where h: "handle_compare_and_set ident ns key expected val level wall su = (r, su')"
    by (cases "handle_compare_and_set ident ns key expected val level wall su")
  define holds where "holds = (case expected of Exact x \<Rightarrow> map_option sv_value (m k) = Some x | Present \<Rightarrow> map_option sv_value (m k) \<noteq> None)"
  define command where "command = apply_compare_and_set (lock_key (ident_tenant ident) ns key) (map_option sv_value (m k)) expected val (lock_consistency_level level) su2"
  have out: "(\<exists>err. r = Inl err) \<and> su_store su' = su_store su2
     \<or> r = fst command \<and> (su_store su' = (if cas_applied r then bt_insert k (stored_value_new val 0 None) (su_store su2) else su_store su2)
            \<or> \<not> holds \<and> su_store su' = su_store su2)"
    using cas_outcome [OF h _ n l [unfolded k_def]] False unfolding k_def [symmetric] e(1) holds_def command_def by auto
  have match: "cas_matches holds (map_option sv_value (m k)) r'" if "fst command = Inr r'" for r'
    using apply_cas_outcome [OF e(3)] that unfolding command_def holds_def by blast
  show ?thesis
  proof (cases r)
    case (Inl err)
    then have "live_map now su' = m" using out live_cong [of su' su2 now] e(2) by auto
    then show ?thesis by (simp add: h Inl)
  next
    case (Inr r')
    then have c: "cas_matches holds (map_option sv_value (m k)) r'" using out match by auto
    then have "su_store su' = (if holds then bt_insert k (stored_value_new val 0 None) (su_store su2) else su_store su2)"
      using out Inr by (auto simp: cas_matches_def)
    then have "live_map now su' = prune now (if holds then m(k \<mapsto> stored_value_new val 0 None) else m)"
      using live_cong [of su' su2 now] live_insert [of su' k "stored_value_new val 0 None" su2 now] e(2) live_prune [of now su2] by auto
    then show ?thesis using c by (simp add: h Inr Let_def k_def [symmetric] holds_def [symmetric] cas_matches_def)
  qed
qed

lemma remove_if_value_meets:
  assumes n: "now_ms wall su = (now, su1)" and m: "m = live_map now su" and ok: "locks_ok su"
  shows "meets now m (map_spec (ident_tenant ident) replay now (RemoveIfValue ns key expected level) m)
           (handle_remove_if_value ident ns key expected level wall su)"
proof -
  define k ckey where "k = store_key_of (ident_tenant ident) ns key" and "ckey = lock_key (ident_tenant ident) ns key"
  let ?spec = "map_spec (ident_tenant ident) replay now (RemoveIfValue ns key expected level) m"
  let ?f = "\<lambda>su. case live_entry k now su of
      (e, expired, su) \<Rightarrow>
        (case synced_command ckey (map_option sv_value e) (remove_if_value ckey expected (lock_consistency_level level)) su of
           (r, su) \<Rightarrow>
             let su = (if cas_applied r then su\<lparr>su_store := bt_remove k (su_store su)\<rparr> else su)
             in (r, if cas_applied r \<or> expired then forget_entry ident ns key su else su))"
  have closure: "meets now m ?spec (r, su3)" if f: "?f su2 = (r, su3)" and m2: "m = live_map now su2" and ok2: "locks_ok su2" for r su2 su3
  proof -
    obtain e expired su4 where l: "live_entry k now su2 = (e, expired, su4)" by (rule prod_cases3)
    have e: "e = m k" "live_map now su4 = m" "locks_ok su4"
      using live_entry_live(1,2,3) [OF l] m2 ok2 by (auto simp: locks_ok_def)
    let ?cmd = "synced_command ckey (map_option sv_value e) (remove_if_value ckey expected (lock_consistency_level level)) su4"
    obtain r5 su5 where c: "?cmd = (r5, su5)" by (cases ?cmd)
    have "su_store su5 = su_store su4" using core_eqD [OF core_synced, of ckey "map_option sv_value e" "remove_if_value ckey expected (lock_consistency_level level)" su4] c by simp
    then have "r = r5" "su_store su3 = (if cas_applied r5 then bt_remove k (su_store su4) else su_store su4)"
      using f l c by (auto simp: Let_def)
    then have live: "r = r5" "live_map now su3 = (if cas_applied r5 then m(k := None) else m)"
      using live_remove [of su3 k su4 now] live_cong [of su3 su4 now] e(2) by auto
    show ?thesis
    proof (cases r5)
      case (Inl err)
      then show ?thesis using live by simp
    next
      case (Inr r')
      then have "cas_matches (map_option sv_value e = Some expected) (map_option sv_value e) r'" using remove_outcome [OF e(3)] c by blast
      then show ?thesis using live Inr m2 live_prune [of now su2] prune_remove [of now su2 k]
        by (auto simp: cas_matches_def e(1) k_def [symmetric] Let_def)
    qed
  qed
  obtain w su' where w: "with_admitted_store ident ?f su1 = (w, su')" by (cases "with_admitted_store ident ?f su1")
  have h: "handle_remove_if_value ident ns key expected level wall su =
      (case w of Inl e \<Rightarrow> (Inl e, su') | Inr r \<Rightarrow> (r, if cas_applied r then mutated ident ns (Some key) MutRemoved su' else su'))"
    using w n unfolding handle_remove_if_value_def k_def ckey_def Let_def by (simp split: sum.split)
  from w show ?thesis
  proof (cases rule: admitted_cases)
    case (1 e)
    then show ?thesis using h live_cong [OF 1(2), of now] now_sel(2) [OF n, of now] m by simp
  next
    case (2 r su2)
    have "meets now m ?spec (r, su')"
      using closure [OF 2(2)] live_cong [OF 2(3), of now] 2(4) now_sel(2,3) [OF n] m ok by (simp add: locks_ok_def)
    then have "meets now m ?spec (r, if cas_applied r then mutated ident ns (Some key) MutRemoved su' else su')"
      using meets_core [OF core_mutated_if] by blast
    then show ?thesis using h 2(1) by simp
  qed
qed

text \<open>Requests on locks and subscriptions leave the entries alone.\<close>

lemma other_meets:
  assumes "map_spec (ident_tenant ident) replay now request m = (None, m)" "m = live_map now su"
    "core (snd res) = core su \<or> su_store (snd res) = su_store su"
  shows "meets now m (map_spec (ident_tenant ident) replay now request m) res"
proof -
  have "live_map now (snd res) = m" unfolding assms(2) by (rule live_cong) (use assms(3) core_eqD in blast)
  then show ?thesis unfolding assms(1) using assms(2) live_prune [of now su] by (simp add: meets_def split: sum.split)
qed

fun conditional_request :: "client_request \<Rightarrow> bool" where
  "conditional_request (CompareAndSet _ _ _ _ _) = True"
| "conditional_request (RemoveIfValue _ _ _ _) = True"
| "conditional_request _ = False"

lemma handle_operation_meets:
  assumes n: "now_ms wall su = (now, su1)" and m: "m = live_map now su"
    and ok: "bt_ok (su_store su)" "bt_ok (su_idempotency su)" "conditional_request request \<Longrightarrow> locks_ok su"
  shows "meets now m (map_spec (ident_tenant ident) (replayed ident ikey now su) now request m)
           (handle_operation ident rid ikey wall request su)"
proof (cases request)
  case (Get ns key)
  then show ?thesis using get_meets [OF n m] by simp
next
  case (Put ns key val ttl dims)
  then show ?thesis using put_meets [OF n m ok(2)] by simp
next
  case (Invalidate ns key)
  then show ?thesis using invalidate_meets [OF m] by simp
next
  case (BatchGet ns keys)
  then show ?thesis using batch_get_meets [OF n m] by simp
next
  case (BatchPut ns entries)
  then show ?thesis using batch_put_meets [OF m] by simp
next
  case (GetTtl ns key)
  then show ?thesis using get_ttl_meets [OF n m] by simp
next
  case (ConditionalPut ns key val ttl condition)
  then show ?thesis using conditional_put_meets [OF n m] by simp
next
  case (EvictRegion ns)
  then show ?thesis using evict_meets [OF m ok(1)] by simp
next
  case (CompareAndSet ns key expected val level)
  then show ?thesis using compare_and_set_meets [OF n m] ok(3) by simp
next
  case (RemoveIfValue ns key expected level)
  then show ?thesis using remove_if_value_meets [OF n m] ok(3) by simp
next
  case (SubscribeInvalidations ns f mark b)
  then show ?thesis by (intro other_meets [OF _ m]) (simp_all add: handle_subscribe_def split: option.split prod.split sum.split)
next
  case (SubscribeEntryEvents ns f mark b projection)
  then show ?thesis by (intro other_meets [OF _ m]) (simp_all add: handle_subscribe_def split: option.split prod.split sum.split)
next
  case (ForceUnlock ns key)
  obtain x su2 where a: "record_audit (PolicyChanged ns 1 ''force_unlock'') su = (x, su2)"
    by (cases "record_audit (PolicyChanged ns 1 ''force_unlock'') su")
  then have "core su2 = core su" using core_record_audit [of "PolicyChanged ns 1 ''force_unlock''" su] by (simp only: snd_conv)
  then have "core (snd (handle_force_unlock ident rid ns key su)) = core su"
    by (simp add: handle_force_unlock_def a split: sum.split)
  then show ?thesis using ForceUnlock by (intro other_meets [OF _ m]) simp_all
next
  case (Expire ns key ttl)
  then show ?thesis using expire_meets(1) [OF n m] by (simp only: handle_operation.simps)
next
  case (Persist ns key)
  then show ?thesis using expire_meets(2) [OF n m] by (simp only: handle_operation.simps)
next
  case (CompareValueAndInvalidate ns key expected)
  then show ?thesis using expire_meets(3) [OF n m] by (simp only: handle_operation.simps)
next
  case (CompareValueAndExpire ns key expected ttl mode)
  then show ?thesis using expire_meets(4) [OF n m] by (simp only: handle_operation.simps)
qed (rule other_meets [OF _ m];
   simp add: handle_try_lock_def handle_unlock_def handle_renew_lock_def handle_lock_ownership_def Let_def)+

end
