(* ===== verification/Client_Surface_Histories.thy ===== *)
theory Client_Surface_Histories
  imports Client_Surface_Refinement
begin

text \<open>
  Histories of the client surface as histories of an expiring map: after any run a request answers and changes the live entries
  as the map does, and a put that is retried under its idempotency key is applied once.
\<close>

section \<open>Outcomes, records and the clock\<close>

definition tidy :: "client_surface \<Rightarrow> bool" where
  "tidy su \<longleftrightarrow> bt_ok (su_idempotency su) \<and> recs_ok (ls_store (su_lock_service su))"

text \<open>The clock does not go back, and the outcome of an idempotency key is kept until it expires.\<close>

definition keeps :: "client_surface \<Rightarrow> client_surface \<Rightarrow> bool" where
  "keeps su su' \<longleftrightarrow>
     (tidy su \<longrightarrow> tidy su' \<and> su_time_floor su \<le> su_time_floor su'
        \<and> (\<forall>k d. bt_get (su_idempotency su) k = Some d \<and> su_time_floor su' < d \<longrightarrow> bt_get (su_idempotency su') k = Some d))"

definition aux :: "client_surface \<Rightarrow> client_lock_service \<times> (string \<times> string, u64) btmap \<times> u64" where
  "aux su = (su_lock_service su, clock_view su)"

lemma keeps_aux: "aux su' = aux su \<Longrightarrow> keeps su su'"
  by (simp add: keeps_def aux_def clock_view_def tidy_def)

lemma keeps_trans: "keeps su su' \<Longrightarrow> keeps su' su'' \<Longrightarrow> keeps su su''"
  unfolding keeps_def by (meson order_trans le_less_trans)

lemma keeps_after: "keeps su su' \<Longrightarrow> aux su'' = aux su' \<Longrightarrow> keeps su su''"
  by (blast intro: keeps_trans keeps_aux)

lemma keeps_now: "keeps su (snd (now_ms wall su))"
  by (simp add: keeps_def now_ms_def Let_def tidy_def)

lemma aux_update [simp]:
  "aux (su\<lparr>su_dispatch_attempts := a\<rparr>) = aux su" "aux (su\<lparr>su_state_mutations := a\<rparr>) = aux su" "aux (su\<lparr>su_store := m\<rparr>) = aux su"
  "aux (su\<lparr>su_isolation := i\<rparr>) = aux su" "aux (su\<lparr>su_audit := u\<rparr>) = aux su" "aux (su\<lparr>su_receivers := n\<rparr>) = aux su"
  "aux (su\<lparr>su_next_sweep := a\<rparr>) = aux su" "aux (su\<lparr>su_cursor := c\<rparr>) = aux su"
  by (simp_all add: aux_def)

lemma aux_ops [simp]:
  "aux (record_mutation ident ns mkey kind su) = aux su" "aux (forget_entry ident ns key su) = aux su"
  "aux (snd (record_audit event su)) = aux su" "aux (record_rejection_audit ident s rid r b su) = aux su"
  "aux (sweep_remove skey su) = aux su"
  by (simp_all add: aux_def record_audit_def record_rejection_audit_def sweep_remove_def Let_def split: sum.split prod.split)

lemma aux_forgets [simp]: "aux (fold (forget_entry ident ns) keys su) = aux su"
  by (induction keys arbitrary: su) simp_all

lemma aux_removes [simp]: "aux (fold sweep_remove keys su) = aux su"
  by (induction keys arbitrary: su) simp_all

lemma aux_mutations [simp]: "aux (fold (\<lambda>(key, _). record_mutation ident ns (Some key) kind) entries su) = aux su"
  by (induction entries arbitrary: su) auto

lemma aux_sweep [simp]: "aux (snd (sweep_expired_entries now force su)) = aux su"
  by (simp add: sweep_expired_entries_def Let_def split: prod.split)

lemma aux_live_entry: "live_entry k now su = (e, expired, su') \<Longrightarrow> aux su' = aux su"
  by (auto simp: live_entry_def split: option.splits if_splits)

lemma keeps_admitted: "(\<And>su. keeps su (snd (f su))) \<Longrightarrow> keeps su (snd (with_admitted_store ident f su))"
  by (auto simp: with_admitted_store_def keeps_aux split: option.split prod.split sum.split)
    (metis aux_update(4) keeps_aux keeps_trans snd_conv)+

lemma keeps_handler:
  assumes "\<And>now su1. now_ms wall su = (now, su1) \<Longrightarrow> keeps su1 (snd (f now su1))"
  shows "keeps su (snd (case now_ms wall su of (now, su) \<Rightarrow> f now su))"
  using keeps_now [of su wall] assms by (cases "now_ms wall su") (auto intro: keeps_trans)

lemma keeps_finish:
  assumes "keeps su (snd w)" "\<And>v su'. aux (g v su') = aux su'"
  shows "keeps su (snd (case w of (Inl e, su) \<Rightarrow> (Inl e, su) | (Inr v, su) \<Rightarrow> (h v, g v su)))"
  using assms by (auto split: prod.splits sum.splits intro: keeps_after)

lemma keeps_locks:
  assumes "clock_view su' = clock_view su" "recs_ok (ls_store (su_lock_service su)) \<Longrightarrow> recs_ok (ls_store (su_lock_service su'))"
  shows "keeps su su'"
  using assms by (simp add: keeps_def clock_view_def tidy_def)

lemma on_lock_service_keeps:
  assumes "\<And>cs now. recs_ok cs \<Longrightarrow> recs_ok (snd (f cs now))"
  shows "keeps su (snd (on_lock_service f su))"
proof (rule keeps_locks)
  assume "recs_ok (ls_store (su_lock_service su))"
  then have "recs_ok (snd (f (snd (expire_due now (ls_store (su_lock_service su)))) now))" for now
    using recs_ok_view [OF rec_view_lock_ops(4)] assms by blast
  then show "recs_ok (ls_store (su_lock_service (snd (on_lock_service f su))))"
    using \<open>recs_ok (ls_store (su_lock_service su))\<close>
    by (auto simp: on_lock_service_def apply_lock_command_def Let_def split: prod.splits sum.splits) (metis snd_conv)+
qed simp

lemma recs_ok_commands:
  "recs_ok cs \<Longrightarrow> recs_ok (snd (replace_if_present key v level cs))" "recs_ok cs \<Longrightarrow> recs_ok (snd (remove_if_value key v level cs))"
  using recs_ok_step [of cs "OpReplace key v level"] recs_ok_step [of cs "OpRemove key v level"] by simp_all

lemma recs_ok_sync: "recs_ok cs \<Longrightarrow> recs_ok (snd (sync_conditional_record key live cs))"
  using recs_ok_cas [of cs key _ _ Quorum] recs_ok_commands(2) [of cs key _ Quorum]
  by (auto simp: sync_conditional_record_def Let_def split: option.splits prod.splits sum.splits) (metis snd_conv)+

lemma synced_command_keeps:
  assumes "\<And>cs. recs_ok cs \<Longrightarrow> recs_ok (snd (f cs))"
  shows "keeps su (snd (synced_command key live f su))"
  unfolding synced_command_def
proof (rule on_lock_service_keeps)
  fix cs now assume "recs_ok cs"
  then have "recs_ok (snd (sync_conditional_record key live cs))" by (rule recs_ok_sync)
  then show "recs_ok (snd (case sync_conditional_record key live cs of
      (Inl e, cs) \<Rightarrow> (Inl e, cs) | (Inr _, cs) \<Rightarrow> (case f cs of (Inl e, cs) \<Rightarrow> (Inl e, cs) | (Inr r, cs) \<Rightarrow> (Inr (cas_response r), cs))))"
    using assms by (auto split: prod.splits sum.splits) (metis snd_conv)+
qed

lemma apply_cas_keeps: "keeps su (snd (apply_compare_and_set key live e v level su))"
  unfolding apply_compare_and_set_def
  by (rule synced_command_keeps) (simp add: recs_ok_cas recs_ok_commands split: cas_expectation.split)

lemma snd_case_sum:
  "snd (case p of (Inl e, s) \<Rightarrow> (a e, s) | (Inr v, s) \<Rightarrow> (b v, s)) = snd p"
  "snd (case q of (Inl e, s) \<Rightarrow> (a e, s) | (Inr (Some v), s) \<Rightarrow> (c v, s) | (Inr None, s) \<Rightarrow> (d, s)) = snd q"
  by (simp_all split: prod.split sum.split option.split)

lemma recs_ok_lock_ops:
  assumes "recs_ok cs"
  shows "recs_ok (snd (try_acquire_lock key level owner lease now cs))" "recs_ok (snd (release_lock key owner token cs))"
    "recs_ok (snd (renew_lease key owner token deadline cs))" "recs_ok (snd (force_unlock key cs))" "recs_ok (snd (expire_due now cs))"
  using assms by (auto intro: recs_ok_view)

lemma lock_handlers_keep:
  "keeps su (snd (handle_try_lock ident ns key lease_ms level su))" "keeps su (snd (handle_unlock ident ns key fence su))"
  "keeps su (snd (handle_renew_lock ident ns key fence lease_ms su))" "keeps su (snd (handle_lock_ownership ident ns key su))"
  unfolding handle_try_lock_def handle_unlock_def handle_renew_lock_def handle_lock_ownership_def Let_def
  by (auto simp: snd_case_sum recs_ok_lock_ops keeps_aux intro!: on_lock_service_keeps keeps_locks)

lemma handle_force_unlock_keeps: "keeps su (snd (handle_force_unlock ident rid ns key su))"
proof -
  obtain r su1 where a: "record_audit (PolicyChanged ns 1 ''force_unlock'') su = (r, su1)"
    by (cases "record_audit (PolicyChanged ns 1 ''force_unlock'') su")
  then have "aux su1 = aux su" using aux_ops(3) [of "PolicyChanged ns 1 ''force_unlock''" su] by (simp only: snd_conv)
  then have k: "keeps su su1" by (rule keeps_aux)
  then have "keeps su (snd (on_lock_service f su1))" if "\<And>cs now. recs_ok cs \<Longrightarrow> recs_ok (snd (f cs now))" for f
    using that by (intro keeps_trans [OF _ on_lock_service_keeps])
  with k show ?thesis by (simp add: handle_force_unlock_def a recs_ok_lock_ops keeps_aux split: sum.split)
qed

lemma aux_read_entry [simp]: "aux (snd (read_entry ident ns key now su)) = aux su"
  by (auto simp: read_entry_def dest: aux_live_entry split: prod.split)

lemma aux_batch_read: "batch_read ident ns now keys su = (vals, expired, su') \<Longrightarrow> aux su' = aux su"
proof (induction keys arbitrary: su su' vals expired)
  case (Cons key keys)
  obtain e gone su1 where l: "live_entry (store_key_of (ident_tenant ident) ns key) now su = (e, gone, su1)" by (rule prod_cases3)
  obtain vals1 expired1 su2 where b: "batch_read ident ns now keys su1 = (vals1, expired1, su2)" by (rule prod_cases3)
  show ?case using Cons.prems Cons.IH [OF b] aux_live_entry [OF l] l b by auto
qed simp

lemma aux_update_live [simp]: "aux (snd (update_live ident ns key now update su)) = aux su"
proof -
  obtain e expired su1 where l: "live_entry (store_key_of (ident_tenant ident) ns key) now su = (e, expired, su1)" by (rule prod_cases3)
  then show ?thesis using aux_live_entry [OF l] by (simp add: update_live_def Let_def split: option.split prod.split)
qed

lemma aux_admit_put:
  assumes "admit_put ident ns key n holds (insert_value skey e) su = (r, su')"
  shows "aux su' = aux su"
proof (cases "su_isolation su")
  case None
  with assms show ?thesis by (auto simp: admit_put_def split: if_splits)
next
  case (Some isol)
  obtain r' isol' su1 where a: "admit_put_if_committed (ident_client_id ident) ns (stable_key key) (of_nat n) holds (insert_value skey e) isol su
      = (r', isol', su1)" by (rule prod_cases3)
  with assms Some have "aux su' = aux su1" by (auto simp: admit_put_def split: sum.splits)
  then show ?thesis using admit_put_cases [OF a] by auto
qed

lemma handle_update_keeps: "keeps su (snd (handle_update ident ns key update kind response wall su))"
  unfolding handle_update_def by (rule keeps_handler, rule keeps_finish [OF keeps_admitted]) (simp_all add: keeps_aux)

lemma handle_get_ttl_keeps: "keeps su (snd (handle_get_ttl ident ns key wall su))"
  unfolding handle_get_ttl_def Let_def
  by (rule keeps_handler, rule keeps_finish [where g = "\<lambda>_ su. su", OF keeps_admitted]) (simp_all add: keeps_aux split: option.split)

lemma handle_batch_get_keeps: "keeps su (snd (handle_batch_get ident ns keys wall su))"
proof -
  have "keeps su1 (snd (case batch_read ident ns now keys su1 of (vals, expired_keys, su) \<Rightarrow> (batch_items vals, fold (forget_entry ident ns) expired_keys su)))" for now su1
    by (auto intro!: keeps_aux dest: aux_batch_read split: prod.split)
  then have "keeps su (snd (case now_ms wall su of
          (now, su) \<Rightarrow>
            (case with_admitted_store ident (\<lambda>su.
                    (case batch_read ident ns now keys su of
                       (vals, expired_keys, su) \<Rightarrow> (batch_items vals, fold (forget_entry ident ns) expired_keys su))) su of
               (Inl e, su) \<Rightarrow> (Inl e, su) | (Inr items, su) \<Rightarrow> (Inr (RespBatch items), su))))"
    by (intro keeps_handler keeps_finish [where g = "\<lambda>_ su. su"] keeps_admitted) simp_all
  then show ?thesis by (auto simp: handle_batch_get_def Let_def keeps_aux split: prod.splits sum.splits)
qed

lemma handle_conditional_put_keeps: "keeps su (snd (handle_conditional_put ident ns key val ttl condition wall su))"
proof -
  obtain now su1 where n: "now_ms wall su = (now, su1)" by (cases "now_ms wall su")
  obtain e expired su2 where l: "live_entry (store_key_of (ident_tenant ident) ns key) now su1 = (e, expired, su2)" by (rule prod_cases3)
  have "snd (handle_conditional_put ident ns key val ttl condition wall su) = su
      \<or> aux (snd (handle_conditional_put ident ns key val ttl condition wall su)) = aux su2"
    unfolding handle_conditional_put_def Let_def n
    by (auto simp: l dest!: aux_admit_put split: prod.split sum.split)
  then show ?thesis using keeps_now [of su wall] n aux_live_entry [OF l] by (auto intro: keeps_after keeps_aux)
qed

lemma handle_batch_put_keeps: "keeps su (snd (handle_batch_put ident ns entries su))"
proof -
  let ?commit = "\<lambda>su. (True, su\<lparr>su_store := fold (\<lambda>(key, val). bt_insert (store_key_of (ident_tenant ident) ns key)
      (stored_value_new val 0 None)) entries (su_store su)\<rparr>)"
  have "aux su2 = aux su" if "admit_batch_put_if_committed c ns kvs ?commit isol su = (r, isol', su2)" for c kvs isol r isol' su2
    using admit_batch_cases [OF that] by auto
  then show ?thesis
    unfolding handle_batch_put_def Let_def by (auto intro!: keeps_aux split: option.split prod.split sum.split)
qed

lemma handle_compare_and_set_keeps: "keeps su (snd (handle_compare_and_set ident ns key expected val level wall su))"
proof (cases "length val \<le> lim_max_value_bytes (su_limits su)")
  case True
  obtain now su1 where n: "now_ms wall su = (now, su1)" by (cases "now_ms wall su")
  obtain e expired su2 where l: "live_entry (store_key_of (ident_tenant ident) ns key) now su1 = (e, expired, su2)" by (rule prod_cases3)
  obtain r su' where h: "handle_compare_and_set ident ns key expected val level wall su = (r, su')"
    by (cases "handle_compare_and_set ident ns key expected val level wall su")
  let ?cmd = "apply_compare_and_set (lock_key (ident_tenant ident) ns key) (map_option sv_value e) expected val (lock_consistency_level level) su2"
  have "aux su' = aux su2 \<or> aux su' = aux (snd ?cmd)"
    using cas_outcome [OF h True n l] by (auto simp: aux_def)
  moreover have "keeps su su2" using keeps_after [OF _ aux_live_entry [OF l]] keeps_now [of su wall] n by simp
  ultimately have "keeps su su'" by (blast intro: keeps_after keeps_trans apply_cas_keeps)
  then show ?thesis by (simp add: h)
next
  case False
  then show ?thesis by (simp add: handle_compare_and_set_def keeps_aux)
qed

lemma handle_remove_if_value_keeps: "keeps su (snd (handle_remove_if_value ident ns key expected level wall su))"
proof -
  have "keeps su1 su4"
    if "live_entry skey now su1 = (e, expired, su2)" "synced_command ckey live (remove_if_value ckey expected lvl) su2 = (r, su3)"
      "aux su4 = aux su3" for skey now su1 e expired su2 ckey live lvl r su3 su4
  proof -
    have "keeps su2 su3"
      using synced_command_keeps [of "remove_if_value ckey expected lvl" su2 ckey live] that(2) by (simp add: recs_ok_commands)
    then show ?thesis using that(3) aux_live_entry [OF that(1)] by (blast intro: keeps_trans keeps_aux keeps_after)
  qed
  then show ?thesis unfolding handle_remove_if_value_def Let_def
    by (intro keeps_handler keeps_finish [OF keeps_admitted]) (auto split: prod.split)
qed

lemma idempotency_check_keeps:
  assumes "idempotency_check k (su_time_floor su) su = (r, su')"
  shows "keeps su su'" and "r = None \<Longrightarrow> bt_get (su_idempotency su') k = None" and "su_time_floor su' = su_time_floor su"
  using assms
  by (auto simp: idempotency_check_def Let_def keeps_def tidy_def bt_get_retain split: if_splits)

lemma remember_keeps:
  assumes "bt_get (su_idempotency su) k = None"
  shows "keeps su (su\<lparr>su_idempotency := bt_insert k d (su_idempotency su)\<rparr>)"
  using assms by (auto simp: keeps_def tidy_def)

lemma now_floor: "now_ms wall su = (now, su1) \<Longrightarrow> su_time_floor su1 = now"
  by (auto simp: now_ms_def Let_def)

lemma handle_put_keeps: "keeps su (snd (handle_put ident ikey ns key val ttl wall su))"
proof -
  obtain now su1 where n: "now_ms wall su = (now, su1)" by (cases "now_ms wall su")
  have k1: "keeps su su1" using keeps_now [of su wall] n by simp
  obtain early su2 where i: "(case ikey of Some k \<Rightarrow> idempotency_check (ident_tenant ident, k) now su1 | None \<Rightarrow> (None, su1)) = (early, su2)"
    by (cases "case ikey of Some k \<Rightarrow> idempotency_check (ident_tenant ident, k) now su1 | None \<Rightarrow> (None, su1)")
  have k2: "keeps su1 su2" and fresh: "early = None \<Longrightarrow> ikey = Some k \<Longrightarrow> bt_get (su_idempotency su2) (ident_tenant ident, k) = None" for k
    using i idempotency_check_keeps [of "(ident_tenant ident, k)" su1 early su2 for k] now_floor [OF n]
    by (auto intro: keeps_aux split: option.splits)
  obtain r su3 where a: "admit_put ident ns key (length val) True
      (insert_value (store_key_of (ident_tenant ident) ns key) (stored_value_new val now ttl)) su2 = (r, su3)"
    by (cases "admit_put ident ns key (length val) True (insert_value (store_key_of (ident_tenant ident) ns key) (stored_value_new val now ttl)) su2")
  have a3: "aux su3 = aux su2" using aux_admit_put [OF a] .
  let ?su4 = "case ikey of Some k \<Rightarrow> su3\<lparr>su_idempotency := bt_insert (ident_tenant ident, k)
      (sat_add now CLIENT_SURFACE_IDEMPOTENCY_TTL_MS) (su_idempotency su3)\<rparr> | None \<Rightarrow> su3"
  have k3: "keeps su su3" using k1 k2 a3 by (blast intro: keeps_trans keeps_aux)
  have "keeps su3 ?su4" if "early = None"
  proof (cases ikey)
    case (Some k)
    then have "bt_get (su_idempotency su3) (ident_tenant ident, k) = None"
      using fresh [OF that] a3 by (simp add: aux_def clock_view_def)
    then show ?thesis using Some remember_keeps by simp
  qed (simp add: keeps_aux)
  then have k4: "keeps su ?su4" if "early = None" using k3 that by (blast intro: keeps_trans)
  have "aux (mutated ident ns (Some key) MutStored ?su4) = aux ?su4" by (simp only: aux_ops aux_update)
  then have "keeps su (mutated ident ns (Some key) MutStored ?su4)" if "early = None" by (rule keeps_after [OF k4 [OF that]])
  moreover have "handle_put ident ikey ns key val ttl wall su =
      (if lim_max_value_bytes (su_limits su) < length val then (Inl (client_error_new TooLarge False), su)
       else case early of Some result \<Rightarrow> (result, su2)
       | None \<Rightarrow> (case r of Inl e \<Rightarrow> (Inl e, su3) | Inr _ \<Rightarrow> (Inr RespStored, mutated ident ns (Some key) MutStored ?su4)))"
    using n i a unfolding handle_put_def Let_def by (simp split: option.split sum.split)
  ultimately show ?thesis
    using k3 keeps_trans [OF k1 k2] by (auto simp: keeps_aux split: option.split sum.split)
qed

lemma handle_evict_keeps: "keeps su (snd (handle_evict_region ident ns su))"
  by (auto simp: handle_evict_region_def Let_def intro!: keeps_aux split: option.split prod.split sum.split)

lemma handle_subscribe_keeps: "keeps su (snd (handle_subscribe ident mark su))"
  by (auto simp: handle_subscribe_def intro!: keeps_aux split: option.split prod.split sum.split)

lemma handle_operation_keeps: "keeps su (snd (handle_operation ident rid ikey wall request su))"
proof (cases request)
  case (Get ns key)
  have "keeps su (snd (case now_ms wall su of (now, su) \<Rightarrow>
      (case with_admitted_store ident (read_entry ident ns key now) su of (Inl e, su) \<Rightarrow> (Inl e, su) | (Inr v, su) \<Rightarrow> (Inr (RespValue v), su))))"
    by (rule keeps_handler, rule keeps_finish [where g = "\<lambda>_ su. su", OF keeps_admitted]) (simp_all add: keeps_aux)
  then show ?thesis by (simp add: Get)
next
  case (Invalidate ns key)
  show ?thesis unfolding Invalidate handle_operation.simps Let_def
    by (rule keeps_finish [OF keeps_admitted]) (simp_all add: keeps_aux)
qed (auto simp: handle_expire_def handle_persist_def handle_compare_value_invalidate_def handle_compare_value_expire_def
    lock_handlers_keep handle_force_unlock_keeps handle_update_keeps handle_get_ttl_keeps handle_batch_get_keeps handle_conditional_put_keeps
    handle_batch_put_keeps handle_compare_and_set_keeps handle_remove_if_value_keeps handle_put_keeps handle_evict_keeps handle_subscribe_keeps
    keeps_aux)

lemma handle_request_keeps: "keeps su (snd (handle_request ident env wall su))"
proof (cases "(\<exists>e. validate_protocol env = Inl e) \<or> deadline_expired 0 env")
  case True
  then have "snd (handle_request ident env wall su) = su"
    by (auto simp: handle_request_def Let_def split: sum.split)
  then show ?thesis by (simp add: keeps_aux)
next
  case False
  define su1 where "su1 = snd (sweep_expired_entries (fst (now_ms (fst wall) su)) False (snd (now_ms (fst wall) su)))"
  define su2 where "su2 = snd (handle_operation ident (req_id env) (req_idempotency_key env) (snd wall) (req_request env) su1)"
  have "aux (snd (handle_request ident env wall su)) = aux su2"
    using False by (cases "validate_protocol env") (auto simp: handle_request_def Let_def su1_def su2_def split: prod.split)
  moreover have "keeps su su1" unfolding su1_def by (rule keeps_after [OF keeps_now]) simp
  moreover have "keeps su1 su2" unfolding su2_def by (rule handle_operation_keeps)
  ultimately show ?thesis by (blast intro: keeps_trans keeps_aux)
qed

lemma aux_validate [simp]: "aux (snd (validate_tenant_identity ident route rid su)) = aux su"
  by (simp add: validate_tenant_identity_def split: option.split)

lemma dispatch_keeps: "keeps su (snd (dispatch_verified_request ident env wall su))"
proof (cases "authorized ident su")
  case True
  then show ?thesis unfolding dispatch_authorized [OF True]
    by (intro keeps_trans [OF keeps_aux handle_request_keeps]) simp
next
  case False
  then obtain su' where "validate_tenant_identity ident CLIENT_DATA_PATH (Some (req_id env)) su = (False, su')"
    using validate_tenant_authorized by (metis (full_types) prod.collapse)
  then show ?thesis using aux_validate [of ident CLIENT_DATA_PATH "Some (req_id env)" su]
    by (simp add: dispatch_verified_request_def keeps_aux del: aux_validate)
qed

lemma surface_step_keeps: "op \<noteq> OpResetState \<Longrightarrow> keeps su (surface_step op su)"
proof (cases op)
  case (OpSubscribe ident)
  then show ?thesis using aux_validate [of ident "''/client/v1/subscriptions''" None su]
    by (auto simp: subscribe_mutations_def intro!: keeps_aux simp del: aux_validate split: prod.split bool.split)
next
  case (OpReap wall)
  then show ?thesis using keeps_now [of su wall]
    by (auto simp: reap_expired_entries_def intro: keeps_after split: prod.split)
next
  case (OpDiagnose wall)
  then show ?thesis using keeps_now [of su wall]
    by (auto simp: retained_state_for_diagnostics_def Let_def intro: keeps_after split: prod.split)
qed (simp_all add: dispatch_keeps)

lemma surface_step_tidy: "tidy su \<Longrightarrow> tidy (surface_step op su)"
  using surface_step_keeps [of op su] recs_ok_step [of "ls_store (su_lock_service su)" OpReset]
  by (cases "op = OpResetState") (auto simp: keeps_def tidy_def reset_retained_state_def Let_def)

lemma surface_run_tidy: "tidy su \<Longrightarrow> tidy (surface_run ops su)"
  by (induction ops arbitrary: su) (simp_all add: surface_step_tidy)

lemma surface_run_keeps: "OpResetState \<notin> set ops \<Longrightarrow> keeps su (surface_run ops su)"
proof (induction ops arbitrary: su)
  case (Cons op ops)
  then have "keeps su (surface_step op su)" "keeps (surface_step op su) (surface_run ops (surface_step op su))"
    by (auto intro: surface_step_keeps)
  then show ?case by (auto intro: keeps_trans)
qed (simp add: keeps_aux)

lemma surface_new_tidy: "surface_new limits isol = Inr su \<Longrightarrow> tidy su"
  using recs_ok_run [of "[]" None 1 64]
  by (auto simp: surface_new_def result_bind_Inr_iff tidy_def lock_service_new_def with_lock_acquire_limit_def cond_new_def)

section \<open>Requests on the live entries\<close>

text \<open>The time at which the handler of a request runs, after the reading for its sweep.\<close>

definition handler_time :: "u64 \<times> u64 \<Rightarrow> client_surface \<Rightarrow> u64" where
  "handler_time wall su = fst (now_ms (snd wall) (snd (now_ms (fst wall) su)))"

lemma swept_live:
  assumes "swept now su su'" "now \<le> now'"
  shows "live_map now' su' = live_map now' su"
proof
  fix k
  have "is_expired now' e" if "is_expired now e" for e
    using that assms(2) by (auto simp: is_expired_def split: option.splits)
  moreover have "bt_get (su_store su') k = bt_get (su_store su) k
      \<or> bt_get (su_store su') k = None \<and> (\<exists>e. bt_get (su_store su) k = Some e \<and> is_expired now e)"
    using assms(1) unfolding swept_def by blast
  ultimately show "live_map now' su' k = live_map now' su k" by (auto simp: live_map_def prune_def)
qed

lemma now_ms_time: "fst (now_ms wall su) = max (case su_test_clock su of Some t \<Rightarrow> t | None \<Rightarrow> wall) (su_time_floor su)"
  by (simp add: now_ms_def Let_def)

lemma sweep_clock [simp]:
  "su_test_clock (snd (sweep_expired_entries now force su)) = su_test_clock su"
  "su_time_floor (snd (sweep_expired_entries now force su)) = su_time_floor su"
proof -
  have "su_test_clock (fold sweep_remove keys su) = su_test_clock su" for keys su
    by (induction keys arbitrary: su) (simp_all add: sweep_remove_def split: prod.split)
  then show "su_test_clock (snd (sweep_expired_entries now force su)) = su_test_clock su"
    by (simp add: sweep_expired_entries_def Let_def split: prod.split)
  show "su_time_floor (snd (sweep_expired_entries now force su)) = su_time_floor su"
    using aux_sweep [of now force su] unfolding aux_def clock_view_def by blast
qed

lemma handle_request_split:
  assumes h: "handle_request ident env wall su = (response, su')" and ok: "bt_ok (su_store su)"
  obtains e where "resp_result response = Inl e" "su' = su"
  | su1 su2 where "swept (fst (now_ms (fst wall) su)) su su1"
      "aux su1 = aux (snd (now_ms (fst wall) su))" "fst (now_ms (snd wall) su1) = handler_time wall su"
      "handle_operation ident (req_id env) (req_idempotency_key env) (snd wall) (req_request env) su1 = (resp_result response, su2)"
      "core su' = core su2" "aux su' = aux su2"
proof (cases "(\<exists>e. validate_protocol env = Inl e) \<or> deadline_expired 0 env")
  case True
  then have "(\<exists>e. resp_result response = Inl e) \<and> su' = su"
    using h by (auto simp: handle_request_def Let_def split: sum.splits)
  then show ?thesis using that(1) by blast
next
  case False
  define su0 where "su0 = snd (now_ms (fst wall) su)"
  define su1 where "su1 = snd (sweep_expired_entries (fst (now_ms (fst wall) su)) False su0)"
  obtain r su2 where o: "handle_operation ident (req_id env) (req_idempotency_key env) (snd wall) (req_request env) su1 = (r, su2)"
    by (cases "handle_operation ident (req_id env) (req_idempotency_key env) (snd wall) (req_request env) su1")
  obtain v where "validate_protocol env = Inr v" using False by (cases "validate_protocol env") auto
  then have "resp_result response = r" "core su' = core su2" "aux su' = aux su2"
    using False h o by (auto simp: handle_request_def Let_def su1_def su0_def split: prod.splits)
  moreover have "swept (fst (now_ms (fst wall) su)) su su1"
    unfolding su1_def su0_def using ok by (rule now_sweep_swept)
  moreover have "fst (now_ms (snd wall) su1) = handler_time wall su"
    by (simp add: handler_time_def now_ms_time su1_def su0_def)
  ultimately show ?thesis using that(2) [of su1 su2] o by (simp add: su1_def su0_def)
qed

lemma handler_time_mono: "fst (now_ms (fst wall) su) \<le> handler_time wall su" "su_time_floor su \<le> handler_time wall su"
  by (auto simp: handler_time_def now_ms_def Let_def le_max_iff_disj)

lemma dispatch_meets:
  assumes d: "dispatch_verified_request ident env wall su = (response, su')"
    and ok: "surface_ok {} su" "tidy su" "conditional_request (req_request env) \<Longrightarrow> locks_ok su"
  defines "now \<equiv> handler_time wall su" and "m \<equiv> live_map (handler_time wall su) su"
  shows "meets now m (map_spec (ident_tenant ident) (replayed ident (req_idempotency_key env) now su) now (req_request env) m)
           (resp_result response, su')"
proof (cases "authorized ident su")
  case True
  let ?su = "su\<lparr>su_dispatch_attempts := su_dispatch_attempts su + 1\<rparr>"
  have h: "handle_request ident env wall ?su = (response, su')" using d dispatch_authorized [OF True] by simp
  have ok': "surface_ok {} ?su" using ok(1) surface_ok_core [of ?su su "{}"] by simp
  then have "bt_ok (su_store ?su)" by (simp add: surface_ok_def)
  have time: "handler_time wall ?su = now" "fst (now_ms (fst wall) ?su) = fst (now_ms (fst wall) su)"
    by (simp_all add: now_def handler_time_def now_ms_def Let_def)
  from h \<open>bt_ok (su_store ?su)\<close> show ?thesis
  proof (cases rule: handle_request_split)
    case (1 e)
    then show ?thesis by (simp add: m_def now_def live_map_def)
  next
    case (2 su1 su2)
    have aux1: "aux su1 = aux (snd (now_ms (fst wall) su))" using 2(2) by (simp add: aux_def clock_view_def now_ms_def Let_def)
    then have same: "su_idempotency su1 = su_idempotency su" "su_lock_service su1 = su_lock_service su"
      using now_sel(3,5) [of "fst wall" su "fst (now_ms (fst wall) su)"] by (auto simp: aux_def clock_view_def)
    have "live_map now su1 = live_map now ?su" using swept_live [OF 2(1)] handler_time_mono(1) [of wall su] time by (simp add: now_def)
    then have m1: "m = live_map now su1" by (simp add: m_def now_def live_map_def)
    have "meets now m (map_spec (ident_tenant ident) (replayed ident (req_idempotency_key env) now su1) now (req_request env) m)
        (resp_result response, su2)"
      unfolding 2(4) [symmetric]
    proof (rule handle_operation_meets [OF _ m1])
      show "now_ms (snd wall) su1 = (now, snd (now_ms (snd wall) su1))" using 2(3) time(1) by (simp add: prod_eq_iff)
      show "bt_ok (su_store su1)" using 2(1) ok' by (auto simp: swept_def surface_ok_def)
      show "bt_ok (su_idempotency su1)" using same(1) ok(2) by (simp add: tidy_def)
      show "locks_ok su1" if "conditional_request (req_request env)" using same(2) ok(3) [OF that] by (simp add: locks_ok_def)
    qed
    moreover have "replayed ident (req_idempotency_key env) now su1 = replayed ident (req_idempotency_key env) now su"
      unfolding replayed_def same(1) ..
    ultimately show ?thesis using meets_core [OF 2(5)] by simp
  qed
next
  case False
  then have "live_map now su' = m" "\<exists>e. resp_result response = Inl e"
    using dispatch_unauthorized [OF False, of env wall] d by (auto simp: m_def now_def live_map_def dest!: core_eqD)
  then show ?thesis by auto
qed

text \<open>A surface without tenants, or with tenants whose quotas leave room for one request below the largest word.\<close>

definition isolation_ready :: "consumer_isolation option \<Rightarrow> bool" where
  "isolation_ready isol \<longleftrightarrow>
     (\<forall>i. isol = Some i \<longrightarrow> quotas_bounded i \<and> (\<exists>tenants r config. roster_new tenants = Inr r \<and> i = isolation_new r config))"

lemma reachable_ok:
  assumes "isolation_ready isol" "surface_new limits isol = Inr su\<^sub>0" "su = surface_run ops su\<^sub>0"
  shows "surface_ok {} su" "tidy su"
proof -
  have "surface_ok {} su\<^sub>0"
    using surface_new_ok [OF assms(2)] assms(1) roster_new_ok unfolding isolation_ready_def by blast
  then show "surface_ok {} su" using surface_run_kept [of su\<^sub>0 ops] assms(3) by (simp add: kept_def)
  show "tidy su" using surface_run_tidy [OF surface_new_tidy [OF assms(2)]] assms(3) by simp
qed

text \<open>
  C4. The client surface is an expiring map. After any history, whatever request is dispatched, a successful response is the one
  that the specification on the live entries gives at the time of the handler, and the live entries afterwards are those of the
  specification; a rejected request changes no live entry. The sweep, the lazy removal of expired entries, admission by quota and
  rate, and the second store behind compare-and-set do not show. The specification leaves the version of an applied
  compare-and-set and the responses on locks and subscriptions open. The version counter of the conditional store has not run out.
\<close>

theorem surface_refines_map:
  assumes ready: "isolation_ready isol" and new: "surface_new limits isol = Inr su\<^sub>0" and run: "su = surface_run ops su\<^sub>0"
    and versions: "cs_next_version (ls_store (su_lock_service su)) \<noteq> - 1"
    and dispatch: "dispatch_verified_request ident env wall su = (response, su')"
    and now: "now = handler_time wall su"
    and spec: "map_spec (ident_tenant ident) (replayed ident (req_idempotency_key env) now su) now (req_request env) (live_map now su) = (answer, m')"
  shows "case resp_result response of
      Inl _ \<Rightarrow> live_map now su' = live_map now su
    | Inr r \<Rightarrow> live_map now su' = prune now m' \<and> (answer = None \<or> answer = Some (erase_version r))"
proof -
  note ok = reachable_ok [OF ready new run]
  have "meets now (live_map now su) (answer, m') (resp_result response, su')"
    using dispatch_meets [OF dispatch ok] ok(2) versions unfolding now [symmetric] spec by (simp add: locks_ok_def tidy_def)
  then show ?thesis by (auto simp: meets_def split: sum.splits option.splits)
qed

lemma put_remembers:
  assumes h: "handle_put ident (Some k) ns key val ttl wall su = (Inr r, su')" and n: "now_ms wall su = (now, su1)"
    and ok: "bt_ok (su_idempotency su)" and fresh: "\<not> replayed ident (Some k) now su"
  shows "bt_get (su_idempotency su') (ident_tenant ident, k) = Some (sat_add now CLIENT_SURFACE_IDEMPOTENCY_TTL_MS)"
proof -
  obtain early su2 where i: "idempotency_check (ident_tenant ident, k) now su1 = (early, su2)"
    by (cases "idempotency_check (ident_tenant ident, k) now su1")
  have "early = None \<or> (\<exists>e. early = Some (Inl e))"
    using idempotency_outcome(3) [OF i] ok fresh now_sel(5) [OF n] by (simp add: replayed_def)
  then show ?thesis
    using h n i by (auto simp: handle_put_def Let_def record_mutation_def split: if_splits sum.splits prod.splits)
qed

lemma dispatch_remembers:
  assumes d: "dispatch_verified_request ident env wall su = (response, su')" and ok: "surface_ok {} su" "tidy su"
    and put: "req_request env = Put ns key val ttl dims" "req_idempotency_key env = Some k" "resp_result response = Inr r"
    and fresh: "\<not> replayed ident (Some k) (handler_time wall su) su"
  shows "bt_get (su_idempotency su') (ident_tenant ident, k) = Some (sat_add (handler_time wall su) CLIENT_SURFACE_IDEMPOTENCY_TTL_MS)"
proof -
  let ?su = "su\<lparr>su_dispatch_attempts := su_dispatch_attempts su + 1\<rparr>"
  have "authorized ident su" using dispatch_unauthorized(2) [of ident su env wall] d put(3) by auto
  then have h: "handle_request ident env wall ?su = (response, su')" using d dispatch_authorized by simp
  have "bt_ok (su_store ?su)" using ok(1) by (simp add: surface_ok_def)
  with h show ?thesis
  proof (cases rule: handle_request_split)
    case (1 e)
    with put(3) show ?thesis by simp
  next
    case (2 su1 su2)
    have idem: "su_idempotency su1 = su_idempotency su"
      using 2(2) now_sel(5) [of "fst wall" ?su "fst (now_ms (fst wall) ?su)"] by (auto simp: aux_def clock_view_def)
    have time: "handler_time wall ?su = handler_time wall su" by (simp add: handler_time_def now_ms_def Let_def)
    have "handle_put ident (Some k) ns key val ttl (snd wall) su1 = (Inr r, su2)" using 2(4) put by simp
    moreover have "now_ms (snd wall) su1 = (handler_time wall su, snd (now_ms (snd wall) su1))"
      using 2(3) time by (simp add: prod_eq_iff)
    moreover have "\<not> replayed ident (Some k) (handler_time wall su) su1" using fresh idem by (simp add: replayed_def)
    ultimately show ?thesis using put_remembers ok(2) idem 2(6) by (simp add: tidy_def aux_def clock_view_def)
  qed
qed

text \<open>
  C7. A put that is retried under its idempotency key is applied once. When a put with a key that is not a replay has succeeded,
  then for the 24 hours of the retention by the clock of the surface, after any further history of requests and maintenance, a put
  of the same tenant under the same key, whatever it asks to store, changes no live entry, and its successful response is the
  response of a stored put. The diagnostic reset, which clears the outcomes, is excluded.
\<close>

theorem retried_put_applied_once:
  assumes ready: "isolation_ready isol" and new: "surface_new limits isol = Inr su\<^sub>0" and run: "su = surface_run before su\<^sub>0"
    and first: "dispatch_verified_request ident env wall su = (response, su\<^sub>1)" "req_request env = Put ns key val ttl dims"
      "req_idempotency_key env = Some k" "resp_result response = Inr r" "\<not> replayed ident (Some k) (handler_time wall su) su"
    and later: "su\<^sub>2 = surface_run after su\<^sub>1" "OpResetState \<notin> set after"
    and retry: "dispatch_verified_request ident' env' wall' su\<^sub>2 = (response', su\<^sub>3)" "req_request env' = Put ns' key' val' ttl' dims'"
      "req_idempotency_key env' = Some k" "ident_tenant ident' = ident_tenant ident"
    and now: "now = handler_time wall' su\<^sub>2" "now < sat_add (handler_time wall su) CLIENT_SURFACE_IDEMPOTENCY_TTL_MS"
  shows "live_map now su\<^sub>3 = live_map now su\<^sub>2 \<and> (\<forall>r'. resp_result response' = Inr r' \<longrightarrow> r' = RespStored)"
proof -
  note ok = reachable_ok [OF ready new run]
  have su1: "su\<^sub>1 = surface_step (OpDispatch ident env wall) su" using first(1) by simp
  then have "su\<^sub>2 = surface_run (before @ [OpDispatch ident env wall] @ after) su\<^sub>0"
    using later(1) run by (simp add: surface_run_def)
  note ok2 = reachable_ok [OF ready new this]
  have "keeps su\<^sub>1 su\<^sub>2" using surface_run_keeps [OF later(2)] later(1) by simp
  moreover have "tidy su\<^sub>1" unfolding su1 by (rule surface_step_tidy [OF ok(2)])
  moreover have "su_time_floor su\<^sub>2 < sat_add (handler_time wall su) CLIENT_SURFACE_IDEMPOTENCY_TTL_MS"
    using handler_time_mono(2) [of su\<^sub>2 wall'] now by simp
  ultimately have "bt_get (su_idempotency su\<^sub>2) (ident_tenant ident, k) = Some (sat_add (handler_time wall su) CLIENT_SURFACE_IDEMPOTENCY_TTL_MS)"
    using dispatch_remembers [OF first(1) ok first(2-5)] unfolding keeps_def by blast
  then have "replayed ident' (Some k) now su\<^sub>2" using now(2) retry(4) by (simp add: replayed_def)
  then have "meets now (live_map now su\<^sub>2) (Some RespStored, live_map now su\<^sub>2) (resp_result response', su\<^sub>3)"
    using dispatch_meets [OF retry(1) ok2] retry(2,3) now(1) by simp
  then show ?thesis by (auto simp: meets_def split: sum.splits elim: erase_version.elims)
qed

section \<open>Sample histories\<close>

abbreviation sample_cas :: request_envelope where
  "sample_cas \<equiv> sample_env None (CompareAndSet ''n'' sample_key (Exact [1, 2, 3]) [4] LockQuorum)"

theorem surface_refines_map_witness:
  "\<exists>r su'. dispatch_verified_request sample_ident sample_cas (3, 4) (surface_run sample_history (sample_surface None)) = (r, su')
     \<and> (\<exists>v. resp_result r = Inr v \<and> erase_version v = RespCasApplied 0)
     \<and> map_option sv_value (live_map 4 su' (''t'', ''n'', ''k'')) = Some [4]"
proof -
  let ?su = "surface_run sample_history (sample_surface None)" and ?d = "dispatch_verified_request sample_ident sample_cas (3, 4) (surface_run sample_history (sample_surface None))"
  let ?spec = "map_spec (ident_tenant sample_ident) (replayed sample_ident (req_idempotency_key sample_cas) (handler_time (3, 4) ?su) ?su)
      (handler_time (3, 4) ?su) (req_request sample_cas) (live_map (handler_time (3, 4) ?su) ?su)"
  have "isolation_ready None" by (simp add: isolation_ready_def)
  moreover have "cs_next_version (ls_store (su_lock_service ?su)) \<noteq> - 1" by code_simp
  ultimately have "case resp_result (fst ?d) of
      Inl _ \<Rightarrow> live_map (handler_time (3, 4) ?su) (snd ?d) = live_map (handler_time (3, 4) ?su) ?su
    | Inr r \<Rightarrow> live_map (handler_time (3, 4) ?su) (snd ?d) = prune (handler_time (3, 4) ?su) (snd ?spec) \<and> (fst ?spec = None \<or> fst ?spec = Some (erase_version r))"
    by (rule surface_refines_map [OF _ sample_surface_new refl _ prod.collapse [symmetric] refl prod.collapse [symmetric]])
  moreover have "handler_time (3, 4) ?su = 4" by code_simp
  moreover have "fst ?spec = Some (RespCasApplied 0)" "map_option sv_value (prune 4 (snd ?spec) (''t'', ''n'', ''k'')) = Some [4]" "isl (resp_result (fst ?d)) = False"
    by code_simp+
  ultimately show ?thesis by (cases "resp_result (fst ?d)") (auto intro!: exI [of _ "fst ?d"] exI [of _ "snd ?d"])
qed

abbreviation sample_put :: "bytes \<Rightarrow> request_envelope" where
  "sample_put v \<equiv> sample_env (Some ''i'') (Put ''n'' sample_key v None [])"

theorem retried_put_applied_once_witness:
  "let su\<^sub>1 = snd (dispatch_verified_request sample_ident (sample_put [1]) (1, 2) (sample_surface None));
       su\<^sub>2 = surface_run [OpDispatch sample_ident (sample_env None (Invalidate ''n'' sample_key)) (3, 4)] su\<^sub>1;
       (response, su\<^sub>3) = dispatch_verified_request sample_ident (sample_put [2]) (5, 6) su\<^sub>2
   in resp_result response = Inr RespStored \<and> live_map 6 su\<^sub>3 = live_map 6 su\<^sub>2"
proof -
  let ?d1 = "dispatch_verified_request sample_ident (sample_put [1]) (1, 2) (sample_surface None)"
  let ?after = "[OpDispatch sample_ident (sample_env None (Invalidate ''n'' sample_key)) (3, 4)]"
  let ?su2 = "surface_run ?after (snd ?d1)"
  let ?d3 = "dispatch_verified_request sample_ident (sample_put [2]) (5, 6) ?su2"
  have "isolation_ready None" by (simp add: isolation_ready_def)
  moreover have "resp_result (fst ?d1) = Inr RespStored" by code_simp
  moreover have "\<not> replayed sample_ident (Some ''i'') (handler_time (1, 2) (sample_surface None)) (sample_surface None)" by code_simp
  moreover have time: "handler_time (5, 6) ?su2 = 6" by code_simp
  moreover have "handler_time (5, 6) ?su2 < sat_add (handler_time (1, 2) (sample_surface None)) CLIENT_SURFACE_IDEMPOTENCY_TTL_MS" by code_simp
  ultimately have "live_map (handler_time (5, 6) ?su2) (snd ?d3) = live_map (handler_time (5, 6) ?su2) ?su2
      \<and> (\<forall>r'. resp_result (fst ?d3) = Inr r' \<longrightarrow> r' = RespStored)"
    by (intro retried_put_applied_once [OF _ sample_surface_new surface_run_simps(1) [symmetric] prod.collapse [symmetric],
          where ident = sample_ident and env = "sample_put [1]" and wall = "(1, 2)" and after = ?after and k = "''i''"])
      (auto simp: sample_env_def)
  moreover have "\<not> isl (resp_result (fst ?d3))" by code_simp
  ultimately show ?thesis using time by (cases "resp_result (fst ?d3)") (auto simp: Let_def split: prod.split)
qed

end
