(* ===== verification/Spec2Isabelle.thy ===== *)
theory Spec2Isabelle
  imports Cache_Key Tag_Index Local_Cache_Props Value_Store_Props Hinted_Handoff Invalidation_Ring Active_Active Conditional_Props Client_Keys Redis_Glob Tenant_Isolation Client_Surface_Histories
begin

text \<open>
  HydraCache is a cache with three layers: an in-process cache with tags and shared loads, a grid of cluster members that
  replicates values, and a surface over which external clients use a cluster. This library models the parts of each layer that
  hold state and decide something, and proves what makes them correct. Paths below are relative to \<open>src/crates\<close>.

  \<^bold>\<open>Shared ground.\<close> \<open>Prelude\<close> has the machine types and the saturating and checked arithmetic of the Rust standard library, results
  and their composition. \<open>Ordered_Map\<close> has the ordered maps as sorted association lists. \<open>Fnv\<close> has the hash that
  placement and checksums use. Machine integers are words of their width, so an addition wraps or saturates where the source does;
  lengths, durations and instants are natural numbers. A call that the source runs under its lock is one step. The
  calls of the in-process cache hold no lock across their awaits; their histories are sequences of whole calls, and only the
  steps of a load (ownership, start, finish) are interleaved with other calls. Clock readings, random choices and the behaviour of third-party code are arguments.

  \<^bold>\<open>The in-process cache\<close> (\<open>hydracache/src\<close>, \<open>hydracache-core/src\<close>).
  \<^item> \<open>Cache_Key\<close>: \<open>key.rs\<close>, keys from escaped segments, and when two builders collide.
  \<^item> \<open>Tag_Index\<close>: \<open>tag_index.rs\<close>, the index from tags to keys with generations, rotations and tombstones. It refines a function from
    tags and keys to versions; a snapshot that is still current saw no invalidation.
  \<^item> \<open>Cache_Events\<close>, \<open>Load_Breaker\<close>, \<open>In_Flight\<close>, \<open>Memory_Footprint\<close>: \<open>stats.rs\<close> and \<open>events.rs\<close>, \<open>load_breaker.rs\<close>, \<open>inflight.rs\<close>,
    \<open>memory_footprint.rs\<close>. A breaker opens at its threshold and admits one probe; concurrent misses share one load.
  \<^item> \<open>Local_Cache\<close>, \<open>Local_Cache_Inv\<close>, \<open>Local_Cache_Props\<close>: \<open>cache.rs\<close> and \<open>entry.rs\<close>, over an entry store that is a parameter with the
    laws \<open>store_laws\<close>. Invalidations are complete, and a load that an invalidation overtook is discarded.

  \<^bold>\<open>The grid\<close> (\<open>hydracache/src/cluster\<close>, \<open>hydracache/src/grid\<close>).
  \<^item> \<open>Ownership\<close>, \<open>Replication\<close>: \<open>ids.rs\<close>, \<open>membership.rs\<close>, \<open>ownership.rs\<close>, \<open>topology.rs\<close>, \<open>grid/mod.rs\<close>. Replicas are the top of a ranking,
    a departed primary is replaced by its backup, and an unconfirmed tombstone stays until an operation on its own key
    replaces or removes it.
  \<^item> \<open>Value_Store\<close>, \<open>Value_Store_Props\<close>: \<open>hardening.rs\<close>, versioned records with checksums, quorum reads, scrubbing, anti-entropy and the
    send window. Merging never revives a deleted key, and a strong read sees the write before it.
  \<^item> \<open>Hinted_Handoff\<close>, \<open>Invalidation_Ring\<close>, \<open>Consistency_Level\<close>: missed writes are held, handed out or marked for repair; a replay is
    exact or orders a clear; levels reported to overlap do.
  \<^item> \<open>Hybrid_Clock\<close>, \<open>Crdt\<close>, \<open>Active_Active\<close>: \<open>active_active.rs\<close> and \<open>crdt.rs\<close>; replicas that saw the same writes converge. After
    a local write that follows reconciliation, regions agree when the local version counter is ahead and differ when it is behind.
  \<^item> \<open>Conditional_Store\<close>, \<open>Conditional_Props\<close>: \<open>conditional.rs\<close> and \<open>lock_session.rs\<close>; conditional writes are atomic on a map, a stale
    fencing token stays refused, and a lock has one holder until its lease ends.

  \<^bold>\<open>The client surface\<close> (\<open>hydracache-client-protocol\<close>, \<open>hydracache-client-transport-axum\<close>, \<open>hydracache-redis-compat\<close>, \<open>hydracache/src/multitenancy.rs\<close>).
  \<^item> \<open>Client_Keys\<close>, \<open>Redis_Glob\<close>: structured keys and the keys derived from them, the encoding of Redis keys, and the glob matcher.
  \<^item> \<open>Tenant_Isolation\<close>: \<open>multitenancy.rs\<close>, the roster and the quota ledger. Each admission keeps the ledger exact and within quota.
  \<^item> \<open>Client_Protocol\<close>: requests, responses, envelopes and the versions that admit them.
  \<^item> \<open>Client_Surface\<close>: \<open>lib.rs\<close> of the transport. The record \<open>client_surface\<close> is \<open>ClientSurfaceState\<close>; there is one definition per handler, and
    \<open>dispatch_verified_request\<close> composes them. It builds on the conditional store, the isolation and the keys.
  \<^item> \<open>Client_Surface_Props\<close> shows that every handler keeps the ledger equal to the store and touches its own tenant only;
    \<open>Client_Surface_Runs\<close> lifts this to runs and gives the types of responses; \<open>Client_Surface_Refinement\<close> compares every handler with an
    expiring map; \<open>Client_Surface_Histories\<close> lifts that to runs and adds that a retried put is applied once.

  \<^bold>\<open>Interfaces.\<close> Where a component relies on another through a contract, the contract is a locale that the provider interprets on its
  own definitions: the ordered map, the snapshots of the tag index that fence loads, the store that replication writes to, and the merges of the convergence
  proofs.

  \<^bold>\<open>Bounds.\<close> Loops recur on a structural or a measured argument and need no fuel; the glob matcher has a termination proof. Hypotheses on
  size say that a 64-bit counter has not run out, that a logical clock stays below its bound, or that a quota leaves room for one
  request below the largest word; each such theorem has a witness.

  \<^bold>\<open>Not modelled.\<close> Durable storage, backups and recovery depend on a storage engine and on the file system. The cluster runtime, discovery,
  the raft control plane, the transports, the server, the SDKs and the operator are I/O around third-party executors, consensus,
  gossip and HTTP libraries. The database adapters cache results of external drivers. The macros and lints generate code at compile time.
  Observability is read-only. The simulators, test kits, load generator, sandbox and release tasks, which are most of the lines of the
  repository, are not part of the product. Elasticity and residency planning, region failover, session and causal guarantees and Merkle
  repair could be modelled over the theories here and are left out for size. Of the modelled parts, text of errors, metric
  snapshots, HTTP routes and the frame codec are left out.
\<close>

end
